(* ===== verification/Prelude.thy ===== *)
theory Prelude
  imports Main "HOL-Library.Word"
begin

text \<open>
  The prelude of the development: the machine arithmetic, the memory accesses and the error values
  that the component models share, the interface of an invariant-preserving transition system, and
  the list lemmas their proofs rest on.

  \<^item> \<open>size_t\<close> is a natural number below \<open>2 ^ 64\<close>; addition and subtraction are written out with
    their wrap-around (\<open>sz_add\<close>, \<open>sz_sub\<close>), and the components prove that their invariants keep
    them exact.
  \<^item> An access of a \<open>std::vector\<close> or an array through a raw pointer is \<open>vec_read\<close>, \<open>vec_write\<close> or
    \<open>vec_copy_within\<close>: outside the storage (or, for \<open>std::copy\<close>, with a destination inside the
    source range) the result is an error, so that the absence of undefined behaviour is a theorem
    and not an assumption.
  \<^item> Errno values are the numbers of the Linux ABI; \<open>EAGAIN\<close> and \<open>EWOULDBLOCK\<close> are the same
    number there.
\<close>

section \<open>Automation\<close>

named_theorems sz_simps \<open>exactness of size_t arithmetic\<close>
named_theorems mem_simps \<open>accesses through raw pointers that stay inside the storage\<close>

section \<open>Results\<close>

text \<open>
  The ways in which an operation of the C++ code can leave its domain: an access outside the
  storage, an overlapping \<open>std::copy\<close>, a null or dangling pointer, a container asked to grow beyond
  its \<open>max_size\<close>, an allocation that fails, a division by zero, an overflow
  of a signed integer.
\<close>

datatype cxx_error = OutOfBounds | Overlap | NullDeref | LengthError | BadAlloc | DivByZero | IntOverflow

type_synonym 'a result = "cxx_error + 'a"

definition bind_r :: "'e + 'a \<Rightarrow> ('a \<Rightarrow> 'e + 'b) \<Rightarrow> 'e + 'b" where
  "bind_r m f = (case m of Inl e \<Rightarrow> Inl e | Inr x \<Rightarrow> f x)"

lemma bind_r_simps [simp]:
  "bind_r (Inl e) f = Inl e"
  "bind_r (Inr x) f = f x"
  by (simp_all add: bind_r_def)

lemma bind_r_Inr_iff: "bind_r m f = Inr y \<longleftrightarrow> (\<exists>x. m = Inr x \<and> f x = Inr y)"
  by (cases m) auto

lemma bind_r_Inl_iff: "bind_r m f = Inl e \<longleftrightarrow> m = Inl e \<or> (\<exists>x. m = Inr x \<and> f x = Inl e)"
  by (cases m) auto

lemma bind_r_assoc: "bind_r (bind_r m f) g = bind_r m (\<lambda>x. bind_r (f x) g)"
  by (cases m) auto

section \<open>Machine arithmetic\<close>

definition sz_add :: "nat \<Rightarrow> nat \<Rightarrow> nat" where
  "sz_add a b = (a + b) mod 2 ^ 64"

definition sz_sub :: "nat \<Rightarrow> nat \<Rightarrow> nat" where
  "sz_sub a b = (if b \<le> a then a - b else (a + 2 ^ 64 - b) mod 2 ^ 64)"

lemma sz_add_exact [sz_simps]: "a + b < 2 ^ 64 \<Longrightarrow> sz_add a b = a + b"
  by (simp add: sz_add_def)

lemma sz_sub_exact [sz_simps]: "b \<le> a \<Longrightarrow> sz_sub a b = a - b"
  by (simp add: sz_sub_def)

lemma sz_add_lt: "sz_add a b < 2 ^ 64"
  by (simp add: sz_add_def)

text \<open>The largest size of a \<open>std::vector<char>\<close> and of a \<open>std::string\<close>: \<open>PTRDIFF_MAX\<close>.\<close>

definition ptrdiff_max :: nat where
  "ptrdiff_max = 2 ^ 63 - 1"

lemma ptrdiff_max_lt: "n \<le> ptrdiff_max \<Longrightarrow> n < 2 ^ 63"
  by (simp add: ptrdiff_max_def)

text \<open>C++ integer division and remainder truncate towards zero.\<close>

definition tdiv :: "int \<Rightarrow> int \<Rightarrow> int" where
  "tdiv a b = sgn a * sgn b * (\<bar>a\<bar> div \<bar>b\<bar>)"

definition tmod :: "int \<Rightarrow> int \<Rightarrow> int" where
  "tmod a b = a - b * tdiv a b"

lemma tdiv_nonneg: "0 \<le> a \<Longrightarrow> 0 < b \<Longrightarrow> tdiv a b = a div b"
  by (cases "a = 0") (auto simp: tdiv_def)

lemma tmod_nonneg: "0 \<le> a \<Longrightarrow> 0 < b \<Longrightarrow> tmod a b = a mod b"
  by (simp add: tmod_def tdiv_nonneg minus_mult_div_eq_mod)

section \<open>Errno\<close>

type_synonym errno = int

definition EINTR :: errno where "EINTR = 4"
definition EAGAIN :: errno where "EAGAIN = 11"
definition EWOULDBLOCK :: errno where "EWOULDBLOCK = 11"
definition EMFILE :: errno where "EMFILE = 24"
definition EPIPE :: errno where "EPIPE = 32"
definition ECONNRESET :: errno where "ECONNRESET = 104"

lemmas errno_defs = EINTR_def EAGAIN_def EWOULDBLOCK_def EMFILE_def EPIPE_def ECONNRESET_def

section \<open>Raw memory accesses\<close>

text \<open>Reading \<open>n\<close> cells from index \<open>i\<close>.\<close>

definition vec_read :: "'a list \<Rightarrow> nat \<Rightarrow> nat \<Rightarrow> 'a list result" where
  "vec_read xs i n = (if i + n \<le> length xs then Inr (take n (drop i xs)) else Inl OutOfBounds)"

text \<open>Writing the cells \<open>ys\<close> from index \<open>i\<close> on.\<close>

definition vec_write :: "'a list \<Rightarrow> nat \<Rightarrow> 'a list \<Rightarrow> 'a list result" where
  "vec_write xs i ys =
     (if i + length ys \<le> length xs
      then Inr (take i xs @ ys @ drop (i + length ys) xs)
      else Inl OutOfBounds)"

text \<open>
  \<open>std::copy(v + first, v + last, v + d)\<close> inside one vector: undefined when the destination lies
  in the source range.
\<close>

definition vec_copy_within :: "'a list \<Rightarrow> nat \<Rightarrow> nat \<Rightarrow> nat \<Rightarrow> 'a list result" where
  "vec_copy_within xs first lst d =
     (if lst < first then Inl OutOfBounds
      else if first \<le> d \<and> d < lst then Inl Overlap
      else bind_r (vec_read xs first (lst - first)) (vec_write xs d))"

text \<open>\<open>std::vector::resize\<close>: truncates, or value-initialises the new cells; too long throws.\<close>

definition vec_resize :: "'a \<Rightarrow> 'a list \<Rightarrow> nat \<Rightarrow> 'a list result" where
  "vec_resize z xs n =
     (if ptrdiff_max < n then Inl LengthError
      else Inr (take n xs @ replicate (n - length xs) z))"

lemma vec_read_ok [mem_simps]: "i + n \<le> length xs \<Longrightarrow> vec_read xs i n = Inr (take n (drop i xs))"
  by (simp add: vec_read_def)

lemma vec_write_ok [mem_simps]:
  "i + length ys \<le> length xs \<Longrightarrow>
   vec_write xs i ys = Inr (take i xs @ ys @ drop (i + length ys) xs)"
  by (simp add: vec_write_def)

lemma vec_write_Inr_length: "vec_write xs i ys = Inr zs \<Longrightarrow> length zs = length xs"
  by (auto simp: vec_write_def split: if_splits)

text \<open>None of them fails with a null pointer.\<close>

lemma vec_no_null:
  "vec_read xs i n \<noteq> Inl NullDeref" "vec_write xs i ys \<noteq> Inl NullDeref" "vec_copy_within xs a z d \<noteq> Inl NullDeref"
  "vec_resize v xs n \<noteq> Inl NullDeref"
  by (auto simp: vec_read_def vec_write_def vec_copy_within_def vec_resize_def bind_r_Inl_iff)

lemma vec_resize_ok [mem_simps]:
  "n \<le> ptrdiff_max \<Longrightarrow> vec_resize z xs n = Inr (take n xs @ replicate (n - length xs) z)"
  by (simp add: vec_resize_def)

lemma vec_copy_within_ok [mem_simps]:
  assumes "first \<le> lst" "lst \<le> length xs" "d < first"
  shows "vec_copy_within xs first lst d =
    Inr (take d xs @ take (lst - first) (drop first xs) @ drop (d + (lst - first)) xs)"
proof -
  have "length (take (lst - first) (drop first xs)) = lst - first" using assms by simp
  with assms show ?thesis by (simp add: vec_copy_within_def vec_read_def vec_write_def)
qed

section \<open>List lemmas\<close>

text \<open>The cells \<open>[r, w)\<close> of a list, and how writes and moves act on them.\<close>

definition segment :: "'a list \<Rightarrow> nat \<Rightarrow> nat \<Rightarrow> 'a list" where
  "segment xs r w = take (w - r) (drop r xs)"

lemma length_segment: "r \<le> w \<Longrightarrow> w \<le> length xs \<Longrightarrow> length (segment xs r w) = w - r"
  by (simp add: segment_def)

lemma segment_self [simp]: "segment xs r r = []"
  by (simp add: segment_def)

lemma segment_write:
  assumes "r \<le> w" "w + length ys \<le> length xs"
  shows "segment (take w xs @ ys @ drop (w + length ys) xs) r (w + length ys) = segment xs r w @ ys"
proof -
  have "drop r (take w xs @ ys @ drop (w + length ys) xs)
      = take (w - r) (drop r xs) @ ys @ drop (w + length ys) xs"
    using assms by (simp add: drop_take)
  moreover have "length (take (w - r) (drop r xs)) = w - r" using assms by simp
  ultimately show ?thesis using assms by (simp add: segment_def)
qed

lemma segment_resize:
  "r \<le> w \<Longrightarrow> w \<le> length xs \<Longrightarrow> w \<le> n \<Longrightarrow> segment (take n xs @ replicate k z) r w = segment xs r w"
  by (simp add: segment_def drop_take min_def)

lemma segment_move:
  assumes "d < r" "r \<le> w" "w \<le> length xs"
  shows "segment (take d xs @ take (w - r) (drop r xs) @ drop (d + (w - r)) xs) d (d + (w - r))
       = segment xs r w"
  using assms by (simp add: segment_def)

lemma segment_drop: "segment xs (r + n) w = drop n (segment xs r w)"
  by (simp add: segment_def drop_take add.commute)

lemma segment_take: "r + n \<le> w \<Longrightarrow> take n (segment xs r w) = segment xs r (r + n)"
  by (simp add: segment_def min_def)

section \<open>Transition systems and invariants\<close>

text \<open>
  Several components are small concurrent systems: a step relation on a state, an initial state and
  an invariant. The reachable states are one inductive predicate; the locale states the two facts a
  component proves about its own step relation and gives back that every reachable state satisfies
  the invariant.
\<close>

inductive reachable :: "('s \<Rightarrow> bool) \<Rightarrow> ('s \<Rightarrow> 's \<Rightarrow> bool) \<Rightarrow> 's \<Rightarrow> bool"
  for initial :: "'s \<Rightarrow> bool" and step :: "'s \<Rightarrow> 's \<Rightarrow> bool" where
  reachable_init: "initial s \<Longrightarrow> reachable initial step s"
| reachable_step: "reachable initial step s \<Longrightarrow> step s t \<Longrightarrow> reachable initial step t"

locale invariant_system =
  fixes initial :: "'s \<Rightarrow> bool"
    and step :: "'s \<Rightarrow> 's \<Rightarrow> bool"
    and inv :: "'s \<Rightarrow> bool"
  assumes inv_initial: "initial s \<Longrightarrow> inv s"
    and inv_step: "inv s \<Longrightarrow> step s t \<Longrightarrow> inv t"
begin

lemma reachable_inv: "reachable initial step s \<Longrightarrow> inv s"
  by (induction rule: reachable.induct) (auto intro: inv_initial inv_step)

lemma rtranclp_inv: "step\<^sup>*\<^sup>* s t \<Longrightarrow> inv s \<Longrightarrow> inv t"
  by (induction rule: rtranclp_induct) (auto intro: inv_step)

end

end
