(* ===== verification/Buffer.thy ===== *)
theory Buffer
  imports Prelude
begin

text \<open>
  The byte buffer of a connection (\<open>include/Buffer.h\<close>, \<open>src/Buffer.cc\<close>): a \<open>std::vector<char>\<close>
  with a read index and a write index,

  \<^verbatim>\<open>
  [ prependable ] [ readable ] [ writable ]
  0         readerIndex_  writerIndex_  buffer_.size()
  \<close>

  The operations are the class's methods. An access outside the vector and an overlapping
  \<open>std::copy\<close> are error results; \<open>size_t\<close> arithmetic wraps. The invariant \<open>buf_ok\<close> excludes both,
  and over it the buffer is a FIFO queue of bytes: this is the interface \<open>byte_queue\<close>, interpreted
  on the class at the end.
\<close>

section \<open>State and operations\<close>

record Buffer =
  buffer :: "char list"
  readerIndex :: nat
  writerIndex :: nat

definition CheapPrepend :: nat where "CheapPrepend = 8"
definition InitialSize :: nat where "InitialSize = 1024"

text \<open>The constructor: \<open>buffer_(CheapPrepend + initialSize)\<close> value-initialises the vector.\<close>

definition Buffer_new :: "nat \<Rightarrow> Buffer result" where
  "Buffer_new initialSize =
     bind_r (vec_resize (CHR 0x00) [] (sz_add CheapPrepend initialSize)) (\<lambda>v.
       Inr \<lparr>buffer = v, readerIndex = CheapPrepend, writerIndex = CheapPrepend\<rparr>)"

definition readableBytes :: "Buffer \<Rightarrow> nat" where
  "readableBytes b = sz_sub (writerIndex b) (readerIndex b)"

definition writableBytes :: "Buffer \<Rightarrow> nat" where
  "writableBytes b = sz_sub (length (buffer b)) (writerIndex b)"

definition prependableBytes :: "Buffer \<Rightarrow> nat" where
  "prependableBytes b = readerIndex b"

definition retrieveAll :: "Buffer \<Rightarrow> Buffer" where
  "retrieveAll b = b\<lparr>readerIndex := CheapPrepend, writerIndex := CheapPrepend\<rparr>"

definition retrieve :: "Buffer \<Rightarrow> nat \<Rightarrow> Buffer" where
  "retrieve b len =
     (if len < readableBytes b
      then b\<lparr>readerIndex := sz_add (readerIndex b) len\<rparr>
      else retrieveAll b)"

text \<open>
  \<open>std::string(peek(), len)\<close> reads \<open>len\<close> bytes from the read index, whatever \<open>len\<close> is; the string
  is built before the indices move.
\<close>

definition retrieveAsString :: "Buffer \<Rightarrow> nat \<Rightarrow> (string \<times> Buffer) result" where
  "retrieveAsString b len =
     bind_r (vec_read (buffer b) (readerIndex b) len) (\<lambda>s. Inr (s, retrieve b len))"

definition retrieveAllAsString :: "Buffer \<Rightarrow> (string \<times> Buffer) result" where
  "retrieveAllAsString b = retrieveAsString b (readableBytes b)"

text \<open>
  Making room: grow the vector when the free space before and after the readable bytes does not
  suffice, otherwise move the readable bytes down to \<open>CheapPrepend\<close>.
\<close>

definition makeSpace :: "Buffer \<Rightarrow> nat \<Rightarrow> Buffer result" where
  "makeSpace b len =
     (if sz_add (writableBytes b) (prependableBytes b) < sz_add len CheapPrepend
      then bind_r (vec_resize (CHR 0x00) (buffer b) (sz_add (writerIndex b) len)) (\<lambda>v.
             Inr (b\<lparr>buffer := v\<rparr>))
      else (let readable = readableBytes b in
        bind_r (vec_copy_within (buffer b) (readerIndex b) (writerIndex b) CheapPrepend) (\<lambda>v.
          Inr (b\<lparr>buffer := v, readerIndex := CheapPrepend,
                 writerIndex := sz_add CheapPrepend readable\<rparr>))))"

definition ensureWritableBytes :: "Buffer \<Rightarrow> nat \<Rightarrow> Buffer result" where
  "ensureWritableBytes b len = (if writableBytes b < len then makeSpace b len else Inr b)"

definition Buffer_append :: "Buffer \<Rightarrow> char list \<Rightarrow> Buffer result" where
  "Buffer_append b data =
     bind_r (ensureWritableBytes b (length data)) (\<lambda>b1.
     bind_r (vec_write (buffer b1) (writerIndex b1) data) (\<lambda>v.
       Inr (b1\<lparr>buffer := v, writerIndex := sz_add (writerIndex b1) (length data)\<rparr>)))"

section \<open>Reading from and writing to a descriptor\<close>

text \<open>
  \<open>readFd\<close> offers \<open>readv\<close> the writable part of the vector and, when that is smaller than 65536
  bytes, a second block of 65536 bytes on the stack. \<open>readFd_room\<close> is the total size offered. The
  reply of the kernel is an argument: an errno, or the bytes it delivered. The bytes fill the first
  block and then the second.
\<close>

definition extrabuf_size :: nat where "extrabuf_size = 65536"

definition readFd_room :: "Buffer \<Rightarrow> nat" where
  "readFd_room b =
     (if writableBytes b < extrabuf_size then writableBytes b + extrabuf_size else writableBytes b)"

datatype 'a sysret = SysErr errno | SysOk 'a

definition readFd :: "Buffer \<Rightarrow> char list sysret \<Rightarrow> (Buffer \<times> int \<times> errno option) result" where
  "readFd b reply =
     (case reply of
        SysErr e \<Rightarrow> Inr (b, -1, Some e)
      | SysOk bytes \<Rightarrow>
         (let writable = writableBytes b; n = length bytes in
          bind_r (vec_write (buffer b) (writerIndex b) (take writable bytes)) (\<lambda>v.
          let b1 = b\<lparr>buffer := v\<rparr> in
          if n \<le> writable
          then Inr (b1\<lparr>writerIndex := sz_add (writerIndex b1) n\<rparr>, int n, None)
          else bind_r (Buffer_append (b1\<lparr>writerIndex := length (buffer b1)\<rparr>) (drop writable bytes))
                 (\<lambda>b2. Inr (b2, int n, None)))))"

text \<open>
  \<open>writeFd\<close> hands \<open>write\<close> the readable bytes; the buffer itself is not changed (the caller
  retrieves what was accepted). The first component is the range passed to the system call.
\<close>

definition writeFd :: "Buffer \<Rightarrow> nat sysret \<Rightarrow> (char list \<times> int \<times> errno option) result" where
  "writeFd b reply =
     bind_r (vec_read (buffer b) (readerIndex b) (readableBytes b)) (\<lambda>data.
       case reply of
         SysErr e \<Rightarrow> Inr (data, -1, Some e)
       | SysOk n \<Rightarrow> Inr (data, int n, None))"

lemma Buffer_append_no_null: "Buffer_append b d \<noteq> Inl NullDeref"
  by (simp add: Buffer_append_def ensureWritableBytes_def makeSpace_def bind_r_Inl_iff vec_no_null Let_def)

lemma buffer_no_null:
  "readFd b x \<noteq> Inl NullDeref" "writeFd b y \<noteq> Inl NullDeref" "retrieveAllAsString b \<noteq> Inl NullDeref"
  by (auto simp: readFd_def writeFd_def retrieveAllAsString_def retrieveAsString_def bind_r_Inl_iff vec_no_null Let_def
      Buffer_append_no_null split: sysret.splits if_splits)

section \<open>Invariant and abstraction\<close>

definition buf_ok :: "Buffer \<Rightarrow> bool" where
  "buf_ok b \<longleftrightarrow> CheapPrepend \<le> readerIndex b \<and> readerIndex b \<le> writerIndex b \<and>
     writerIndex b \<le> length (buffer b) \<and> length (buffer b) \<le> ptrdiff_max"

definition content :: "Buffer \<Rightarrow> char list" where
  "content b = segment (buffer b) (readerIndex b) (writerIndex b)"

lemma buf_okD:
  assumes "buf_ok b"
  shows "CheapPrepend \<le> readerIndex b" "readerIndex b \<le> writerIndex b"
    "writerIndex b \<le> length (buffer b)" "length (buffer b) < 2 ^ 63" "length (buffer b) \<le> ptrdiff_max"
  using assms ptrdiff_max_lt by (auto simp: buf_ok_def)

lemma readableBytes_eq: "buf_ok b \<Longrightarrow> readableBytes b = writerIndex b - readerIndex b"
  by (simp add: readableBytes_def sz_simps buf_okD)

lemma writableBytes_eq: "buf_ok b \<Longrightarrow> writableBytes b = length (buffer b) - writerIndex b"
  by (simp add: writableBytes_def sz_simps buf_okD)

lemma length_content: "buf_ok b \<Longrightarrow> length (content b) = readableBytes b"
  by (simp add: content_def length_segment buf_okD readableBytes_eq)

lemma content_empty_iff: "buf_ok b \<Longrightarrow> content b = [] \<longleftrightarrow> readableBytes b = 0"
  by (metis length_0_conv length_content)

lemma Buffer_new_ok:
  assumes "CheapPrepend + n \<le> ptrdiff_max"
  obtains b where "Buffer_new n = Inr b" "buf_ok b" "content b = []" "writableBytes b = n"
proof -
  let ?b = "\<lparr>buffer = replicate (CheapPrepend + n) (CHR 0x00),
    readerIndex = CheapPrepend, writerIndex = CheapPrepend\<rparr>"
  have "CheapPrepend + n < 2 ^ 64" using ptrdiff_max_lt [OF assms] by simp
  then have "Buffer_new n = Inr ?b" using assms by (simp add: Buffer_new_def sz_simps mem_simps)
  moreover have "buf_ok ?b" using assms by (simp add: buf_ok_def)
  ultimately show thesis
    by (intro that [of ?b]) (simp_all add: content_def writableBytes_eq)
qed

section \<open>Functional behaviour\<close>

lemma retrieveAll_ok: "buf_ok b \<Longrightarrow> buf_ok (retrieveAll b) \<and> content (retrieveAll b) = []"
  by (auto simp: buf_ok_def retrieveAll_def content_def)

lemma retrieve_ok:
  assumes "buf_ok b"
  shows "buf_ok (retrieve b n) \<and> content (retrieve b n) = drop n (content b)"
proof (cases "n < readableBytes b")
  case True
  then have "n < writerIndex b - readerIndex b" using readableBytes_eq assms by simp
  moreover from this have "sz_add (readerIndex b) n = readerIndex b + n"
    using buf_okD [OF assms] by (simp add: sz_simps)
  ultimately show ?thesis
    using True assms by (auto simp: retrieve_def buf_ok_def content_def segment_drop)
next
  case False
  then show ?thesis
    using retrieveAll_ok [OF assms] length_content [OF assms] by (simp add: retrieve_def)
qed

lemma retrieve_writerIndex: "buf_ok b \<Longrightarrow> writerIndex (retrieve b n) \<le> writerIndex b"
  by (auto simp: retrieve_def retrieveAll_def buf_ok_def)

lemma retrieveAsString_ok:
  assumes "buf_ok b" "n \<le> readableBytes b"
  shows "retrieveAsString b n = Inr (take n (content b), retrieve b n)"
proof -
  have "readerIndex b + n \<le> writerIndex b" using assms buf_okD [OF assms(1)] by (simp add: readableBytes_eq)
  then show ?thesis
    using buf_okD [OF assms(1)]
    by (simp add: retrieveAsString_def mem_simps content_def segment_take) (simp add: segment_def)
qed

text \<open>After \<open>makeSpace\<close> the requested room is there, and the readable bytes are the same.\<close>

lemma makeSpace_ok:
  assumes ok: "buf_ok b" and len: "writableBytes b < len" and fits: "writerIndex b + len \<le> ptrdiff_max"
  obtains b' where "makeSpace b len = Inr b'" "buf_ok b'" "content b' = content b"
    "len \<le> writableBytes b'" "writerIndex b' \<le> writerIndex b"
proof -
  note D = buf_okD [OF ok]
  note lt = ptrdiff_max_lt [OF fits]
  have w: "sz_add (writableBytes b) (prependableBytes b) = length (buffer b) - writerIndex b + readerIndex b"
    using D by (simp add: writableBytes_eq [OF ok] prependableBytes_def sz_simps)
  have l: "sz_add len CheapPrepend = len + CheapPrepend"
    using D lt by (simp add: sz_simps)
  show thesis
  proof (cases "length (buffer b) - writerIndex b + readerIndex b < len + CheapPrepend")
    case True
    let ?v = "take (writerIndex b + len) (buffer b)
      @ replicate (writerIndex b + len - length (buffer b)) (CHR 0x00)"
    have e: "makeSpace b len = Inr (b\<lparr>buffer := ?v\<rparr>)"
      using True w l fits lt by (simp add: makeSpace_def sz_simps mem_simps)
    have len_v: "length ?v = writerIndex b + len"
      using len D by (simp add: writableBytes_eq [OF ok])
    have ok': "buf_ok (b\<lparr>buffer := ?v\<rparr>)" using D len_v fits by (simp add: buf_ok_def)
    moreover have "content (b\<lparr>buffer := ?v\<rparr>) = content b"
      using D by (simp add: content_def segment_resize)
    moreover have "len \<le> writableBytes (b\<lparr>buffer := ?v\<rparr>)"
      using len_v by (simp add: writableBytes_eq [OF ok'])
    ultimately show thesis using that e by simp
  next
    case False
    let ?k = "writerIndex b - readerIndex b"
    let ?v = "take CheapPrepend (buffer b) @ take ?k (drop (readerIndex b) (buffer b))
      @ drop (CheapPrepend + ?k) (buffer b)"
    let ?b' = "b\<lparr>buffer := ?v, readerIndex := CheapPrepend, writerIndex := CheapPrepend + ?k\<rparr>"
    have r: "CheapPrepend < readerIndex b"
      using False len by (simp add: writableBytes_eq [OF ok])
    have "sz_add CheapPrepend ?k = CheapPrepend + ?k" using D r by (simp add: sz_simps)
    then have e: "makeSpace b len = Inr ?b'"
      using False w l D r by (simp add: makeSpace_def mem_simps readableBytes_eq [OF ok])
    have len_v: "length ?v = length (buffer b)" using D r by simp
    have "CheapPrepend + ?k \<le> length (buffer b)" using D r by linarith
    with D len_v have ok': "buf_ok ?b'" by (simp add: buf_ok_def)
    moreover have "content ?b' = content b"
      using segment_move [OF r D(2) D(3)] by (simp add: content_def)
    moreover have "len \<le> writableBytes ?b'"
    proof -
      have "writableBytes ?b' = length ?v - (CheapPrepend + ?k)" by (simp add: writableBytes_eq [OF ok'])
      with False D r len_v show ?thesis by linarith
    qed
    ultimately show thesis using that [OF e] D r by simp
  qed
qed

lemma Buffer_append_ok:
  assumes ok: "buf_ok b" and fits: "writerIndex b + length data \<le> ptrdiff_max"
  obtains b' where "Buffer_append b data = Inr b'" "buf_ok b'" "content b' = content b @ data"
    "writerIndex b' \<le> writerIndex b + length data"
proof -
  obtain b1 where b1: "ensureWritableBytes b (length data) = Inr b1" "buf_ok b1"
    "content b1 = content b" "length data \<le> writableBytes b1" "writerIndex b1 \<le> writerIndex b"
  proof (cases "writableBytes b < length data")
    case True
    from makeSpace_ok [OF ok True fits] show thesis
      using that True by (metis ensureWritableBytes_def)
  next
    case False
    then show thesis using that [of b] ok by (simp add: ensureWritableBytes_def)
  qed
  note D = buf_okD [OF b1(2)]
  let ?v = "take (writerIndex b1) (buffer b1) @ data @ drop (writerIndex b1 + length data) (buffer b1)"
  let ?b' = "b1\<lparr>buffer := ?v, writerIndex := writerIndex b1 + length data\<rparr>"
  have room: "writerIndex b1 + length data \<le> length (buffer b1)"
    using b1(4) D by (simp add: writableBytes_eq [OF b1(2)])
  have "Buffer_append b data = Inr ?b'"
    using b1(1) room D by (simp add: Buffer_append_def mem_simps sz_simps)
  moreover have "buf_ok ?b'" using D room by (simp add: buf_ok_def)
  moreover have "content ?b' = content b @ data"
    using segment_write [OF D(2) room] b1(3) by (simp add: content_def)
  ultimately show thesis by (rule that) (use b1(5) in simp)
qed

text \<open>
  \<open>readFd\<close> appends exactly the bytes the kernel delivered, whether they fit the vector, fill it or
  spill into the stack block.
\<close>

lemma readFd_ok:
  assumes ok: "buf_ok b" and room: "length bytes \<le> readFd_room b"
    and fits: "length (buffer b) + extrabuf_size \<le> ptrdiff_max"
  obtains b' where "readFd b (SysOk bytes) = Inr (b', int (length bytes), None)"
    "buf_ok b'" "content b' = content b @ bytes"
proof -
  note D = buf_okD [OF ok]
  let ?w = "length (buffer b) - writerIndex b"
  have w: "writableBytes b = ?w" by (rule writableBytes_eq [OF ok])
  show thesis
  proof (cases "length bytes \<le> ?w")
    case True
    let ?v = "take (writerIndex b) (buffer b) @ bytes @ drop (writerIndex b + length bytes) (buffer b)"
    let ?b' = "b\<lparr>buffer := ?v, writerIndex := writerIndex b + length bytes\<rparr>"
    have r: "writerIndex b + length bytes \<le> length (buffer b)" using True D by simp
    have "readFd b (SysOk bytes) = Inr (?b', int (length bytes), None)"
      using True r D by (simp add: readFd_def w Let_def mem_simps sz_simps)
    moreover have "buf_ok ?b'" using D r by (simp add: buf_ok_def)
    moreover have "content ?b' = content b @ bytes"
      using segment_write [OF D(2) r] by (simp add: content_def)
    ultimately show thesis by (rule that)
  next
    case False
    let ?v = "take (writerIndex b) (buffer b) @ take ?w bytes"
    let ?b1 = "b\<lparr>buffer := ?v, writerIndex := length (buffer b)\<rparr>"
    have len_v: "length ?v = length (buffer b)" using False D by simp
    have wr: "vec_write (buffer b) (writerIndex b) (take ?w bytes) = Inr ?v"
      using False D by (simp add: vec_write_def)
    have ok1: "buf_ok ?b1" using D len_v by (simp add: buf_ok_def)
    have c1: "content ?b1 = content b @ take ?w bytes"
      using segment_write [OF D(2), of "take ?w bytes" "buffer b"] False D by (simp add: content_def)
    have "length (drop ?w bytes) \<le> extrabuf_size"
      using room False by (auto simp: readFd_room_def w split: if_splits)
    then have "writerIndex ?b1 + length (drop ?w bytes) \<le> ptrdiff_max" using fits by simp
    from Buffer_append_ok [OF ok1 this] obtain b2 where
      b2: "Buffer_append ?b1 (drop ?w bytes) = Inr b2" "buf_ok b2"
        "content b2 = content ?b1 @ drop ?w bytes" by blast
    have "readFd b (SysOk bytes) = Inr (b2, int (length bytes), None)"
      using False b2(1) len_v by (simp add: readFd_def w wr Let_def)
    then show thesis using that b2 c1 by simp
  qed
qed






lemma writeFd_ok:
  assumes "buf_ok b"
  shows "writeFd b (SysOk n) = Inr (content b, int n, None)"
    and "writeFd b (SysErr e) = Inr (content b, -1, Some e)"
  using buf_okD [OF assms]
  by (simp_all add: writeFd_def mem_simps readableBytes_eq [OF assms] content_def segment_def)

section \<open>The buffer as a queue of bytes\<close>

text \<open>
  What the connection relies on: a queue with a content, a \<open>put\<close> that appends, a \<open>get\<close> that takes out as
  many elements as asked for, no more than there are, a \<open>get_all\<close> that takes out everything, and a bound
  on the storage in use below which \<open>put\<close> succeeds. A run of operations returns the elements taken out,
  in order. In a legal run on a queue of \<open>k\<close> elements no \<open>Get\<close> asks for more than there are.
\<close>

datatype 'a qop = Put "'a list" | Get nat | GetAll

fun qrun :: "('q \<Rightarrow> 'a list \<Rightarrow> 'e + 'q) \<Rightarrow> ('q \<Rightarrow> nat \<Rightarrow> 'e + 'a list \<times> 'q) \<Rightarrow> ('q \<Rightarrow> 'e + 'a list \<times> 'q) \<Rightarrow> 'q \<Rightarrow>
    'a qop list \<Rightarrow> 'e + 'a list \<times> 'q" where
  "qrun put get get_all q [] = Inr ([], q)"
| "qrun put get get_all q (Put xs # ops) = bind_r (put q xs) (\<lambda>q1. qrun put get get_all q1 ops)"
| "qrun put get get_all q (Get n # ops) =
     bind_r (get q n) (\<lambda>(ys, q1). bind_r (qrun put get get_all q1 ops) (\<lambda>(zs, q2). Inr (ys @ zs, q2)))"
| "qrun put get get_all q (GetAll # ops) =
     bind_r (get_all q) (\<lambda>(ys, q1). bind_r (qrun put get get_all q1 ops) (\<lambda>(zs, q2). Inr (ys @ zs, q2)))"

fun puts :: "'a qop list \<Rightarrow> 'a list" where
  "puts [] = []"
| "puts (Put xs # ops) = xs @ puts ops"
| "puts (_ # ops) = puts ops"

fun legal_gets :: "nat \<Rightarrow> 'a qop list \<Rightarrow> bool" where
  "legal_gets k [] \<longleftrightarrow> True"
| "legal_gets k (Put xs # ops) \<longleftrightarrow> legal_gets (k + length xs) ops"
| "legal_gets k (Get n # ops) \<longleftrightarrow> n \<le> k \<and> legal_gets (k - n) ops"
| "legal_gets k (GetAll # ops) \<longleftrightarrow> legal_gets 0 ops"

locale byte_queue =
  fixes invar :: "'q \<Rightarrow> bool"
    and content :: "'q \<Rightarrow> 'a list"
    and used :: "'q \<Rightarrow> nat"
    and limit :: nat
    and put :: "'q \<Rightarrow> 'a list \<Rightarrow> 'e + 'q"
    and get :: "'q \<Rightarrow> nat \<Rightarrow> 'e + 'a list \<times> 'q"
    and get_all :: "'q \<Rightarrow> 'e + 'a list \<times> 'q"
  assumes put_ok: "invar q \<Longrightarrow> used q + length xs \<le> limit \<Longrightarrow>
      \<exists>q'. put q xs = Inr q' \<and> invar q' \<and> content q' = content q @ xs \<and> used q' \<le> used q + length xs"
    and get_ok: "invar q \<Longrightarrow> n \<le> length (content q) \<Longrightarrow>
      \<exists>q'. get q n = Inr (take n (content q), q') \<and> invar q' \<and> content q' = drop n (content q)
        \<and> used q' \<le> used q"
    and get_all_ok: "invar q \<Longrightarrow> get_all q = get q (length (content q))"
begin

lemma qrun_GetAll: "invar q \<Longrightarrow> qrun put get get_all q (GetAll # ops) = qrun put get get_all q (Get (length (content q)) # ops)"
  by (simp add: get_all_ok)

text \<open>Nothing is lost, duplicated or reordered: what came out, then what is left, is what went in.\<close>

lemma qrun_stream:
  assumes "invar q" "used q + length (puts ops) \<le> limit" "legal_gets (length (content q)) ops"
  shows "\<exists>ys q'. qrun put get get_all q ops = Inr (ys, q') \<and> invar q' \<and>
    ys @ content q' = content q @ puts ops \<and> used q' \<le> used q + length (puts ops)"
  using assms
proof (induction ops arbitrary: q)
  case Nil
  then show ?case by simp
next
  case (Cons op ops)
  have take_out: ?case if op: "qrun put get get_all q (op # ops) = qrun put get get_all q (Get n # ops)"
    "puts (op # ops) = puts ops" and n: "n \<le> length (content q)" "legal_gets (length (content q) - n) ops" for n
  proof -
    from get_ok [OF Cons.prems(1) n(1)] obtain q1 where q1: "get q n = Inr (take n (content q), q1)" "invar q1"
      "content q1 = drop n (content q)" "used q1 \<le> used q" by blast
    with Cons.prems op(2) have "used q1 + length (puts ops) \<le> limit" by simp
    from Cons.IH [OF q1(2) this] q1(3) n(2) obtain ys q2 where
      q2: "qrun put get get_all q1 ops = Inr (ys, q2)" "invar q2"
        "ys @ content q2 = drop n (content q) @ puts ops" "used q2 \<le> used q1 + length (puts ops)" by auto
    have "(take n (content q) @ ys) @ content q2 = content q @ puts ops"
      using q2(3) by (metis append_assoc append_take_drop_id)
    with q1 q2 show ?thesis unfolding op by (auto intro!: exI [of _ q2])
  qed
  show ?case
  proof (cases op)
    case (Put xs)
    have "used q + length xs \<le> limit" using Cons.prems Put by simp
    with put_ok [OF Cons.prems(1)] obtain q1 where q1: "put q xs = Inr q1" "invar q1"
      "content q1 = content q @ xs" "used q1 \<le> used q + length xs" by blast
    with Cons.prems Put have "used q1 + length (puts ops) \<le> limit" "legal_gets (length (content q1)) ops" by simp_all
    from Cons.IH [OF q1(2) this] q1 Put show ?thesis by fastforce
  next
    case (Get n)
    then show ?thesis using take_out [of n] Cons.prems(3) by simp
  next
    case GetAll
    then show ?thesis using take_out [OF qrun_GetAll [OF Cons.prems(1), folded GetAll]] Cons.prems(3) by simp
  qed
qed

end

interpretation bufq: byte_queue buf_ok content writerIndex ptrdiff_max Buffer_append retrieveAsString retrieveAllAsString
proof (unfold_locales, goal_cases)
  case (1 q xs)
  then show ?case by (blast elim: Buffer_append_ok)
next
  case (2 q n)
  then show ?case using retrieveAsString_ok [of q n] retrieve_ok retrieve_writerIndex length_content by metis
next
  case (3 q)
  then show ?case by (simp add: retrieveAllAsString_def length_content)
qed

text \<open>
  \<open>retrieveAsString\<close> does not check its argument. Asked for more than is readable it returns the readable
  bytes and what lies behind them in the vector, or reads beyond the end of the vector.
\<close>

lemma retrieveAsString_beyond:
  assumes ok: "buf_ok b" and n: "readableBytes b < n"
  shows "retrieveAsString b n =
    (if n \<le> length (buffer b) - readerIndex b
     then Inr (content b @ take (n - readableBytes b) (drop (writerIndex b) (buffer b)), retrieveAll b)
     else Inl OutOfBounds)"
proof -
  note D = buf_okD [OF ok]
  have r: "readableBytes b = writerIndex b - readerIndex b" "readerIndex b \<le> writerIndex b" "writerIndex b \<le> length (buffer b)"
    using D by (simp_all add: readableBytes_eq [OF ok])
  have "take n (drop (readerIndex b) (buffer b)) = content b @ take (n - readableBytes b) (drop (writerIndex b) (buffer b))"
    using take_add [of "writerIndex b - readerIndex b" "n - readableBytes b" "drop (readerIndex b) (buffer b)"] r n
    by (simp add: content_def segment_def)
  moreover have "retrieve b n = retrieveAll b" using n by (simp add: retrieve_def)
  ultimately show ?thesis using r n by (auto simp: retrieveAsString_def vec_read_def)
qed

section \<open>Properties\<close>

text \<open>The vector grows only when the bytes fit neither behind nor around the readable bytes.\<close>

lemma makeSpace_size:
  assumes ok: "buf_ok b" and fits: "writerIndex b + len \<le> ptrdiff_max" and len: "writableBytes b < len"
    and e: "makeSpace b len = Inr b'"
  shows "length (buffer b') = (if length (buffer b) < readableBytes b + len + CheapPrepend
      then writerIndex b + len else length (buffer b))"
proof -
  note D = buf_okD [OF ok]
  have w: "sz_add (writableBytes b) (prependableBytes b) = length (buffer b) - writerIndex b + readerIndex b"
    using D by (simp add: writableBytes_eq [OF ok] prependableBytes_def sz_simps)
  have l: "sz_add len CheapPrepend = len + CheapPrepend"
    using D ptrdiff_max_lt [OF fits] by (simp add: sz_simps)
  have c: "sz_add (writableBytes b) (prependableBytes b) < sz_add len CheapPrepend
      \<longleftrightarrow> length (buffer b) < readableBytes b + len + CheapPrepend"
    unfolding w l readableBytes_eq [OF ok] using D(2,3) by linarith
  show ?thesis
  proof (cases "length (buffer b) < readableBytes b + len + CheapPrepend")
    case True
    moreover have "sz_add (writerIndex b) len = writerIndex b + len"
      using ptrdiff_max_lt [OF fits] by (simp add: sz_simps)
    ultimately have "length (buffer b') = writerIndex b + len"
      using e c fits len D
      by (auto simp: makeSpace_def vec_resize_def writableBytes_eq [OF ok] split: if_splits)
    with True show ?thesis by simp
  next
    case False
    then show ?thesis
      using e c D
      by (auto simp: makeSpace_def vec_copy_within_def vec_write_def bind_r_Inr_iff Let_def split: if_splits)
  qed
qed

text \<open>C7: A \<open>Buffer\<close> is a byte stream: for every sequence of calls of \<open>append\<close>, \<open>retrieveAsString\<close> and
  \<open>retrieveAllAsString\<close> in which no \<open>retrieveAsString\<close> asks for more bytes than are readable (the code
  does not check it) and whose data fit the largest vector, all calls return, without touching memory outside the vector, and the bytes
  that came out, followed by the bytes still readable, are the bytes that were put in, in order.\<close>

theorem buffer_stream_integrity:
  assumes "Buffer_new n = Inr b" "CheapPrepend + n \<le> ptrdiff_max"
    "CheapPrepend + length (puts ops) \<le> ptrdiff_max" "legal_gets 0 ops"
  shows "\<exists>ys b'. qrun Buffer_append retrieveAsString retrieveAllAsString b ops = Inr (ys, b') \<and> buf_ok b' \<and>
    ys @ content b' = puts ops"
proof -
  from Buffer_new_ok [OF assms(2)] assms(1) have b: "buf_ok b" "content b = []" by auto
  have "writerIndex b = CheapPrepend"
    using assms(1) by (auto simp: Buffer_new_def bind_r_Inr_iff)
  with assms(3) have "writerIndex b + length (puts ops) \<le> ptrdiff_max" by simp
  from bufq.qrun_stream [OF b(1) this] b(2) assms(4) show ?thesis by auto
qed

theorem buffer_stream_integrity_witness:
  "\<exists>ys b'. qrun Buffer_append retrieveAsString retrieveAllAsString
      \<lparr>buffer = replicate 12 (CHR 0x00), readerIndex = 8, writerIndex = 8\<rparr>
      [Put ''GET /'', Get 3, Put ''index'', Get 7, Put ''a'', GetAll] = Inr (ys, b') \<and> buf_ok b' \<and>
    ys @ content b' = puts [Put ''GET /'', Get 3, Put ''index'', Get 7, Put ''a'', GetAll]"
  by (rule buffer_stream_integrity [where n = 4])
    (simp_all add: Buffer_new_def CheapPrepend_def ptrdiff_max_def sz_simps vec_resize_def)



text \<open>\<open>readFd\<close> appends exactly the bytes \<open>readv\<close> delivered to the readable bytes, whether they fit
  the vector, fill it, or spill into the stack block, and returns their number.\<close>

theorem readFd_delivers_exactly:
  assumes "buf_ok b" "length bytes \<le> readFd_room b" "length (buffer b) + extrabuf_size \<le> ptrdiff_max"
  shows "\<exists>b'. readFd b (SysOk bytes) = Inr (b', int (length bytes), None) \<and> buf_ok b' \<and>
    content b' = content b @ bytes"
  using readFd_ok [OF assms] by metis

theorem readFd_delivers_exactly_witness:
  "\<exists>b'. readFd \<lparr>buffer = replicate 12 (CHR 0x00), readerIndex = 8, writerIndex = 8\<rparr> (SysOk ''Hello, world'')
      = Inr (b', int (length ''Hello, world''), None) \<and> buf_ok b' \<and>
    content b' = content \<lparr>buffer = replicate 12 (CHR 0x00), readerIndex = 8, writerIndex = 8\<rparr> @ ''Hello, world''"
  by (rule readFd_delivers_exactly)
    (simp_all add: buf_ok_def CheapPrepend_def ptrdiff_max_def readFd_room_def writableBytes_def sz_simps
       extrabuf_size_def)

text \<open>\<open>append\<close> keeps the readable bytes and adds the new ones behind them, and it enlarges the vector
  only when the readable bytes, the new bytes and the prepend area do not fit into it together.\<close>

theorem append_grows_only_when_needed:
  assumes "buf_ok b" "writerIndex b + length data \<le> ptrdiff_max"
  shows "\<exists>b'. Buffer_append b data = Inr b' \<and> buf_ok b' \<and> content b' = content b @ data \<and>
    (length (buffer b') = length (buffer b) \<or>
     (length (buffer b) < CheapPrepend + length (content b) + length data \<and>
      length (buffer b') = writerIndex b + length data))"
proof -
  obtain b' where b': "Buffer_append b data = Inr b'" "buf_ok b'" "content b' = content b @ data"
    by (rule Buffer_append_ok [OF assms])
  from b'(1) obtain b1 v where b1: "ensureWritableBytes b (length data) = Inr b1"
    "vec_write (buffer b1) (writerIndex b1) data = Inr v"
    "b' = b1\<lparr>buffer := v, writerIndex := sz_add (writerIndex b1) (length data)\<rparr>"
    by (auto simp: Buffer_append_def bind_r_Inr_iff)
  then have l: "length (buffer b') = length (buffer b1)"
    by (auto simp: vec_write_def split: if_splits)
  have "length (buffer b1) = length (buffer b) \<or>
     (length (buffer b) < CheapPrepend + length (content b) + length data \<and>
      length (buffer b1) = writerIndex b + length data)"
  proof (cases "writableBytes b < length data")
    case True
    with b1(1) have "makeSpace b (length data) = Inr b1" by (simp add: ensureWritableBytes_def)
    from makeSpace_size [OF assms True this] length_content [OF assms(1)] show ?thesis
      by (auto split: if_splits)
  qed (use b1(1) in \<open>simp add: ensureWritableBytes_def\<close>)
  with b' l show ?thesis by (intro exI [of _ b']) simp
qed

theorem append_grows_only_when_needed_witness:
  "\<exists>b'. Buffer_append \<lparr>buffer = replicate 8 (CHR 0x00) @ ''abcdef'', readerIndex = 12, writerIndex = 14\<rparr> ''ghij''
      = Inr b' \<and> buf_ok b' \<and>
    content b' = content \<lparr>buffer = replicate 8 (CHR 0x00) @ ''abcdef'', readerIndex = 12, writerIndex = 14\<rparr> @ ''ghij'' \<and>
    (length (buffer b') = length (replicate 8 (CHR 0x00) @ ''abcdef'') \<or>
     (length (replicate 8 (CHR 0x00) @ ''abcdef'') < CheapPrepend +
        length (content \<lparr>buffer = replicate 8 (CHR 0x00) @ ''abcdef'', readerIndex = 12, writerIndex = 14\<rparr>) + length ''ghij'' \<and>
      length (buffer b') = 14 + length ''ghij''))"
  using append_grows_only_when_needed
    [of "\<lparr>buffer = replicate 8 (CHR 0x00) @ ''abcdef'', readerIndex = 12, writerIndex = 14\<rparr>" "''ghij''"]
  by (simp add: buf_ok_def CheapPrepend_def ptrdiff_max_def)

end
