(* ===== verification/Timestamp.thy ===== *)
theory Timestamp
  imports Prelude "HOL-Library.Product_Lexorder"
begin

text \<open>
  Points in time (\<open>include/Timestamp.h\<close>, \<open>src/Timestamp.cc\<close>): microseconds since the epoch in a
  64-bit signed integer, compared by \<open>operator<\<close>. Delays are given in seconds as a \<open>double\<close>;
  \<open>addTime\<close> multiplies by a million in floating point and truncates, and both steps are modelled:
  a finite \<open>double\<close> is \<open>mant * 2 ^ expo\<close>, a product is rounded to 53 bits (ties to even), the cast
  to \<open>int64_t\<close> truncates towards zero. Infinities, NaNs and results outside 64 bits (undefined
  behaviour of the cast and of the signed addition) are outside the model.
\<close>

section \<open>Timestamps\<close>

datatype Timestamp = Timestamp (microSecondsSinceEpoch: int)

text \<open>\<open>operator<\<close> and \<open>operator==\<close> compare the microseconds.\<close>

definition Timestamp_lt :: "Timestamp \<Rightarrow> Timestamp \<Rightarrow> bool" where
  "Timestamp_lt lhs rhs = (microSecondsSinceEpoch lhs < microSecondsSinceEpoch rhs)"

definition Timestamp_eq :: "Timestamp \<Rightarrow> Timestamp \<Rightarrow> bool" where
  "Timestamp_eq lhs rhs = (microSecondsSinceEpoch lhs = microSecondsSinceEpoch rhs)"

text \<open>\<open>operator<\<close> is the order of the type, \<open>operator==\<close> is equality.\<close>

lemma Timestamp_eq_iff: "Timestamp_eq l r \<longleftrightarrow> l = r"
  by (auto simp: Timestamp_eq_def Timestamp.expand)

instantiation Timestamp :: linorder
begin

definition less_Timestamp :: "Timestamp \<Rightarrow> Timestamp \<Rightarrow> bool" where
  "less_Timestamp = Timestamp_lt"

definition less_eq_Timestamp :: "Timestamp \<Rightarrow> Timestamp \<Rightarrow> bool" where
  "less_eq_Timestamp l r = (microSecondsSinceEpoch l \<le> microSecondsSinceEpoch r)"

instance
  by standard (auto simp: less_Timestamp_def less_eq_Timestamp_def Timestamp_lt_def Timestamp.expand)

end

definition kMicroSecondsPerSecond :: int where
  "kMicroSecondsPerSecond = 1000 * 1000"

text \<open>\<open>Timestamp::invalid()\<close> and the default constructor.\<close>

definition Timestamp_invalid :: Timestamp where
  "Timestamp_invalid = Timestamp 0"

text \<open>\<open>Timestamp::now()\<close> from the seconds and microseconds of \<open>gettimeofday\<close>.\<close>

definition Timestamp_now :: "int \<Rightarrow> int \<Rightarrow> Timestamp" where
  "Timestamp_now tv_sec tv_usec = Timestamp (tv_sec * kMicroSecondsPerSecond + tv_usec)"

definition secondsSinceEpoch :: "Timestamp \<Rightarrow> int" where
  "secondsSinceEpoch t = tdiv (microSecondsSinceEpoch t) kMicroSecondsPerSecond"

section \<open>Delays in floating point\<close>

record double =
  mant :: int
  expo :: int

fun bitlen :: "nat \<Rightarrow> nat" where
  "bitlen n = (if n = 0 then 0 else Suc (bitlen (n div 2)))"

declare bitlen.simps [simp del]

text \<open>\<open>m / 2 ^ k\<close> rounded to the nearest integer, ties to even.\<close>

definition round_half_even :: "nat \<Rightarrow> nat \<Rightarrow> nat" where
  "round_half_even m k =
     (let q = m div 2 ^ k; r = m mod 2 ^ k
      in if 2 ^ k < 2 * r \<or> (2 ^ k = 2 * r \<and> odd q) then q + 1 else q)"

text \<open>The product of a \<open>double\<close> with an integer (itself an exact \<open>double\<close>), rounded to 53 bits.\<close>

definition double_times :: "double \<Rightarrow> int \<Rightarrow> double" where
  "double_times d c =
     (let p = mant d * c; k = bitlen (nat \<bar>p\<bar>) - 53
      in if k = 0 then \<lparr>mant = p, expo = expo d\<rparr>
         else \<lparr>mant = sgn p * int (round_half_even (nat \<bar>p\<bar>) k), expo = expo d + int k\<rparr>)"

definition double_trunc :: "double \<Rightarrow> int" where
  "double_trunc d =
     (if 0 \<le> expo d then mant d * 2 ^ nat (expo d)
      else sgn (mant d) * (\<bar>mant d\<bar> div 2 ^ nat (- expo d)))"

definition double_pos :: "double \<Rightarrow> bool" where
  "double_pos d \<longleftrightarrow> 0 < mant d"

definition addTime :: "Timestamp \<Rightarrow> double \<Rightarrow> Timestamp" where
  "addTime t seconds =
     (let delta = double_trunc (double_times seconds kMicroSecondsPerSecond)
      in Timestamp (microSecondsSinceEpoch t + delta))"

text \<open>A whole number of seconds, as a \<open>double\<close>.\<close>

definition whole_seconds :: "int \<Rightarrow> double" where
  "whole_seconds n = \<lparr>mant = n, expo = 0\<rparr>"

lemma bitlen_le: "n < 2 ^ k \<Longrightarrow> bitlen n \<le> k"
proof (induction n arbitrary: k rule: bitlen.induct)
  case (1 n)
  show ?case
  proof (cases "n = 0")
    case True
    then show ?thesis by (simp add: bitlen.simps)
  next
    case False
    with "1.prems" obtain j where k: "k = Suc j" by (cases k) auto
    with "1.prems" have "n div 2 < 2 ^ j" by auto
    with "1.IH" False have "bitlen (n div 2) \<le> j" by blast
    with False k show ?thesis by (simp add: bitlen.simps [of n])
  qed
qed

lemma addTime_whole:
  assumes "\<bar>n\<bar> < 2 ^ 33"
  shows "addTime t (whole_seconds n) = Timestamp (microSecondsSinceEpoch t + n * 1000000)"
proof -
  let ?p = "n * (1000 * 1000)"
  have "nat \<bar>?p\<bar> < 2 ^ 53" using assms by simp
  then have "bitlen (nat \<bar>?p\<bar>) - 53 = 0" by (simp add: bitlen_le)
  then have "double_times (whole_seconds n) kMicroSecondsPerSecond = \<lparr>mant = ?p, expo = 0\<rparr>"
    unfolding double_times_def whole_seconds_def kMicroSecondsPerSecond_def Let_def by simp
  then show ?thesis by (simp add: addTime_def double_trunc_def)
qed

lemma double_times_pos:
  assumes "0 < mant d" "0 < c"
  shows "0 < mant (double_times d c)"
proof -
  let ?m = "nat (mant d * c)"
  let ?k = "bitlen ?m - 53"
  have bl: "2 ^ (bitlen n - 1) \<le> n" if "0 < n" for n :: nat
    using that
  proof (induction n rule: bitlen.induct)
    case (1 n)
    show ?case
    proof (cases "n div 2 = 0")
      case True
      with "1.prems" show ?thesis by (simp add: bitlen.simps [of n] bitlen.simps [of 0])
    next
      case False
      with "1" have "2 ^ (bitlen (n div 2) - 1) \<le> n div 2" by auto
      moreover from False have "0 < bitlen (n div 2)" by (simp add: bitlen.simps [of "n div 2"])
      ultimately have "2 ^ bitlen (n div 2) \<le> 2 * (n div 2)"
        by (metis Suc_diff_1 mult_le_mono2 power_Suc)
      with "1.prems" show ?thesis by (simp add: bitlen.simps [of n])
    qed
  qed
  have m: "0 < ?m" using assms by (simp add: mult_pos_pos)
  then have "2 ^ (bitlen ?m - 1) \<le> ?m" by (rule bl)
  then have "2 ^ ?k \<le> ?m" by (meson diff_le_mono2 one_le_numeral order_trans power_increasing one_le_numeral)
  then have "1 \<le> ?m div 2 ^ ?k" by (simp add: div_greater_zero_iff Suc_leI)
  then have "0 < round_half_even ?m ?k" by (simp add: round_half_even_def Let_def)
  with assms show ?thesis by (simp add: double_times_def Let_def mult_pos_pos abs_mult)
qed

text \<open>A positive delay never moves a timestamp backwards.\<close>

lemma addTime_mono: "double_pos d \<Longrightarrow> t \<le> addTime t d"
proof -
  assume "double_pos d"
  then have "0 < mant (double_times d kMicroSecondsPerSecond)"
    by (intro double_times_pos) (simp_all add: double_pos_def kMicroSecondsPerSecond_def)
  then have "0 \<le> double_trunc (double_times d kMicroSecondsPerSecond)"
    by (simp add: double_trunc_def pos_imp_zdiv_nonneg_iff)
  then show ?thesis by (simp add: addTime_def Let_def less_eq_Timestamp_def)
qed

end
