(* ===== verification/TimerQueue.thy ===== *)
theory TimerQueue
  imports Timestamp
begin

text \<open>
  Timers (\<open>include/Timer.h\<close>, \<open>src/Timer.cc\<close>) and the timer queue of an event loop
  (\<open>include/TimerQueue.h\<close>, \<open>src/TimerQueue.cc\<close>).

  A \<open>Timer*\<close> is an address; the timers themselves live in a heap, so that \<open>new\<close>, \<open>delete\<close> and the
  pointers kept in the \<open>std::set<pair<Timestamp, Timer*>>\<close> are explicit. The set is its ascending
  list of elements. Every \<open>Timestamp::now()\<close> reads the next value of a clock, which is a parameter;
  so is \<open>operator new\<close>. The calls of \<open>timerfd_settime\<close> are recorded in the order they are made. A
  timer callback can act on the queue only through \<open>addTimer\<close>: its effect is the list of timers it
  adds.
\<close>

section \<open>Timers\<close>

type_synonym ptr = nat

definition UINTPTR_MAX :: nat where "UINTPTR_MAX = 2 ^ 64 - 1"

record 'f Timer =
  callback :: 'f
  expiration :: Timestamp
  interval :: double
  repeat :: bool

definition Timer_new :: "'f \<Rightarrow> Timestamp \<Rightarrow> double \<Rightarrow> 'f Timer" where
  "Timer_new cb due ivl =
     \<lparr>callback = cb, expiration = due, interval = ivl, repeat = double_pos ivl\<rparr>"

definition Timer_restart :: "'f Timer \<Rightarrow> Timestamp \<Rightarrow> 'f Timer" where
  "Timer_restart tm now =
     (if repeat tm then tm\<lparr>expiration := addTime now (interval tm)\<rparr>
      else tm\<lparr>expiration := Timestamp_invalid\<rparr>)"

section \<open>The queue\<close>

type_synonym entry = "Timestamp \<times> ptr"

record timespec =
  tv_sec :: int
  tv_nsec :: int

record 'f TimerQueue =
  timers :: "entry list"
  heap :: "ptr \<Rightarrow> 'f Timer option"
  ticks :: nat
  settimes :: "timespec list"
  callingExpiredTimers :: bool
  fired :: "'f list"

text \<open>The \<open>k\<close>-th reading of the clock.\<close>

definition read_now :: "(nat \<Rightarrow> Timestamp) \<Rightarrow> 'f TimerQueue \<Rightarrow> Timestamp \<times> 'f TimerQueue" where
  "read_now clk q = (clk (ticks q), q\<lparr>ticks := Suc (ticks q)\<rparr>)"

text \<open>\<open>std::set::insert\<close> on the ascending list of elements.\<close>

fun set_insert :: "'a::linorder \<Rightarrow> 'a list \<Rightarrow> 'a list" where
  "set_insert x [] = [x]"
| "set_insert x (y # ys) =
     (if x < y then x # y # ys else if x = y then y # ys else y # set_insert x ys)"

text \<open>The relative time handed to \<open>timerfd_settime\<close>: at least 100 microseconds.\<close>

definition timerfd_value :: "Timestamp \<Rightarrow> Timestamp \<Rightarrow> timespec" where
  "timerfd_value expi now =
     (let d0 = microSecondsSinceEpoch expi - microSecondsSinceEpoch now;
          d = (if d0 < 100 then 100 else d0)
      in \<lparr>tv_sec = tdiv d kMicroSecondsPerSecond,
          tv_nsec = tmod d kMicroSecondsPerSecond * 1000\<rparr>)"

definition resetTimerfd :: "(nat \<Rightarrow> Timestamp) \<Rightarrow> 'f TimerQueue \<Rightarrow> Timestamp \<Rightarrow> 'f TimerQueue" where
  "resetTimerfd clk q expi =
     (let (now, q1) = read_now clk q
      in q1\<lparr>settimes := settimes q1 @ [timerfd_value expi now]\<rparr>)"

text \<open>The end of a round of \<open>reset\<close>: set the timerfd for the first timer in the set.\<close>

definition rearm :: "(nat \<Rightarrow> Timestamp) \<Rightarrow> 'f TimerQueue \<Rightarrow> 'f TimerQueue result" where
  "rearm clk q =
     (case timers q of
        [] \<Rightarrow> Inr q
      | (_, p) # _ \<Rightarrow>
          (case heap q p of
             None \<Rightarrow> Inl NullDeref
           | Some tm \<Rightarrow> Inr (resetTimerfd clk q (expiration tm))))"

text \<open>\<open>insert\<close>: whether the timer became the earliest; a dangling pointer is an error.\<close>

definition TimerQueue_insert :: "'f TimerQueue \<Rightarrow> ptr \<Rightarrow> (bool \<times> 'f TimerQueue) result" where
  "TimerQueue_insert q p =
     (case heap q p of
        None \<Rightarrow> Inl NullDeref
      | Some tm \<Rightarrow>
          (let due = expiration tm;
               earliestChanged = (case timers q of [] \<Rightarrow> True | (t, _) # _ \<Rightarrow> due < t)
           in Inr (earliestChanged, q\<lparr>timers := set_insert (due, p) (timers q)\<rparr>)))"

definition addTimerInLoop :: "(nat \<Rightarrow> Timestamp) \<Rightarrow> 'f TimerQueue \<Rightarrow> ptr \<Rightarrow> 'f TimerQueue result" where
  "addTimerInLoop clk q p =
     bind_r (TimerQueue_insert q p) (\<lambda>(changed, q1).
       if changed
       then (case heap q1 p of
               None \<Rightarrow> Inl NullDeref
             | Some tm \<Rightarrow> Inr (resetTimerfd clk q1 (expiration tm)))
       else Inr q1)"

text \<open>
  \<open>addTimer\<close> allocates the timer and runs \<open>addTimerInLoop\<close> in the loop: at once when called in the
  loop's thread, otherwise later as the queued functor, which is returned as the pointer it holds.
\<close>

definition addTimer :: "((ptr \<Rightarrow> 'f Timer option) \<Rightarrow> ptr option) \<Rightarrow> (nat \<Rightarrow> Timestamp) \<Rightarrow> bool \<Rightarrow>
    'f TimerQueue \<Rightarrow> 'f \<Rightarrow> Timestamp \<Rightarrow> double \<Rightarrow> ('f TimerQueue \<times> ptr option) result" where
  "addTimer new clk inLoop q cb due ivl =
     (case new (heap q) of
        None \<Rightarrow> Inl BadAlloc
      | Some p \<Rightarrow>
          (let q1 = q\<lparr>heap := (heap q)(p \<mapsto> Timer_new cb due ivl)\<rparr>
           in if inLoop
              then bind_r (addTimerInLoop clk q1 p) (\<lambda>q2. Inr (q2, None))
              else Inr (q1, Some p)))"

text \<open>
  The sentry \<open>(now, UINTPTR_MAX)\<close> and \<open>lower_bound\<close>: every element below it is expired.
\<close>

definition getExpired :: "'f TimerQueue \<Rightarrow> Timestamp \<Rightarrow> entry list \<times> 'f TimerQueue" where
  "getExpired q now =
     (let sentry = (now, UINTPTR_MAX);
          expired = takeWhile (\<lambda>e. e < sentry) (timers q);
          rest = dropWhile (\<lambda>e. e < sentry) (timers q)
      in (expired, q\<lparr>timers := rest\<rparr>))"

fun add_timers :: "((ptr \<Rightarrow> 'f Timer option) \<Rightarrow> ptr option) \<Rightarrow> (nat \<Rightarrow> Timestamp) \<Rightarrow>
    'f TimerQueue \<Rightarrow> ('f \<times> Timestamp \<times> double) list \<Rightarrow> 'f TimerQueue result" where
  "add_timers new clk q [] = Inr q"
| "add_timers new clk q ((cb, due, ivl) # as) =
     bind_r (addTimer new clk True q cb due ivl) (\<lambda>(q1, _). add_timers new clk q1 as)"

text \<open>\<open>it.second->run()\<close> for every expired entry, in order.\<close>

fun run_expired :: "((ptr \<Rightarrow> 'f Timer option) \<Rightarrow> ptr option) \<Rightarrow> (nat \<Rightarrow> Timestamp) \<Rightarrow>
    ('f \<Rightarrow> ('f \<times> Timestamp \<times> double) list) \<Rightarrow> 'f TimerQueue \<Rightarrow> entry list \<Rightarrow> 'f TimerQueue result" where
  "run_expired new clk adds q [] = Inr q"
| "run_expired new clk adds q ((_, p) # es) =
     (case heap q p of
        None \<Rightarrow> Inl NullDeref
      | Some tm \<Rightarrow>
          bind_r (add_timers new clk (q\<lparr>fired := fired q @ [callback tm]\<rparr>) (adds (callback tm)))
            (\<lambda>q1. run_expired new clk adds q1 es))"

text \<open>
  One round of the loop of \<open>reset\<close>: a repeating timer is restarted and inserted again, a one-shot
  timer is deleted; then the timerfd is set for the first timer in the set, if there is one.
\<close>

definition reset_one :: "(nat \<Rightarrow> Timestamp) \<Rightarrow> 'f TimerQueue \<Rightarrow> entry \<Rightarrow> 'f TimerQueue result" where
  "reset_one clk q e =
     (let p = snd e in
      case heap q p of
        None \<Rightarrow> Inl NullDeref
      | Some tm \<Rightarrow>
          bind_r
            (if repeat tm
             then (let (now, q1) = read_now clk q;
                       q2 = q1\<lparr>heap := (heap q1)(p \<mapsto> Timer_restart tm now)\<rparr>
                   in bind_r (TimerQueue_insert q2 p) (\<lambda>(_, q3). Inr q3))
             else Inr (q\<lparr>heap := (heap q)(p := None)\<rparr>))
            (rearm clk))"

fun TimerQueue_reset :: "(nat \<Rightarrow> Timestamp) \<Rightarrow> 'f TimerQueue \<Rightarrow> entry list \<Rightarrow> 'f TimerQueue result" where
  "TimerQueue_reset clk q [] = Inr q"
| "TimerQueue_reset clk q (e # es) =
     bind_r (reset_one clk q e) (\<lambda>q1. TimerQueue_reset clk q1 es)"

definition TimerQueue_handleRead :: "((ptr \<Rightarrow> 'f Timer option) \<Rightarrow> ptr option) \<Rightarrow> (nat \<Rightarrow> Timestamp) \<Rightarrow>
    ('f \<Rightarrow> ('f \<times> Timestamp \<times> double) list) \<Rightarrow> 'f TimerQueue \<Rightarrow> 'f TimerQueue result" where
  "TimerQueue_handleRead new clk adds q =
     (let (now, q0) = read_now clk q;
          (expired, q1) = getExpired q0 now
      in bind_r (run_expired new clk adds (q1\<lparr>callingExpiredTimers := True\<rparr>) expired) (\<lambda>q2.
           TimerQueue_reset clk (q2\<lparr>callingExpiredTimers := False\<rparr>) expired))"

section \<open>The ordered set\<close>

lemma set_set_insert [simp]: "set (set_insert x xs) = insert x (set xs)"
  by (induction xs) auto

lemma sorted_set_insert: "sorted_wrt (<) xs \<Longrightarrow> sorted_wrt (<) (set_insert x xs)"
  by (induction xs) (auto simp: not_less less_le dest: order_trans)

lemma set_insert_neq_Nil [simp]: "set_insert x xs \<noteq> []"
  by (cases xs) auto

lemma takeWhile_below:
  fixes xs :: "'a::linorder list"
  assumes "sorted_wrt (<) xs"
  shows "takeWhile (\<lambda>e. e < s) xs = filter (\<lambda>e. e < s) xs"
    and "dropWhile (\<lambda>e. e < s) xs = filter (\<lambda>e. \<not> e < s) xs"
proof -
  have *: "takeWhile P ys = filter P ys \<and> dropWhile P ys = filter (\<lambda>x. \<not> P x) ys"
    if "sorted_wrt (\<lambda>x y. P y \<longrightarrow> P x) ys" for P and ys :: "'a list"
    using that by (induction ys) (auto simp: filter_empty_conv filter_id_conv)
  have "sorted_wrt (\<lambda>x y. y < s \<longrightarrow> x < s) xs"
    using assms by (rule sorted_wrt_mono_rel [rotated]) (auto dest: less_trans)
  from * [OF this] show "takeWhile (\<lambda>e. e < s) xs = filter (\<lambda>e. e < s) xs"
    and "dropWhile (\<lambda>e. e < s) xs = filter (\<lambda>e. \<not> e < s) xs" by simp_all
qed

text \<open>Below the sentry means expired at \<open>now\<close>, because no timer has the address \<open>UINTPTR_MAX\<close>.\<close>

lemma below_sentry:
  "p < UINTPTR_MAX \<Longrightarrow> (t, p) < (now, UINTPTR_MAX) \<longleftrightarrow> t \<le> (now :: Timestamp)"
  by (auto simp: less_prod_def' less_le)

section \<open>Invariant\<close>

text \<open>
  The set is ascending and every entry points to a live timer that expires at the entry's key; no
  timer has two entries. \<open>held\<close> are the timers taken out by \<open>getExpired\<close> and not yet reset: they are
  live and not in the set.
\<close>

definition tq_ok :: "ptr set \<Rightarrow> 'f TimerQueue \<Rightarrow> bool" where
  "tq_ok held q \<longleftrightarrow>
     sorted_wrt (<) (timers q) \<and> distinct (map snd (timers q)) \<and>
     (\<forall>(t, p) \<in> set (timers q). p < UINTPTR_MAX \<and> p \<notin> held \<and>
        (\<exists>tm. heap q p = Some tm \<and> expiration tm = t)) \<and>
     (\<forall>p \<in> held. p < UINTPTR_MAX \<and> heap q p \<noteq> None)"

text \<open>
  \<open>operator new\<close> throws (\<open>None\<close>) or returns an address that is not in use, not null and not the
  highest one.
\<close>

definition fresh_new :: "((ptr \<Rightarrow> 'f Timer option) \<Rightarrow> ptr option) \<Rightarrow> bool" where
  "fresh_new new \<longleftrightarrow> (\<forall>h p. new h = Some p \<longrightarrow> h p = None \<and> 0 < p \<and> p < UINTPTR_MAX)"

lemma tq_okD:
  assumes "tq_ok held q"
  shows "sorted_wrt (<) (timers q)" "distinct (map snd (timers q))"
    "(t, p) \<in> set (timers q) \<Longrightarrow> p < UINTPTR_MAX \<and> p \<notin> held \<and>
       (\<exists>tm. heap q p = Some tm \<and> expiration tm = t)"
    "p \<in> held \<Longrightarrow> p < UINTPTR_MAX \<and> heap q p \<noteq> None"
  using assms by (auto simp: tq_ok_def)

lemma tq_ok_frame:
  "tq_ok held q \<Longrightarrow> timers q' = timers q \<Longrightarrow> heap q' = heap q \<Longrightarrow> tq_ok held q'"
  by (simp add: tq_ok_def)

lemma timers_hd_live:
  "tq_ok held q \<Longrightarrow> timers q = (t, p) # es \<Longrightarrow> \<exists>tm. heap q p = Some tm \<and> expiration tm = t"
  by (drule tq_okD(3) [of _ _ t p]) auto

lemma distinct_set_insert:
  "distinct (map snd xs) \<Longrightarrow> snd x \<notin> snd ` set xs \<Longrightarrow> distinct (map snd (set_insert x xs))"
  by (induction xs) auto

lemma resetTimerfd_simps [simp]:
  "timers (resetTimerfd clk q e) = timers q"
  "heap (resetTimerfd clk q e) = heap q"
  "fired (resetTimerfd clk q e) = fired q"
  "settimes (resetTimerfd clk q e) = settimes q @ [timerfd_value e (clk (ticks q))]"
  "ticks (resetTimerfd clk q e) = Suc (ticks q)"
  by (simp_all add: resetTimerfd_def read_now_def)

text \<open>Inserting a live timer that has no entry: it becomes the earliest exactly when it is.\<close>

lemma TimerQueue_insert_ok:
  assumes ok: "tq_ok held q" and tm: "heap q p = Some tm"
    and new: "p \<notin> held" "p \<notin> snd ` set (timers q)" "p < UINTPTR_MAX"
  shows "TimerQueue_insert q p =
      Inr (\<forall>(t, _) \<in> set (timers q). expiration tm < t,
           q\<lparr>timers := set_insert (expiration tm, p) (timers q)\<rparr>)"
    and "tq_ok held (q\<lparr>timers := set_insert (expiration tm, p) (timers q)\<rparr>)"
proof -
  have "(case timers q of [] \<Rightarrow> True | (t, _) # _ \<Rightarrow> expiration tm < t) =
      (\<forall>(t, _) \<in> set (timers q). expiration tm < t)"
  proof (cases "timers q")
    case (Cons e es)
    moreover obtain t0 p0 where "e = (t0, p0)" by (cases e)
    moreover from Cons tq_okD(1) [OF ok] have "\<forall>e' \<in> set es. e < e'" by simp
    ultimately show ?thesis by (auto simp: less_prod_def' dest: less_trans)
  qed simp
  then show "TimerQueue_insert q p =
      Inr (\<forall>(t, _) \<in> set (timers q). expiration tm < t,
           q\<lparr>timers := set_insert (expiration tm, p) (timers q)\<rparr>)"
    by (simp add: TimerQueue_insert_def tm Let_def)
  show "tq_ok held (q\<lparr>timers := set_insert (expiration tm, p) (timers q)\<rparr>)"
    using ok new tm by (auto simp: tq_ok_def sorted_set_insert distinct_set_insert)
qed

lemma addTimerInLoop_ok:
  assumes ok: "tq_ok held q" and tm: "heap q p = Some tm"
    and new: "p \<notin> held" "p \<notin> snd ` set (timers q)" "p < UINTPTR_MAX"
  obtains q' where "addTimerInLoop clk q p = Inr q'" "tq_ok held q'" "heap q' = heap q"
    "timers q' = set_insert (expiration tm, p) (timers q)" "fired q' = fired q"
proof -
  let ?q1 = "q\<lparr>timers := set_insert (expiration tm, p) (timers q)\<rparr>"
  note ins = TimerQueue_insert_ok [OF assms]
  show thesis
  proof (cases "\<forall>(t, _) \<in> set (timers q). expiration tm < t")
    case True
    show thesis
      by (rule that [of "resetTimerfd clk ?q1 (expiration tm)"])
        (use True tm ins in \<open>auto simp: addTimerInLoop_def intro: tq_ok_frame\<close>)
  next
    case False
    show thesis
      by (rule that [of ?q1]) (use False ins in \<open>auto simp: addTimerInLoop_def\<close>)
  qed
qed

text \<open>A callback that adds timers keeps the invariant and leaves the held timers alone.\<close>

lemma add_timers_ok:
  assumes "fresh_new new" "tq_ok held q"
  shows "add_timers new clk q as = Inl BadAlloc \<or>
    (\<exists>q'. add_timers new clk q as = Inr q' \<and> tq_ok held q' \<and> fired q' = fired q \<and>
       set (timers q) \<subseteq> set (timers q') \<and> heap q \<subseteq>\<^sub>m heap q')"
  using assms(2)
proof (induction as arbitrary: q)
  case Nil
  then show ?case by auto
next
  case (Cons a as)
  obtain cb due ivl where a: "a = (cb, due, ivl)" by (cases a)
  show ?case
  proof (cases "new (heap q)")
    case None
    then show ?thesis by (simp add: a addTimer_def)
  next
    case (Some p)
    let ?q1 = "q\<lparr>heap := (heap q)(p \<mapsto> Timer_new cb due ivl)\<rparr>"
    from Some assms(1) have p: "heap q p = None" "p < UINTPTR_MAX" by (auto simp: fresh_new_def)
    with Cons.prems have n: "p \<notin> held" "p \<notin> snd ` set (timers q)" by (auto simp: tq_ok_def)
    from Cons.prems p have ok1: "tq_ok held ?q1" by (fastforce simp: tq_ok_def)
    have tm1: "heap ?q1 p = Some (Timer_new cb due ivl)" and n1: "p \<notin> snd ` set (timers ?q1)"
      using n by simp_all
    obtain q2 where q2: "addTimerInLoop clk ?q1 p = Inr q2" "tq_ok held q2" "heap q2 = heap ?q1"
        "set (timers q) \<subseteq> set (timers q2)" "fired q2 = fired q"
      by (rule addTimerInLoop_ok [OF ok1 tm1 n(1) n1 p(2), of clk]) auto
    have ext: "heap q \<subseteq>\<^sub>m heap q2" using q2(3) p by (auto simp: map_le_def)
    have e: "add_timers new clk q (a # as) = add_timers new clk q2 as"
      using q2(1) Some by (simp add: a addTimer_def Let_def)
    from Cons.IH [OF q2(2)] show ?thesis
      unfolding e using q2(4,5) ext by (metis map_le_trans subset_trans)
  qed
qed

lemma run_expired_ok:
  assumes "fresh_new new" "tq_ok held q" "snd ` set es \<subseteq> held"
  shows "run_expired new clk adds q es = Inl BadAlloc \<or>
    (\<exists>q'. run_expired new clk adds q es = Inr q' \<and> tq_ok held q' \<and>
       fired q' = fired q @ map (\<lambda>e. callback (the (heap q (snd e)))) es \<and>
       set (timers q) \<subseteq> set (timers q') \<and> heap q \<subseteq>\<^sub>m heap q')"
  using assms(2,3)
proof (induction es arbitrary: q)
  case Nil
  then show ?case by auto
next
  case (Cons e es)
  obtain t p where e: "e = (t, p)" by (cases e)
  with Cons.prems tq_okD(4) [OF Cons.prems(1)] obtain tm where tm: "heap q p = Some tm" by fastforce
  let ?q1 = "q\<lparr>fired := fired q @ [callback tm]\<rparr>"
  have "tq_ok held ?q1" using Cons.prems(1) by (rule tq_ok_frame) simp_all
  from add_timers_ok [OF assms(1) this, of clk "adds (callback tm)"] show ?case
  proof (elim disjE exE conjE)
    assume "add_timers new clk ?q1 (adds (callback tm)) = Inl BadAlloc"
    then show ?thesis by (simp add: e tm)
  next
    fix q2
    assume q2: "add_timers new clk ?q1 (adds (callback tm)) = Inr q2" "tq_ok held q2"
      "fired q2 = fired ?q1" "set (timers ?q1) \<subseteq> set (timers q2)"
      "heap ?q1 \<subseteq>\<^sub>m heap q2"
    have m: "map (\<lambda>e. callback (the (heap q2 (snd e)))) es = map (\<lambda>e. callback (the (heap q (snd e)))) es"
    proof (intro map_cong refl arg_cong [where f = callback] arg_cong [where f = the])
      fix x assume "x \<in> set es"
      with Cons.prems tq_okD(4) [OF Cons.prems(1), of "snd x"] have "snd x \<in> dom (heap q)" by auto
      with q2(5) show "heap q2 (snd x) = heap q (snd x)" by (simp add: map_le_def)
    qed
    have s: "run_expired new clk adds q (e # es) = run_expired new clk adds q2 es"
      using q2(1) by (simp add: e tm)
    have "snd ` set es \<subseteq> held" using Cons.prems by simp
    from Cons.IH [OF q2(2) this] show ?thesis
      unfolding s m using q2(3-5)
      by (auto simp: e tm intro: map_le_trans subset_trans)
  qed
qed

text \<open>
  One round of \<open>reset\<close>: the timer leaves the held ones, either freed or back in the set, and if the
  set is not empty the timerfd is armed for its first timer.
\<close>

definition armed_for_first :: "(nat \<Rightarrow> Timestamp) \<Rightarrow> 'f TimerQueue \<Rightarrow> bool" where
  "armed_for_first clk q \<longleftrightarrow>
     (case timers q of
        [] \<Rightarrow> True
      | (t, _) # _ \<Rightarrow>
          settimes q \<noteq> [] \<and> (\<exists>k < ticks q. last (settimes q) = timerfd_value t (clk k)))"

lemma rearm_ok:
  assumes "tq_ok held q"
  obtains q' where "rearm clk q = Inr q'"
    "tq_ok held q'" "timers q' = timers q" "heap q' = heap q" "armed_for_first clk q'"
proof (cases "timers q")
  case Nil
  show thesis by (rule that [of q]) (use Nil assms in \<open>auto simp: rearm_def armed_for_first_def\<close>)
next
  case (Cons e es)
  obtain t p where e: "e = (t, p)" by (cases e)
  with Cons timers_hd_live [OF assms] obtain tm where tm: "heap q p = Some tm" "expiration tm = t" by blast
  show thesis
    by (rule that [of "resetTimerfd clk q t"])
      (use assms Cons e tm in \<open>auto simp: rearm_def armed_for_first_def intro: tq_ok_frame\<close>)
qed

lemma reset_one_ok:
  assumes ok: "tq_ok (insert p held) q" and p: "p \<notin> held"
  obtains q' tm where "reset_one clk q (t, p) = Inr q'" "tq_ok held q'" "armed_for_first clk q'"
    "heap q p = Some tm"
    "if repeat tm
     then heap q' = (heap q)(p \<mapsto> tm\<lparr>expiration := addTime (clk (ticks q)) (interval tm)\<rparr>) \<and>
          set (timers q') = insert (addTime (clk (ticks q)) (interval tm), p) (set (timers q))
     else heap q' = (heap q)(p := None) \<and> timers q' = timers q"
proof -
  from ok obtain tm where tm: "heap q p = Some tm" by (auto simp: tq_ok_def)
  show thesis
  proof (cases "repeat tm")
    case True
    let ?when = "addTime (clk (ticks q)) (interval tm)"
    let ?q2 = "q\<lparr>ticks := Suc (ticks q), heap := (heap q)(p \<mapsto> Timer_restart tm (clk (ticks q)))\<rparr>"
    have r: "Timer_restart tm (clk (ticks q)) = tm\<lparr>expiration := ?when\<rparr>"
      using True by (simp add: Timer_restart_def)
    have ok2: "tq_ok held ?q2" using ok p by (fastforce simp: tq_ok_def)
    have n: "p \<notin> snd ` set (timers ?q2)" "p < UINTPTR_MAX" using ok by (auto simp: tq_ok_def)
    from n have ins': "TimerQueue_insert ?q2 p = Inr (\<forall>(t, _) \<in> set (timers q). ?when < t,
        ?q2\<lparr>timers := set_insert (?when, p) (timers q)\<rparr>)"
      "tq_ok held (?q2\<lparr>timers := set_insert (?when, p) (timers q)\<rparr>)"
      using TimerQueue_insert_ok [OF ok2, of p "tm\<lparr>expiration := ?when\<rparr>"] r p by simp_all
    from rearm_ok [OF ins'(2), of clk] obtain q' where
      "rearm clk (?q2\<lparr>timers := set_insert (?when, p) (timers q)\<rparr>) = Inr q'"
      "tq_ok held q'" "timers q' = set_insert (?when, p) (timers q)" "heap q' = heap ?q2"
      "armed_for_first clk q'" by auto
    then show thesis
      by (intro that [of q' tm])
        (use True tm ins'(1) r in \<open>auto simp: reset_one_def read_now_def Let_def\<close>)
  next
    case False
    let ?q2 = "q\<lparr>heap := (heap q)(p := None)\<rparr>"
    have "tq_ok held ?q2" using ok p by (fastforce simp: tq_ok_def)
    from rearm_ok [OF this, of clk] obtain q' where
      "rearm clk ?q2 = Inr q'"
      "tq_ok held q'" "timers q' = timers q" "heap q' = heap ?q2" "armed_for_first clk q'" by auto
    then show thesis
      by (intro that [of q' tm]) (use False tm in \<open>auto simp: reset_one_def Let_def\<close>)
  qed
qed

lemma TimerQueue_reset_ok:
  assumes "tq_ok (snd ` set es \<union> held) q" "distinct (map snd es)" "snd ` set es \<inter> held = {}"
  shows "\<exists>q'. TimerQueue_reset clk q es = Inr q' \<and> tq_ok held q' \<and>
    (es \<noteq> [] \<longrightarrow> armed_for_first clk q') \<and> set (timers q) \<subseteq> set (timers q') \<and>
    (\<forall>p \<in> snd ` set es. \<forall>tm. heap q p = Some tm \<longrightarrow>
       (if repeat tm
        then \<exists>k. heap q' p = Some (tm\<lparr>expiration := addTime (clk k) (interval tm)\<rparr>) \<and>
               (addTime (clk k) (interval tm), p) \<in> set (timers q')
        else heap q' p = None)) \<and>
    (\<forall>p. p \<notin> snd ` set es \<longrightarrow> heap q' p = heap q p)"
  using assms
proof (induction es arbitrary: q)
  case Nil
  then show ?case by auto
next
  case (Cons e es)
  obtain t p where e: "e = (t, p)" by (cases e)
  have "tq_ok (insert p (snd ` set es \<union> held)) q" "p \<notin> snd ` set es \<union> held"
    using Cons.prems by (auto simp: e)
  then obtain q1 tm where q1: "reset_one clk q (t, p) = Inr q1" "tq_ok (snd ` set es \<union> held) q1"
    "armed_for_first clk q1" "heap q p = Some tm"
    "if repeat tm
     then heap q1 = (heap q)(p \<mapsto> tm\<lparr>expiration := addTime (clk (ticks q)) (interval tm)\<rparr>) \<and>
          set (timers q1) = insert (addTime (clk (ticks q)) (interval tm), p) (set (timers q))
     else heap q1 = (heap q)(p := None) \<and> timers q1 = timers q"
    by (rule reset_one_ok [where clk = clk and t = t])
  have h: "heap q1 x = heap q x" if "x \<noteq> p" for x using q1(5) that by (auto split: if_splits)
  have sub: "set (timers q) \<subseteq> set (timers q1)" using q1(5) by (auto split: if_splits)
  have "distinct (map snd es)" "snd ` set es \<inter> held = {}" using Cons.prems by auto
  from Cons.IH [OF q1(2) this] obtain q' where q': "TimerQueue_reset clk q1 es = Inr q'" "tq_ok held q'"
    "es \<noteq> [] \<longrightarrow> armed_for_first clk q'" "set (timers q1) \<subseteq> set (timers q')"
    "\<forall>p \<in> snd ` set es. \<forall>tm. heap q1 p = Some tm \<longrightarrow>
       (if repeat tm
        then \<exists>k. heap q' p = Some (tm\<lparr>expiration := addTime (clk k) (interval tm)\<rparr>) \<and>
               (addTime (clk k) (interval tm), p) \<in> set (timers q')
        else heap q' p = None)"
    "\<forall>p. p \<notin> snd ` set es \<longrightarrow> heap q' p = heap q1 p" by blast
  have p: "p \<notin> snd ` set es" using Cons.prems by (auto simp: e)
  show ?case
  proof (intro exI [of _ q'] conjI)
    show "TimerQueue_reset clk q (e # es) = Inr q'" using q1(1) q'(1) by (simp add: e)
    show "tq_ok held q'" by fact
    show "e # es \<noteq> [] \<longrightarrow> armed_for_first clk q'" using q'(1,3) q1(3) by (cases es) auto
    show "set (timers q) \<subseteq> set (timers q')" using sub q'(4) by blast
    show "\<forall>x. x \<notin> snd ` set (e # es) \<longrightarrow> heap q' x = heap q x" using q'(6) h by (simp add: e)
    show "\<forall>x \<in> snd ` set (e # es). \<forall>tm. heap q x = Some tm \<longrightarrow>
       (if repeat tm
        then \<exists>k. heap q' x = Some (tm\<lparr>expiration := addTime (clk k) (interval tm)\<rparr>) \<and>
               (addTime (clk k) (interval tm), x) \<in> set (timers q')
        else heap q' x = None)"
    proof (intro ballI allI impI)
      fix x tm' assume x: "x \<in> snd ` set (e # es)" and tm': "heap q x = Some tm'"
      show "if repeat tm'
        then \<exists>k. heap q' x = Some (tm'\<lparr>expiration := addTime (clk k) (interval tm')\<rparr>) \<and>
               (addTime (clk k) (interval tm'), x) \<in> set (timers q')
        else heap q' x = None"
      proof (cases "x = p")
        case True
        with tm' q1(4,5) q'(4,6) p show ?thesis by (auto split: if_splits)
      next
        case False
        with x tm' h q'(5) show ?thesis by (auto simp: e)
      qed
    qed
  qed
qed

lemma TimerQueue_insert_fired: "TimerQueue_insert q p = Inr (b, q') \<Longrightarrow> fired q' = fired q"
  by (auto simp: TimerQueue_insert_def Let_def split: option.splits)

lemma rearm_fired: "rearm clk q = Inr q' \<Longrightarrow> fired q' = fired q"
  by (auto simp: rearm_def split: list.splits option.splits)

lemma reset_one_fired: "reset_one clk q e = Inr q' \<Longrightarrow> fired q' = fired q"
  by (auto simp: reset_one_def read_now_def Let_def bind_r_Inr_iff split: option.splits if_splits
      dest!: rearm_fired TimerQueue_insert_fired)

lemma TimerQueue_reset_fired: "TimerQueue_reset clk q es = Inr q' \<Longrightarrow> fired q' = fired q"
  by (induction es arbitrary: q) (auto simp: bind_r_Inr_iff dest: reset_one_fired)

text \<open>\<open>getExpired\<close> takes out exactly the timers that are due, in order, and keeps the others.\<close>

lemma getExpired_ok:
  assumes ok: "tq_ok {} q"
  shows "fst (getExpired q now) = filter (\<lambda>(t, _). t \<le> now) (timers q)"
    and "timers (snd (getExpired q now)) = filter (\<lambda>(t, _). \<not> t \<le> now) (timers q)"
    and "tq_ok (snd ` set (fst (getExpired q now))) (snd (getExpired q now))"
    and "heap (snd (getExpired q now)) = heap q"
    and "fired (snd (getExpired q now)) = fired q"
proof -
  let ?s = "(now, UINTPTR_MAX)"
  have below: "e < ?s \<longleftrightarrow> (case e of (t, _) \<Rightarrow> t \<le> now)" if "e \<in> set (timers q)" for e
  proof -
    obtain t p where e: "e = (t, p)" by (cases e)
    with that tq_okD(3) [OF ok] have "p < UINTPTR_MAX" by blast
    with e show ?thesis by (simp only: below_sentry prod.case)
  qed
  note tw = takeWhile_below [OF tq_okD(1) [OF ok], of ?s]
  show 1: "fst (getExpired q now) = filter (\<lambda>(t, _). t \<le> now) (timers q)"
    by (simp add: getExpired_def Let_def tw below cong: filter_cong)
  show 2: "timers (snd (getExpired q now)) = filter (\<lambda>(t, _). \<not> t \<le> now) (timers q)"
    unfolding getExpired_def Let_def using tw below by (auto intro: filter_cong)
  show h: "heap (snd (getExpired q now)) = heap q" by (simp add: getExpired_def Let_def)
  show "fired (snd (getExpired q now)) = fired q" by (simp add: getExpired_def Let_def)
  show "tq_ok (snd ` set (fst (getExpired q now))) (snd (getExpired q now))"
  proof -
    have "p \<notin> snd ` {e \<in> set (timers q). case e of (t, _) \<Rightarrow> t \<le> now}"
      if "(t, p) \<in> set (timers q)" "\<not> t \<le> now" for t p
    proof
      assume "p \<in> snd ` {e \<in> set (timers q). case e of (t, _) \<Rightarrow> t \<le> now}"
      then obtain t' where "(t', p) \<in> set (timers q)" "t' \<le> now" by auto
      moreover from tq_okD(2) [OF ok] have "inj_on snd (set (timers q))" by (simp add: distinct_map)
      ultimately have "(t', p) = (t, p)" using that by (intro inj_onD [of snd "set (timers q)"]) simp_all
      with \<open>t' \<le> now\<close>
      show False using that by simp
    qed
    note notin = this
    show ?thesis
      unfolding tq_ok_def 1 2 h
    proof (intro conjI ballI)
      show "sorted_wrt (<) (filter (\<lambda>(t, _). \<not> t \<le> now) (timers q))"
        by (rule sorted_wrt_filter) (rule tq_okD(1) [OF ok])
      show "distinct (map snd (filter (\<lambda>(t, _). \<not> t \<le> now) (timers q)))"
        by (rule distinct_map_filter) (rule tq_okD(2) [OF ok])
      show "case e of (t, p) \<Rightarrow> p < UINTPTR_MAX \<and>
          p \<notin> snd ` set (filter (\<lambda>(t, _). t \<le> now) (timers q)) \<and>
          (\<exists>tm. heap q p = Some tm \<and> expiration tm = t)"
        if "e \<in> set (filter (\<lambda>(t, _). \<not> t \<le> now) (timers q))" for e
        using that tq_okD(3) [OF ok, of "fst e" "snd e"] notin [of "fst e" "snd e"]
        by (auto simp: split_beta)
      show "p < UINTPTR_MAX" "heap q p \<noteq> None"
        if "p \<in> snd ` set (filter (\<lambda>(t, _). t \<le> now) (timers q))" for p
        using that by (auto dest!: tq_okD(3) [OF ok])
    qed
  qed
qed

text \<open>The whole handler, from the expiry of the timerfd to the re-armed timerfd.\<close>

lemma TimerQueue_handleRead_ok:
  fixes clk :: "nat \<Rightarrow> Timestamp"
  assumes new: "fresh_new new" and ok: "tq_ok {} q"
  defines "due \<equiv> filter (\<lambda>(t, _). t \<le> clk (ticks q)) (timers q)"
  shows "TimerQueue_handleRead new clk adds q = Inl BadAlloc \<or>
    (\<exists>q'. TimerQueue_handleRead new clk adds q = Inr q' \<and> tq_ok {} q' \<and>
       fired q' = fired q @ map (\<lambda>e. callback (the (heap q (snd e)))) due \<and>
       (due \<noteq> [] \<longrightarrow> armed_for_first clk q') \<and>
       {e \<in> set (timers q). clk (ticks q) < fst e} \<subseteq> set (timers q') \<and>
       (\<forall>(t, p) \<in> set due. \<forall>tm. heap q p = Some tm \<longrightarrow>
          (if repeat tm
           then \<exists>k. heap q' p = Some (tm\<lparr>expiration := addTime (clk k) (interval tm)\<rparr>) \<and>
                  (addTime (clk k) (interval tm), p) \<in> set (timers q')
           else heap q' p = None)))"
proof -
  let ?now = "clk (ticks q)"
  let ?q0 = "q\<lparr>ticks := Suc (ticks q)\<rparr>"
  have ok0: "tq_ok {} ?q0" using ok by (rule tq_ok_frame) simp_all
  define q1 where "q1 = snd (getExpired ?q0 ?now)"
  let ?held = "snd ` set due"
  note ge = getExpired_ok [OF ok0, of ?now]
  have due: "fst (getExpired ?q0 ?now) = due" using ge(1) by (simp add: due_def)
  have q1: "tq_ok ?held q1" "heap q1 = heap q" "fired q1 = fired q"
    "set (timers q1) = {e \<in> set (timers q). ?now < fst e}"
    using ge(2-5) due by (auto simp: q1_def)
  let ?q1 = "q1\<lparr>callingExpiredTimers := True\<rparr>"
  have ok1: "tq_ok ?held ?q1" using q1(1) by (rule tq_ok_frame) simp_all
  have hr: "TimerQueue_handleRead new clk adds q =
      bind_r (run_expired new clk adds ?q1 due) (\<lambda>q2.
        TimerQueue_reset clk (q2\<lparr>callingExpiredTimers := False\<rparr>) due)"
    using due by (simp add: TimerQueue_handleRead_def read_now_def q1_def split_beta)
  from run_expired_ok [OF new ok1 order_refl, of clk adds] show ?thesis
  proof (elim disjE exE conjE)
    assume "run_expired new clk adds ?q1 due = Inl BadAlloc"
    then show ?thesis by (simp add: hr)
  next
    fix q2
    assume q2: "run_expired new clk adds ?q1 due = Inr q2" "tq_ok ?held q2"
      "fired q2 = fired ?q1 @ map (\<lambda>e. callback (the (heap ?q1 (snd e)))) due"
      "set (timers ?q1) \<subseteq> set (timers q2)" "heap ?q1 \<subseteq>\<^sub>m heap q2"
    let ?q2 = "q2\<lparr>callingExpiredTimers := False\<rparr>"
    have ok2: "tq_ok (?held \<union> {}) ?q2" using q2(2) by (simp add: tq_ok_def)
    have dd: "distinct (map snd due)"
      using tq_okD(2) [OF ok] by (simp add: due_def distinct_map_filter)
    from TimerQueue_reset_ok [OF ok2 dd, of clk] obtain q' where
      q': "TimerQueue_reset clk ?q2 due = Inr q'" "tq_ok {} q'" "due \<noteq> [] \<longrightarrow> armed_for_first clk q'"
        "set (timers q2) \<subseteq> set (timers q')"
        "\<forall>p \<in> ?held. \<forall>tm. heap q2 p = Some tm \<longrightarrow>
          (if repeat tm
           then \<exists>k. heap q' p = Some (tm\<lparr>expiration := addTime (clk k) (interval tm)\<rparr>) \<and>
                  (addTime (clk k) (interval tm), p) \<in> set (timers q')
           else heap q' p = None)" by auto
    have fired: "fired q' = fired q2"
      using TimerQueue_reset_fired [OF q'(1)] by simp
    have "heap q2 p = heap q p" if "heap q p = Some tm" for p tm
    proof -
      have "heap q \<subseteq>\<^sub>m heap q2" using q2(5) q1(2) by simp
      moreover have "p \<in> dom (heap q)" using that by blast
      ultimately show ?thesis unfolding map_le_def by metis
    qed
    then have "\<forall>(t, p) \<in> set due. \<forall>tm. heap q p = Some tm \<longrightarrow>
          (if repeat tm
           then \<exists>k. heap q' p = Some (tm\<lparr>expiration := addTime (clk k) (interval tm)\<rparr>) \<and>
                  (addTime (clk k) (interval tm), p) \<in> set (timers q')
           else heap q' p = None)"
      using q'(5) by (force simp del: if_split)
    moreover have "{e \<in> set (timers q). ?now < fst e} \<subseteq> set (timers q')"
      using q1(4) q2(4) q'(4) by auto
    ultimately show ?thesis
      using q' q2 q1 fired by (intro disjI2 exI [of _ q']) (simp add: hr)
  qed
qed

section \<open>Properties\<close>

lemma timerfd_value_eq:
  "timerfd_value e now =
     (let d = max 100 (microSecondsSinceEpoch e - microSecondsSinceEpoch now)
      in \<lparr>tv_sec = d div 1000000, tv_nsec = d mod 1000000 * 1000\<rparr>)"
  by (auto simp: timerfd_value_def Let_def kMicroSecondsPerSecond_def tdiv_nonneg tmod_nonneg max_def)

text \<open>
  C34: the value handed to \<open>timerfd_settime\<close> is a valid \<open>timespec\<close> (nanoseconds below one second),
  stands for exactly the remaining time with a floor of 100 microseconds, and so is never zero, the
  value that would disarm the timer.
\<close>

theorem timerfd_value_valid:
  "0 \<le> tv_sec (timerfd_value e now) \<and> 0 \<le> tv_nsec (timerfd_value e now) \<and>
   tv_nsec (timerfd_value e now) < 1000000000 \<and>
   tv_sec (timerfd_value e now) * 1000000000 + tv_nsec (timerfd_value e now) =
     1000 * max 100 (microSecondsSinceEpoch e - microSecondsSinceEpoch now)"
proof -
  let ?d = "max 100 (microSecondsSinceEpoch e - microSecondsSinceEpoch now)"
  have d: "0 \<le> ?d div 1000000" "0 \<le> ?d mod 1000000" "?d mod 1000000 < 1000000"
    "?d div 1000000 * 1000000 + ?d mod 1000000 = ?d"
    by (simp_all add: pos_imp_zdiv_nonneg_iff)
  then have "?d div 1000000 * 1000000000 + ?d mod 1000000 * 1000 = 1000 * ?d" by linarith
  with d show ?thesis by (simp add: timerfd_value_eq Let_def)
qed

text \<open>
  C20: one expiry of the timerfd. Unless a callback's allocation throws, the handler reads no dangling
  timer, runs the callbacks of exactly the timers due at the time it read, in order of expiry, keeps
  every later timer, frees each due one-shot timer, puts each due repeating timer back at a new time
  plus its interval, leaves the set consistent with the timers, and, if a timer was due, has armed
  the timerfd for the earliest timer left.
\<close>

theorem timer_expiry:
  fixes clk :: "nat \<Rightarrow> Timestamp"
  assumes "fresh_new new" "tq_ok {} q"
  shows "TimerQueue_handleRead new clk adds q = Inl BadAlloc \<or>
    (\<exists>q'. TimerQueue_handleRead new clk adds q = Inr q' \<and> tq_ok {} q' \<and>
       (let due = filter (\<lambda>(t, _). t \<le> clk (ticks q)) (timers q) in
          fired q' = fired q @ map (\<lambda>e. callback (the (heap q (snd e)))) due \<and>
          (due \<noteq> [] \<longrightarrow> armed_for_first clk q') \<and>
          {e \<in> set (timers q). clk (ticks q) < fst e} \<subseteq> set (timers q') \<and>
          (\<forall>(t, p) \<in> set due. \<forall>tm. heap q p = Some tm \<longrightarrow>
             (if repeat tm
              then \<exists>k. heap q' p = Some (tm\<lparr>expiration := addTime (clk k) (interval tm)\<rparr>) \<and>
                     (addTime (clk k) (interval tm), p) \<in> set (timers q')
              else heap q' p = None))))"
  using TimerQueue_handleRead_ok [OF assms, of clk adds] by (simp only: Let_def)

definition example_new :: "(ptr \<Rightarrow> nat Timer option) \<Rightarrow> ptr option" where
  "example_new h = (if h 7 = None then Some 7 else None)"

definition example_queue :: "nat TimerQueue" where
  "example_queue = \<lparr>timers = [(Timestamp 10, 1), (Timestamp 20, 2), (Timestamp 90, 3)],
     heap = [1 \<mapsto> Timer_new 100 (Timestamp 10) (whole_seconds 0),
             2 \<mapsto> Timer_new 200 (Timestamp 20) (whole_seconds 1),
             3 \<mapsto> Timer_new 300 (Timestamp 90) (whole_seconds 0)],
     ticks = 0, settimes = [], callingExpiredTimers = False, fired = []\<rparr>"

lemma example_new_fresh: "fresh_new example_new"
  by (auto simp: fresh_new_def example_new_def UINTPTR_MAX_def split: if_splits)

lemma example_queue_ok: "tq_ok {} example_queue"
  by (simp add: tq_ok_def example_queue_def UINTPTR_MAX_def Timer_new_def less_prod_def'
      less_Timestamp_def Timestamp_lt_def less_eq_Timestamp_def)

theorem timer_expiry_witness:
  "fresh_new example_new \<and> tq_ok {} example_queue \<and>
   (\<exists>q'. TimerQueue_handleRead example_new (\<lambda>k. Timestamp (50 + int k)) (\<lambda>_. []) example_queue = Inr q' \<and>
     fired q' = [100, 200] \<and> heap q' 1 = None)"
proof -
  let ?clk = "\<lambda>k. Timestamp (50 + int k)"
  have run: "\<exists>q'. TimerQueue_handleRead example_new ?clk (\<lambda>_. []) example_queue = Inr q' \<and>
      fired q' = [100, 200] \<and> heap q' 1 = None"
    by (simp add: TimerQueue_handleRead_def read_now_def getExpired_def example_queue_def Let_def
        UINTPTR_MAX_def less_prod_def' less_Timestamp_def Timestamp_lt_def less_eq_Timestamp_def Timer_new_def
        whole_seconds_def double_pos_def reset_one_def Timer_restart_def TimerQueue_insert_def
        rearm_def resetTimerfd_def)
  show ?thesis
    using timer_expiry [OF example_new_fresh example_queue_ok, of ?clk "\<lambda>_. []"] run
      example_new_fresh example_queue_ok by blast
qed

text \<open>
  When the timerfd fires and no timer is due yet (the timerfd runs on \<open>CLOCK_MONOTONIC\<close>, the
  timers on the wall clock of \<open>gettimeofday\<close>), the handler changes nothing and does not set the
  timerfd again: the pending timers are left without an armed timer.
\<close>

theorem timer_early_expiry_not_rearmed:
  assumes "tq_ok {} q" "\<forall>(t, _) \<in> set (timers q). clk (ticks q) < t"
  shows "\<exists>q'. TimerQueue_handleRead new clk adds q = Inr q' \<and> timers q' = timers q \<and>
    settimes q' = settimes q \<and> fired q' = fired q"
proof -
  let ?q0 = "q\<lparr>ticks := Suc (ticks q)\<rparr>"
  have "tq_ok {} ?q0" using assms(1) by (rule tq_ok_frame) simp_all
  note ge = getExpired_ok [OF this, of "clk (ticks q)"]
  have e: "fst (getExpired ?q0 (clk (ticks q))) = []"
    using ge(1) assms(2) by (fastforce simp: filter_empty_conv)
  have t: "timers (snd (getExpired ?q0 (clk (ticks q)))) = timers q"
    using ge(2) assms(2) by (fastforce simp: filter_id_conv)
  have s: "settimes (snd (getExpired ?q0 (clk (ticks q)))) = settimes q" by (simp add: getExpired_def Let_def)
  show ?thesis
    using e t s ge(5) by (simp add: TimerQueue_handleRead_def read_now_def split_beta)
qed

theorem timer_early_expiry_not_rearmed_witness:
  "\<exists>q'. TimerQueue_handleRead example_new (\<lambda>_. Timestamp 5) (\<lambda>_. []) example_queue = Inr q' \<and>
     timers q' = [(Timestamp 10, 1), (Timestamp 20, 2), (Timestamp 90, 3)] \<and> settimes q' = []"
proof -
  have "\<forall>(t, _) \<in> set (timers example_queue). Timestamp 5 < t"
    by (simp add: example_queue_def less_Timestamp_def Timestamp_lt_def)
  from timer_early_expiry_not_rearmed [OF example_queue_ok this, of example_new "\<lambda>_. []"]
  show ?thesis by (auto simp: example_queue_def)
qed

end
