(* ===== verification/LFU.thy ===== *)
theory LFU
  imports Prelude "HOL-Library.AList" "HOL-Library.Multiset"
begin

text \<open>
  The least-frequently-used cache (\<open>include/LFU.h\<close>, \<open>include/KICachePolicy.h\<close>).

  A node is identified by its key (the node map holds one node per key); a \<open>FreqList\<close> is the list of
  its nodes from the head to the tail sentinel. The two hash maps are association lists; the order
  in which \<open>unordered_map\<close> iterates is unspecified in C++, so it is a parameter \<open>iter\<close> that permutes
  the keys. A null \<open>FreqList*\<close> that is dereferenced is the error \<open>NullDeref\<close>. The key of a
  default-constructed sentinel node (erased from the node map when an empty list is asked for its
  first node) is the field \<open>sentinelKey\<close>. \<open>size_t\<close> and \<open>int\<close> conversions are written out.
\<close>

section \<open>Frequency lists\<close>

type_synonym 'k FreqList = "'k list"

definition FreqList_isEmpty :: "'k FreqList \<Rightarrow> bool" where
  "FreqList_isEmpty l = (l = [])"

definition FreqList_addNode :: "'k FreqList \<Rightarrow> 'k \<Rightarrow> 'k FreqList" where
  "FreqList_addNode l k = l @ [k]"

definition FreqList_removeNode :: "'k FreqList \<Rightarrow> 'k \<Rightarrow> 'k FreqList" where
  "FreqList_removeNode l k = remove1 k l"

text \<open>\<open>head_->next\<close>: \<open>None\<close> is the tail sentinel.\<close>

definition FreqList_getFirstNode :: "'k FreqList \<Rightarrow> 'k option" where
  "FreqList_getFirstNode l = (case l of [] \<Rightarrow> None | k # _ \<Rightarrow> Some k)"

section \<open>The cache\<close>

record 'v Node =
  nfreq :: int
  nvalue :: 'v

record ('k, 'v) KLfuCache =
  capacity :: int
  minFreq :: int
  maxAverageNum :: int
  curAverageNum :: int
  curTotalNum :: int
  nodeMap :: "('k \<times> 'v Node) list"
  freqToFreqList :: "(int \<times> 'k FreqList) list"
  sentinelKey :: 'k

definition INT8_MAX :: int where "INT8_MAX = 127"

text \<open>Conversions between \<open>int\<close> (32 bits) and \<open>size_t\<close> (64 bits).\<close>

definition sz_of_int :: "int \<Rightarrow> nat" where
  "sz_of_int i = nat (i mod 2 ^ 64)"

definition int_of_sz :: "nat \<Rightarrow> int" where
  "int_of_sz n = (int n + 2 ^ 31) mod 2 ^ 32 - 2 ^ 31"

definition KLfuCache_new :: "'k \<Rightarrow> int \<Rightarrow> int \<Rightarrow> ('k, 'v) KLfuCache" where
  "KLfuCache_new sk cap maxAvg =
     \<lparr>capacity = cap, minFreq = INT8_MAX, maxAverageNum = maxAvg, curAverageNum = 0,
      curTotalNum = 0, nodeMap = [], freqToFreqList = [], sentinelKey = sk\<rparr>"

definition node_of :: "('k, 'v) KLfuCache \<Rightarrow> 'k \<Rightarrow> 'v Node result" where
  "node_of c k = (case map_of (nodeMap c) k of None \<Rightarrow> Inl NullDeref | Some nd \<Rightarrow> Inr nd)"

definition list_of :: "('k, 'v) KLfuCache \<Rightarrow> int \<Rightarrow> 'k FreqList result" where
  "list_of c f = (case map_of (freqToFreqList c) f of None \<Rightarrow> Inl NullDeref | Some l \<Rightarrow> Inr l)"

definition removeFromFreqList :: "('k, 'v) KLfuCache \<Rightarrow> 'k \<Rightarrow> ('k, 'v) KLfuCache result" where
  "removeFromFreqList c k =
     bind_r (node_of c k) (\<lambda>nd.
     bind_r (list_of c (nfreq nd)) (\<lambda>l.
       Inr (c\<lparr>freqToFreqList :=
                AList.update (nfreq nd) (FreqList_removeNode l k) (freqToFreqList c)\<rparr>)))"

definition addToFreqList :: "('k, 'v) KLfuCache \<Rightarrow> 'k \<Rightarrow> ('k, 'v) KLfuCache result" where
  "addToFreqList c k =
     bind_r (node_of c k) (\<lambda>nd.
       let f = nfreq nd;
           fl = (if map_of (freqToFreqList c) f = None
                 then AList.update f [] (freqToFreqList c) else freqToFreqList c);
           c1 = c\<lparr>freqToFreqList := fl\<rparr>
       in bind_r (list_of c1 f) (\<lambda>l.
            Inr (c1\<lparr>freqToFreqList := AList.update f (FreqList_addNode l k) fl\<rparr>)))"

text \<open>The statements \<open>removeFromFreqList(node); node->freq = f; addToFreqList(node);\<close>.\<close>

definition relocate :: "('k, 'v) KLfuCache \<Rightarrow> 'k \<Rightarrow> (int \<Rightarrow> int) \<Rightarrow> ('k, 'v) KLfuCache result" where
  "relocate c k g =
     bind_r (removeFromFreqList c k) (\<lambda>c1.
     bind_r (node_of c1 k) (\<lambda>nd.
       addToFreqList
         (c1\<lparr>nodeMap := AList.update k (nd\<lparr>nfreq := g (nfreq nd)\<rparr>) (nodeMap c1)\<rparr>) k))"

definition updateMinFreq :: "('k, 'v) KLfuCache \<Rightarrow> ('k, 'v) KLfuCache" where
  "updateMinFreq c =
     (let m = fold (\<lambda>(f, l) m. if \<not> FreqList_isEmpty l then min m f else m)
                (freqToFreqList c) INT8_MAX
      in c\<lparr>minFreq := if m = INT8_MAX then 1 else m\<rparr>)"

text \<open>\<open>node->freq -= maxAverageNum_ / 2; if (node->freq < 1) node->freq = 1;\<close>\<close>

definition aged :: "int \<Rightarrow> int \<Rightarrow> int" where
  "aged maxAvg f = (let f' = f - tdiv maxAvg 2 in if f' < 1 then 1 else f')"

fun age_all :: "('k, 'v) KLfuCache \<Rightarrow> 'k list \<Rightarrow> ('k, 'v) KLfuCache result" where
  "age_all c [] = Inr c"
| "age_all c (k # ks) =
     bind_r (relocate c k (aged (maxAverageNum c))) (\<lambda>c1. age_all c1 ks)"

definition handleOverMaxAverageNum ::
    "('k list \<Rightarrow> 'k list) \<Rightarrow> ('k, 'v) KLfuCache \<Rightarrow> ('k, 'v) KLfuCache result" where
  "handleOverMaxAverageNum iter c =
     (if nodeMap c = [] then Inr c
      else bind_r (age_all c (iter (map fst (nodeMap c)))) (\<lambda>c1. Inr (updateMinFreq c1)))"

text \<open>
  \<open>curTotalNum_ / nodeMap_.size()\<close>: the \<open>int\<close> is converted to \<open>size_t\<close> for the division and the
  quotient back to \<open>int\<close>.
\<close>

definition average :: "int \<Rightarrow> ('k \<times> 'v Node) list \<Rightarrow> int" where
  "average tot nodes =
     (if nodes = [] then 0 else int_of_sz (sz_of_int tot div length nodes))"

definition addFreqNum :: "('k list \<Rightarrow> 'k list) \<Rightarrow> ('k, 'v) KLfuCache \<Rightarrow> ('k, 'v) KLfuCache result" where
  "addFreqNum iter c =
     (let tot = curTotalNum c + 1;
          c1 = c\<lparr>curTotalNum := tot, curAverageNum := average tot (nodeMap c)\<rparr>
      in if maxAverageNum c1 < curAverageNum c1 then handleOverMaxAverageNum iter c1 else Inr c1)"

definition decreaseFreqNum :: "('k, 'v) KLfuCache \<Rightarrow> int \<Rightarrow> ('k, 'v) KLfuCache" where
  "decreaseFreqNum c num =
     (let tot = curTotalNum c - num
      in c\<lparr>curTotalNum := tot, curAverageNum := average tot (nodeMap c)\<rparr>)"

text \<open>
  An empty list hands out its tail sentinel, a node of frequency 1 that is not linked: nothing is
  unlinked, and the sentinel's key is erased from the node map.
\<close>

definition kickOut :: "('k, 'v) KLfuCache \<Rightarrow> ('k, 'v) KLfuCache result" where
  "kickOut c =
     bind_r (list_of c (minFreq c)) (\<lambda>l.
       case FreqList_getFirstNode l of
         Some k \<Rightarrow>
           bind_r (node_of c k) (\<lambda>nd.
           bind_r (removeFromFreqList c k) (\<lambda>c1.
             Inr (decreaseFreqNum (c1\<lparr>nodeMap := AList.delete k (nodeMap c1)\<rparr>) (nfreq nd))))
       | None \<Rightarrow>
           bind_r (list_of c 1) (\<lambda>_.
             Inr (decreaseFreqNum (c\<lparr>nodeMap := AList.delete (sentinelKey c) (nodeMap c)\<rparr>) 1)))"

definition getInternal :: "('k list \<Rightarrow> 'k list) \<Rightarrow> ('k, 'v) KLfuCache \<Rightarrow> 'k \<Rightarrow>
    ('v \<times> ('k, 'v) KLfuCache) result" where
  "getInternal iter c k =
     bind_r (node_of c k) (\<lambda>nd.
     bind_r (relocate c k (\<lambda>f. f + 1)) (\<lambda>c1.
     bind_r (if nfreq nd = minFreq c1
             then bind_r (list_of c1 (nfreq nd)) (\<lambda>l.
                    Inr (if FreqList_isEmpty l then c1\<lparr>minFreq := minFreq c1 + 1\<rparr> else c1))
             else Inr c1) (\<lambda>c2.
     bind_r (addFreqNum iter c2) (\<lambda>c3. Inr (nvalue nd, c3)))))"

definition putInternal :: "('k list \<Rightarrow> 'k list) \<Rightarrow> ('k, 'v) KLfuCache \<Rightarrow> 'k \<Rightarrow> 'v \<Rightarrow>
    ('k, 'v) KLfuCache result" where
  "putInternal iter c k v =
     bind_r (if length (nodeMap c) = sz_of_int (capacity c) then kickOut c else Inr c) (\<lambda>c1.
     bind_r (addToFreqList
              (c1\<lparr>nodeMap := AList.update k \<lparr>nfreq = 1, nvalue = v\<rparr> (nodeMap c1)\<rparr>) k) (\<lambda>c2.
     bind_r (addFreqNum iter c2) (\<lambda>c3.
       Inr (c3\<lparr>minFreq := min (minFreq c3) 1\<rparr>))))"

definition KLfuCache_put :: "('k list \<Rightarrow> 'k list) \<Rightarrow> ('k, 'v) KLfuCache \<Rightarrow> 'k \<Rightarrow> 'v \<Rightarrow>
    ('k, 'v) KLfuCache result" where
  "KLfuCache_put iter c k v =
     (if capacity c = 0 then Inr c
      else case map_of (nodeMap c) k of
             Some nd \<Rightarrow>
               bind_r (getInternal iter
                         (c\<lparr>nodeMap := AList.update k (nd\<lparr>nvalue := v\<rparr>) (nodeMap c)\<rparr>) k)
                 (\<lambda>(_, c1). Inr c1)
           | None \<Rightarrow> putInternal iter c k v)"

text \<open>\<open>get(key, value)\<close>: \<open>None\<close> is the result \<open>false\<close>, the out-parameter untouched.\<close>

definition KLfuCache_get :: "('k list \<Rightarrow> 'k list) \<Rightarrow> ('k, 'v) KLfuCache \<Rightarrow> 'k \<Rightarrow>
    ('v option \<times> ('k, 'v) KLfuCache) result" where
  "KLfuCache_get iter c k =
     (case map_of (nodeMap c) k of
        Some nd \<Rightarrow> bind_r (getInternal iter c k) (\<lambda>(v, c1). Inr (Some v, c1))
      | None \<Rightarrow> Inr (None, c))"

text \<open>\<open>Value get(key)\<close> returns a default-constructed value when the key is absent.\<close>

definition KLfuCache_get_or :: "('k list \<Rightarrow> 'k list) \<Rightarrow> 'v \<Rightarrow> ('k, 'v) KLfuCache \<Rightarrow> 'k \<Rightarrow>
    ('v \<times> ('k, 'v) KLfuCache) result" where
  "KLfuCache_get_or iter dflt c k =
     bind_r (KLfuCache_get iter c k) (\<lambda>(r, c1). Inr (case r of None \<Rightarrow> dflt | Some v \<Rightarrow> v, c1))"

definition KLfuCache_purge :: "('k, 'v) KLfuCache \<Rightarrow> ('k, 'v) KLfuCache" where
  "KLfuCache_purge c = c\<lparr>nodeMap := [], freqToFreqList := []\<rparr>"

section \<open>Invariant\<close>

text \<open>The frequency of a key, the keys of each frequency, and the sum of all frequencies.\<close>

definition freq_of :: "('k, 'v) KLfuCache \<Rightarrow> 'k \<Rightarrow> int option" where
  "freq_of c k = map_option nfreq (map_of (nodeMap c) k)"

definition freq_sum :: "('k \<times> 'v Node) list \<Rightarrow> int" where
  "freq_sum nodes = sum_list (map (nfreq \<circ> snd) nodes)"

definition lookup :: "('k, 'v) KLfuCache \<Rightarrow> 'k \<Rightarrow> 'v option" where
  "lookup c k = map_option nvalue (map_of (nodeMap c) k)"

text \<open>
  The lists partition the keys by frequency: the list of \<open>f\<close> holds, once each, the keys whose node
  has frequency \<open>f\<close>, and every node's list exists. In the middle of an operation the nodes \<open>S\<close> are
  unlinked.
\<close>

definition part_but :: "'k set \<Rightarrow> ('k, 'v) KLfuCache \<Rightarrow> bool" where
  "part_but S c \<longleftrightarrow>
     distinct (map fst (nodeMap c)) \<and> distinct (map fst (freqToFreqList c)) \<and>
     (\<forall>k f. freq_of c k = Some f \<longrightarrow> 1 \<le> f) \<and>
     (\<forall>k f. k \<notin> S \<longrightarrow> freq_of c k = Some f \<longrightarrow> map_of (freqToFreqList c) f \<noteq> None) \<and>
     (\<forall>f l. map_of (freqToFreqList c) f = Some l \<longrightarrow>
        distinct l \<and> set l = {k. k \<notin> S \<and> freq_of c k = Some f})"

abbreviation part_ok :: "('k, 'v) KLfuCache \<Rightarrow> bool" where
  "part_ok \<equiv> part_but {}"

text \<open>The fields the list operations leave alone.\<close>

definition scalars :: "('k, 'v) KLfuCache \<Rightarrow> int \<times> int \<times> int \<times> int \<times> int" where
  "scalars c = (capacity c, minFreq c, maxAverageNum c, curAverageNum c, curTotalNum c)"

lemma part_butI:
  assumes "distinct (map fst (nodeMap c))" "distinct (map fst (freqToFreqList c))"
    "\<And>k f. freq_of c k = Some f \<Longrightarrow> 1 \<le> f"
    "\<And>k f. k \<notin> S \<Longrightarrow> freq_of c k = Some f \<Longrightarrow> map_of (freqToFreqList c) f \<noteq> None"
    "\<And>f l. map_of (freqToFreqList c) f = Some l \<Longrightarrow>
       distinct l \<and> set l = {k. k \<notin> S \<and> freq_of c k = Some f}"
  shows "part_but S c"
  using assms unfolding part_but_def by blast

lemma part_butD:
  assumes "part_but S c"
  shows "distinct (map fst (nodeMap c))" "distinct (map fst (freqToFreqList c))"
    "freq_of c k = Some f \<Longrightarrow> 1 \<le> f"
    "k \<notin> S \<Longrightarrow> freq_of c k = Some f \<Longrightarrow> \<exists>l. map_of (freqToFreqList c) f = Some l"
    "map_of (freqToFreqList c) f = Some l \<Longrightarrow> distinct l"
    "map_of (freqToFreqList c) f = Some l \<Longrightarrow> set l = {k. k \<notin> S \<and> freq_of c k = Some f}"
  using assms unfolding part_but_def by (blast, blast, blast, blast, blast, blast)

lemma part_but_frame:
  assumes "part_but S c" "nodeMap c' = nodeMap c" "freqToFreqList c' = freqToFreqList c"
  shows "part_but S c'"
proof -
  have eq: "freq_of c' = freq_of c" using assms(2) by (simp add: fun_eq_iff freq_of_def)
  have "part_but S c' = part_but S c" unfolding part_but_def assms(2,3) eq by (rule refl)
  with assms(1) show ?thesis by simp
qed

lemma freq_of_iff: "freq_of c k = Some f \<longleftrightarrow> (\<exists>nd. map_of (nodeMap c) k = Some nd \<and> nfreq nd = f)"
  by (auto simp: freq_of_def)

lemma freq_of_update_node:
  "freq_of (c\<lparr>nodeMap := AList.update k nd (nodeMap c)\<rparr>) = (freq_of c)(k \<mapsto> nfreq nd)"
  by (simp add: freq_of_def update_conv' fun_eq_iff)

text \<open>The nodes of a frequency in the order of their list: a node enters at the back.\<close>

definition nodes_at :: "('k, 'v) KLfuCache \<Rightarrow> int \<Rightarrow> 'k list" where
  "nodes_at c f = (case map_of (freqToFreqList c) f of None \<Rightarrow> [] | Some l \<Rightarrow> l)"

section \<open>Linking and unlinking nodes\<close>

lemma removeFromFreqList_nodes:
  "removeFromFreqList c k = Inr c' \<Longrightarrow> map_of (nodeMap c) k = Some nd \<Longrightarrow>
   nodes_at c' = (nodes_at c)(nfreq nd := remove1 k (nodes_at c (nfreq nd))) \<and> nodeMap c' = nodeMap c \<and> scalars c' = scalars c"
  by (auto simp: removeFromFreqList_def node_of_def list_of_def bind_r_Inr_iff nodes_at_def FreqList_removeNode_def
      update_conv' fun_eq_iff scalars_def split: option.splits)

lemma addToFreqList_nodes:
  "addToFreqList c k = Inr c' \<Longrightarrow> map_of (nodeMap c) k = Some nd \<Longrightarrow>
   nodes_at c' = (nodes_at c)(nfreq nd := nodes_at c (nfreq nd) @ [k]) \<and> nodeMap c' = nodeMap c \<and> scalars c' = scalars c"
  by (auto simp: addToFreqList_def node_of_def list_of_def bind_r_Inr_iff nodes_at_def FreqList_addNode_def Let_def
      update_conv' fun_eq_iff scalars_def split: option.splits if_splits)

lemma relocate_nodes:
  assumes e: "relocate c k g = Inr c'" and k: "map_of (nodeMap c) k = Some nd"
  defines "q \<equiv> (nodes_at c)(nfreq nd := remove1 k (nodes_at c (nfreq nd)))"
  shows "nodes_at c' = q(g (nfreq nd) := q (g (nfreq nd)) @ [k])" "scalars c' = scalars c"
proof -
  from e obtain c1 nd1 where c1: "removeFromFreqList c k = Inr c1" and nd1: "node_of c1 k = Inr nd1"
    and a: "addToFreqList (c1\<lparr>nodeMap := AList.update k (nd1\<lparr>nfreq := g (nfreq nd1)\<rparr>) (nodeMap c1)\<rparr>) k = Inr c'"
    by (auto simp: relocate_def bind_r_Inr_iff)
  note R = removeFromFreqList_nodes [OF c1 k]
  from nd1 R k have nd1: "nd1 = nd" by (simp add: node_of_def)
  let ?c2 = "c1\<lparr>nodeMap := AList.update k (nd1\<lparr>nfreq := g (nfreq nd1)\<rparr>) (nodeMap c1)\<rparr>"
  have "map_of (nodeMap ?c2) k = Some (nd1\<lparr>nfreq := g (nfreq nd1)\<rparr>)" by (simp add: update_conv')
  note A = addToFreqList_nodes [OF a this]
  have "nodes_at ?c2 = nodes_at c1" "scalars ?c2 = scalars c1" by (simp_all add: nodes_at_def fun_eq_iff scalars_def)
  with A R nd1 show "nodes_at c' = q(g (nfreq nd) := q (g (nfreq nd)) @ [k])" "scalars c' = scalars c"
    by (simp_all add: q_def)
qed

lemma removeFromFreqList_ok:
  assumes ok: "part_ok c" and k: "map_of (nodeMap c) k = Some nd"
  obtains c' where "removeFromFreqList c k = Inr c'" "part_but {k} c'" "nodeMap c' = nodeMap c"
    "scalars c' = scalars c" "map_of (freqToFreqList c') (nfreq nd) \<noteq> None"
    "sentinelKey c' = sentinelKey c"
proof -
  let ?f = "nfreq nd"
  have fk: "freq_of c k = Some ?f" using k by (simp add: freq_of_def)
  from part_butD(4) [OF ok _ fk] obtain l where l: "map_of (freqToFreqList c) ?f = Some l" by blast
  let ?fl = "AList.update ?f (remove1 k l) (freqToFreqList c)"
  let ?c' = "c\<lparr>freqToFreqList := ?fl\<rparr>"
  have e: "removeFromFreqList c k = Inr ?c'"
    using k l by (simp add: removeFromFreqList_def node_of_def list_of_def FreqList_removeNode_def)
  have fo: "freq_of ?c' = freq_of c" by (simp add: freq_of_def fun_eq_iff)
  have fl: "map_of ?fl x = (if x = ?f then Some (remove1 k l) else map_of (freqToFreqList c) x)" for x
    by (simp add: update_conv')
  have "part_but {k} ?c'"
  proof (rule part_butI, goal_cases)
    case 1 show ?case using part_butD(1) [OF ok] by simp
  next
    case 2 show ?case using part_butD(2) [OF ok] by (simp add: distinct_update)
  next
    case 3 then show ?case unfolding fo by (rule part_butD(3) [OF ok])
  next
    case (4 x f) then show ?case unfolding fo using part_butD(4) [OF ok, of x f] by (simp add: fl)
  next
    case (5 f l')
    show ?case
    proof (cases "f = ?f")
      case True
      with 5 have "l' = remove1 k l" by (simp add: fl)
      with True part_butD(5,6) [OF ok l] show ?thesis unfolding fo by (auto simp: set_remove1_eq)
    next
      case False
      with 5 have l': "map_of (freqToFreqList c) f = Some l'" by (simp add: fl)
      have "{x. x \<notin> {k} \<and> freq_of c x = Some f} = {x. x \<notin> {} \<and> freq_of c x = Some f}"
        using False fk by auto
      with part_butD(5,6) [OF ok l'] show ?thesis unfolding fo by simp
    qed
  qed
  moreover have "scalars ?c' = scalars c" by (simp add: scalars_def)
  moreover have "map_of (freqToFreqList ?c') ?f \<noteq> None" by (simp add: fl)
  moreover have "nodeMap ?c' = nodeMap c" "sentinelKey ?c' = sentinelKey c" by simp_all
  ultimately show thesis using that [OF e] by blast
qed

lemma addToFreqList_ok:
  assumes ok: "part_but {k} c" and k: "map_of (nodeMap c) k = Some nd"
  obtains c' where "addToFreqList c k = Inr c'" "part_ok c'" "nodeMap c' = nodeMap c"
    "scalars c' = scalars c" "\<forall>f. map_of (freqToFreqList c) f \<noteq> None \<longrightarrow> map_of (freqToFreqList c') f \<noteq> None"
    "sentinelKey c' = sentinelKey c"
proof -
  let ?f = "nfreq nd"
  have fk: "freq_of c k = Some ?f" using k by (simp add: freq_of_def)
  let ?fl1 = "if map_of (freqToFreqList c) ?f = None
    then AList.update ?f [] (freqToFreqList c) else freqToFreqList c"
  define l where "l = (case map_of (freqToFreqList c) ?f of None \<Rightarrow> [] | Some l \<Rightarrow> l)"
  let ?fl = "AList.update ?f (l @ [k]) ?fl1"
  let ?c' = "c\<lparr>freqToFreqList := ?fl\<rparr>"
  have "map_of ?fl1 ?f = Some l" by (auto simp: l_def update_conv' split: option.splits)
  then have e: "addToFreqList c k = Inr ?c'"
    using k by (auto simp: addToFreqList_def node_of_def list_of_def FreqList_addNode_def Let_def)
  have fo: "freq_of ?c' = freq_of c" by (simp add: freq_of_def fun_eq_iff)
  have fl: "map_of ?fl x = (if x = ?f then Some (l @ [k]) else map_of (freqToFreqList c) x)" for x
    by (simp add: update_conv')
  have l: "distinct l" "set l = {x. x \<notin> {k} \<and> freq_of c x = Some ?f}"
  proof -
    show "distinct l" using part_butD(5) [OF ok] by (auto simp: l_def split: option.splits)
    show "set l = {x. x \<notin> {k} \<and> freq_of c x = Some ?f}"
    proof (cases "map_of (freqToFreqList c) ?f")
      case None
      with part_butD(4) [OF ok] have "{x. x \<notin> {k} \<and> freq_of c x = Some ?f} = {}" by fastforce
      with None show ?thesis unfolding l_def by simp
    next
      case (Some l')
      with part_butD(6) [OF ok Some] show ?thesis by (simp add: l_def)
    qed
  qed
  have "part_ok ?c'"
  proof (rule part_butI, goal_cases)
    case 1 show ?case using part_butD(1) [OF ok] by simp
  next
    case 2 show ?case using part_butD(2) [OF ok] by (simp add: distinct_update)
  next
    case 3 then show ?case unfolding fo by (rule part_butD(3) [OF ok])
  next
    case (4 x f)
    then show ?case
      unfolding fo using part_butD(4) [OF ok, of x f] fk by (cases "x = k") (auto simp: update_conv')
  next
    case (5 f l')
    show ?case
    proof (cases "f = ?f")
      case True
      with 5 have "l' = l @ [k]" by (simp add: fl)
      with True l fk show ?thesis unfolding fo by auto
    next
      case False
      with 5 have l': "map_of (freqToFreqList c) f = Some l'" by (simp add: fl)
      have "{x. x \<notin> {k} \<and> freq_of c x = Some f} = {x. x \<notin> {} \<and> freq_of c x = Some f}"
        using False fk by auto
      with part_butD(5,6) [OF ok l'] show ?thesis unfolding fo by simp
    qed
  qed
  moreover have "scalars ?c' = scalars c" by (simp add: scalars_def)
  moreover have "\<forall>f. map_of (freqToFreqList c) f \<noteq> None \<longrightarrow> map_of (freqToFreqList ?c') f \<noteq> None"
    by (simp add: fl)
  moreover have "nodeMap ?c' = nodeMap c" "sentinelKey ?c' = sentinelKey c" by simp_all
  ultimately show thesis using that [OF e] by blast
qed

lemma part_but_absent:
  assumes ok: "part_ok c" and k: "map_of (nodeMap c) k = None"
  shows "part_but {k} c"
proof -
  have n: "freq_of c k = None" using k by (simp add: freq_of_def)
  have eq: "{x. x \<notin> {k} \<and> freq_of c x = Some f} = {x. x \<notin> {} \<and> freq_of c x = Some f}" for f
    using n by auto
  show ?thesis
    using ok unfolding part_but_def eq by blast
qed

lemma part_but_update_node:
  assumes ok: "part_but {k} c" and nd: "1 \<le> nfreq nd"
  shows "part_but {k} (c\<lparr>nodeMap := AList.update k nd (nodeMap c)\<rparr>)"
proof -
  let ?c = "c\<lparr>nodeMap := AList.update k nd (nodeMap c)\<rparr>"
  have eq: "{x. x \<notin> {k} \<and> freq_of ?c x = Some f} = {x. x \<notin> {k} \<and> freq_of c x = Some f}" for f
    by (auto simp: freq_of_update_node)
  show ?thesis
  proof (rule part_butI, goal_cases)
    case 1 show ?case using part_butD(1) [OF ok] by (simp add: distinct_update)
  next
    case 2 show ?case using part_butD(2) [OF ok] by simp
  next
    case 3 then show ?case
      using nd part_butD(3) [OF ok] by (auto simp: freq_of_update_node split: if_splits)
  next
    case (4 x f) then show ?case
      using part_butD(4) [OF ok, of x f] by (auto simp: freq_of_update_node)
  next
    case (5 f l) then show ?case unfolding eq using part_butD(5,6) [OF ok, of f l] by simp
  qed
qed

lemma part_ok_erase:
  assumes ok: "part_but {k} c"
  shows "part_ok (c\<lparr>nodeMap := AList.delete k (nodeMap c)\<rparr>)"
proof -
  have fo: "freq_of (c\<lparr>nodeMap := AList.delete k (nodeMap c)\<rparr>) = (freq_of c)(k := None)"
    by (simp add: freq_of_def delete_conv' fun_eq_iff)
  show ?thesis
    by (rule part_butI, unfold fo)
      (use part_butD [OF ok] in \<open>auto simp: distinct_delete split: if_splits\<close>)
qed

lemma relocate_ok:
  assumes ok: "part_ok c" and k: "map_of (nodeMap c) k = Some nd" and g: "1 \<le> g (nfreq nd)"
  obtains c' where "relocate c k g = Inr c'" "part_ok c'"
    "nodeMap c' = AList.update k (nd\<lparr>nfreq := g (nfreq nd)\<rparr>) (nodeMap c)"
    "scalars c' = scalars c" "map_of (freqToFreqList c') (nfreq nd) \<noteq> None"
    "sentinelKey c' = sentinelKey c"
proof -
  obtain c1 where c1: "removeFromFreqList c k = Inr c1" "part_but {k} c1" "nodeMap c1 = nodeMap c"
    "scalars c1 = scalars c" "map_of (freqToFreqList c1) (nfreq nd) \<noteq> None"
    "sentinelKey c1 = sentinelKey c"
    by (rule removeFromFreqList_ok [OF ok k])
  let ?nd = "nd\<lparr>nfreq := g (nfreq nd)\<rparr>"
  let ?c2 = "c1\<lparr>nodeMap := AList.update k ?nd (nodeMap c1)\<rparr>"
  have ok2: "part_but {k} ?c2" using c1(2) g by (intro part_but_update_node) simp_all
  have k2: "map_of (nodeMap ?c2) k = Some ?nd" by (simp add: update_conv')
  obtain c' where c': "addToFreqList ?c2 k = Inr c'" "part_ok c'" "nodeMap c' = nodeMap ?c2"
    "scalars c' = scalars ?c2"
    "\<forall>f. map_of (freqToFreqList ?c2) f \<noteq> None \<longrightarrow> map_of (freqToFreqList c') f \<noteq> None"
    "sentinelKey c' = sentinelKey ?c2"
    by (rule addToFreqList_ok [OF ok2 k2])
  have "relocate c k g = Inr c'" using c1 c'(1) k by (simp add: relocate_def node_of_def)
  then show thesis using that c1 c' by (simp add: scalars_def)
qed

section \<open>Aging and the least frequency\<close>

definition is_min :: "('k, 'v) KLfuCache \<Rightarrow> int \<Rightarrow> bool" where
  "is_min c m \<longleftrightarrow> (\<exists>k. freq_of c k = Some m) \<and> (\<forall>k f. freq_of c k = Some f \<longrightarrow> m \<le> f)"

lemma map_fst_update_same: "map_of xs k = Some v \<Longrightarrow> map fst (AList.update k v' xs) = map fst xs"
  by (simp add: update_keys) (metis domI dom_map_of_conv_image_fst)

lemma length_update_le: "length (AList.update k v xs) \<le> Suc (length xs)"
  by (induction xs) auto

lemma length_update_same: "map_of xs k = Some v \<Longrightarrow> length (AList.update k v' xs) = length xs"
  by (metis length_map map_fst_update_same)

lemma age_all_ok:
  assumes "part_ok c" "distinct ks" "set ks \<subseteq> dom (map_of (nodeMap c))"
  shows "\<exists>c'. age_all c ks = Inr c' \<and> part_ok c' \<and> scalars c' = scalars c \<and>
    map fst (nodeMap c') = map fst (nodeMap c) \<and>
    (\<forall>k. map_of (nodeMap c') k = map_option (\<lambda>nd. if k \<in> set ks
       then nd\<lparr>nfreq := aged (maxAverageNum c) (nfreq nd)\<rparr> else nd) (map_of (nodeMap c) k))"
  using assms
proof (induction ks arbitrary: c)
  case Nil
  then show ?case by (simp add: option.map_ident)
next
  case (Cons k ks)
  then obtain nd where nd: "map_of (nodeMap c) k = Some nd" by auto
  have "1 \<le> aged (maxAverageNum c) (nfreq nd)" by (simp add: aged_def Let_def)
  then obtain c1 where c1: "relocate c k (aged (maxAverageNum c)) = Inr c1" "part_ok c1"
    "nodeMap c1 = AList.update k (nd\<lparr>nfreq := aged (maxAverageNum c) (nfreq nd)\<rparr>) (nodeMap c)"
    "scalars c1 = scalars c"
    by (rule relocate_ok [OF Cons.prems(1) nd])
  have m: "maxAverageNum c1 = maxAverageNum c" using c1(4) by (simp add: scalars_def)
  have "set ks \<subseteq> dom (map_of (nodeMap c1))"
    using Cons.prems(3) by (auto simp: c1(3) update_conv')
  from Cons.IH [OF c1(2) _ this] Cons.prems(2) obtain c' where
    c': "age_all c1 ks = Inr c'" "part_ok c'" "scalars c' = scalars c1"
      "map fst (nodeMap c') = map fst (nodeMap c1)"
      "\<forall>x. map_of (nodeMap c') x = map_option (\<lambda>nd. if x \<in> set ks
         then nd\<lparr>nfreq := aged (maxAverageNum c1) (nfreq nd)\<rparr> else nd) (map_of (nodeMap c1) x)" by auto
  show ?case
  proof (intro exI [of _ c'] conjI allI)
    show "age_all c (k # ks) = Inr c'" using c1(1) c'(1) by simp
    show "part_ok c'" "scalars c' = scalars c" using c' c1 by simp_all
    show "map fst (nodeMap c') = map fst (nodeMap c)"
      using c'(4) by (simp add: c1(3) map_fst_update_same [OF nd])
    show "map_of (nodeMap c') x = map_option (\<lambda>nd. if x \<in> set (k # ks)
       then nd\<lparr>nfreq := aged (maxAverageNum c) (nfreq nd)\<rparr> else nd) (map_of (nodeMap c) x)" for x
      using c'(5) [unfolded m] Cons.prems(2) nd by (auto simp: c1(3) update_conv')
  qed
qed

lemma fold_min_char:
  fixes a :: int
  shows "let r = fold (\<lambda>(f, l) m. if \<not> FreqList_isEmpty l then min m f else m) fl a in
     r \<le> a \<and> (\<forall>(f, l) \<in> set fl. l \<noteq> [] \<longrightarrow> r \<le> f) \<and>
     (r = a \<or> (\<exists>l. (r, l) \<in> set fl \<and> l \<noteq> []))"
proof (induction fl arbitrary: a)
  case Nil
  then show ?case by simp
next
  case (Cons x fl)
  obtain f l where x: "x = (f, l)" by (cases x)
  from Cons.IH [of "if l \<noteq> [] then min a f else a"] show ?case
    unfolding x Let_def FreqList_isEmpty_def by (auto simp: min_def split: if_splits)
qed

lemma updateMinFreq_ok:
  assumes ok: "part_ok c" and m: "is_min c m" "m < INT8_MAX"
  shows "updateMinFreq c = c\<lparr>minFreq := m\<rparr>"
proof -
  let ?r = "fold (\<lambda>(f, l) m. if \<not> FreqList_isEmpty l then min m f else m) (freqToFreqList c) INT8_MAX"
  have char: "?r \<le> INT8_MAX" "\<forall>(f, l) \<in> set (freqToFreqList c). l \<noteq> [] \<longrightarrow> ?r \<le> f"
    "?r = INT8_MAX \<or> (\<exists>l. (?r, l) \<in> set (freqToFreqList c) \<and> l \<noteq> [])"
    using fold_min_char [of "freqToFreqList c" INT8_MAX] by (simp_all add: Let_def)
  from m obtain k where k: "freq_of c k = Some m" by (auto simp: is_min_def)
  from part_butD(4) [OF ok _ k] obtain l where l: "map_of (freqToFreqList c) m = Some l" by blast
  with part_butD(6) [OF ok l] k have "(m, l) \<in> set (freqToFreqList c)" "l \<noteq> []"
    by (auto dest: map_of_SomeD)
  with char(2) have "?r \<le> m" by blast
  moreover have "m \<le> ?r"
  proof -
    from \<open>?r \<le> m\<close> m(2) have "?r \<noteq> INT8_MAX" by linarith
    with char(3) obtain l' where l': "(?r, l') \<in> set (freqToFreqList c)" "l' \<noteq> []" by blast
    then have "map_of (freqToFreqList c) ?r = Some l'" using part_butD(2) [OF ok] by simp
    from part_butD(6) [OF ok this] l'(2) obtain x where "freq_of c x = Some ?r" by fastforce
    with m(1) show ?thesis by (simp add: is_min_def)
  qed
  ultimately show ?thesis using m(2) by (simp add: updateMinFreq_def Let_def)
qed

section \<open>Sums and averages\<close>

lemma freq_sum_keys:
  "distinct (map fst nodes) \<Longrightarrow>
   freq_sum nodes = sum_list (map (\<lambda>k. nfreq (the (map_of nodes k))) (map fst nodes))"
proof (induction nodes)
  case (Cons x xs)
  have eq: "map (\<lambda>k. nfreq (the (map_of (x # xs) k))) (map fst xs)
      = map (\<lambda>k. nfreq (the (map_of xs k))) (map fst xs)"
  proof (rule map_cong [OF refl])
    fix k assume "k \<in> set (map fst xs)"
    with Cons.prems have "fst x \<noteq> k" by auto
    then show "nfreq (the (map_of (x # xs) k)) = nfreq (the (map_of xs k))" by (cases x) simp
  qed
  have hd: "nfreq (the (map_of (x # xs) (fst x))) = nfreq (snd x)" by (cases x) simp
  have "freq_sum xs = sum_list (map (\<lambda>k. nfreq (the (map_of xs k))) (map fst xs))"
    by (rule Cons.IH) (use Cons.prems in simp)
  moreover have "freq_sum (x # xs) = nfreq (snd x) + freq_sum xs" by (simp add: freq_sum_def)
  ultimately show ?case by (simp only: list.map sum_list.Cons eq hd)
qed (simp add: freq_sum_def)

lemma freq_sum_update:
  "distinct (map fst nodes) \<Longrightarrow> map_of nodes k = Some nd \<Longrightarrow>
   freq_sum (AList.update k nd' nodes) = freq_sum nodes - nfreq nd + nfreq nd'"
  by (induction nodes) (auto simp: freq_sum_def split: if_splits)

lemma freq_sum_insert:
  "map_of nodes k = None \<Longrightarrow> freq_sum (AList.update k nd' nodes) = freq_sum nodes + nfreq nd'"
  by (induction nodes) (auto simp: freq_sum_def split: if_splits)

lemma freq_sum_delete:
  "distinct (map fst nodes) \<Longrightarrow> map_of nodes k = Some nd \<Longrightarrow>
   freq_sum (AList.delete k nodes) = freq_sum nodes - nfreq nd"
proof (induction nodes)
  case (Cons x xs)
  show ?case
  proof (cases "fst x = k")
    case True
    with Cons.prems have "k \<notin> set (map fst xs)" by simp
    then have "AList.delete k xs = xs" by (simp add: delete_idem)
    with True Cons.prems show ?thesis by (cases x) (simp add: freq_sum_def)
  next
    case False
    with Cons show ?thesis by (cases x) (auto simp: freq_sum_def)
  qed
qed simp

lemma freq_sum_bounds:
  assumes "distinct (map fst (nodeMap c))" "is_min c m"
  shows "m * int (length (nodeMap c)) \<le> freq_sum (nodeMap c)"
proof -
  have "m * int (length ns) \<le> freq_sum ns" if "\<forall>x \<in> set ns. m \<le> nfreq (snd x)"
    for ns :: "('a \<times> 'b Node) list"
    using that by (induction ns) (auto simp: freq_sum_def algebra_simps)
  moreover have "\<forall>x \<in> set (nodeMap c). m \<le> nfreq (snd x)"
    using assms by (fastforce simp: is_min_def freq_of_def)
  ultimately show ?thesis by blast
qed

lemma freq_sum_ge:
  assumes "\<forall>x \<in> set ns. 1 \<le> nfreq (snd x)" "(k, nd) \<in> set ns"
  shows "nfreq nd \<le> freq_sum ns"
  using assms
proof (induction ns)
  case (Cons x ns)
  have "0 \<le> freq_sum ns" using Cons.prems(1) by (induction ns) (auto simp: freq_sum_def)
  with Cons show ?case by (auto simp: freq_sum_def)
qed simp

lemma average_exact:
  assumes "0 \<le> t" "t < 2 ^ 31" "nodes \<noteq> []"
  shows "average t nodes = t div int (length nodes)"
proof -
  let ?n = "int (length nodes)"
  have n: "0 < ?n" using assms(3) by simp
  have q: "0 \<le> t div ?n" "t div ?n \<le> t"
    using assms n zdiv_mono2 [of t 1 ?n] by (simp_all add: pos_imp_zdiv_nonneg_iff Suc_le_eq)
  have "sz_of_int t = nat t" using assms by (simp add: sz_of_int_def)
  then have "int (sz_of_int t div length nodes) = t div ?n" using assms by (simp add: zdiv_int)
  then show ?thesis using assms q by (simp add: average_def int_of_sz_def)
qed

section \<open>Counting an access\<close>

text \<open>The parameters for which the least frequency stays below \<open>INT8_MAX\<close>.\<close>

definition lfu_params :: "('k, 'v) KLfuCache \<Rightarrow> bool" where
  "lfu_params c \<longleftrightarrow> 0 < capacity c \<and> capacity c < 2 ^ 31 \<and> 2 \<le> maxAverageNum c \<and> maxAverageNum c \<le> 250"

text \<open>\<open>unordered_map\<close> visits every key once, in some order.\<close>

definition iter_ok :: "('k list \<Rightarrow> 'k list) \<Rightarrow> bool" where
  "iter_ok iter \<longleftrightarrow> (\<forall>ks. mset (iter ks) = mset ks)"

lemma aged_bounds:
  assumes "2 \<le> M" "M \<le> 250" "1 \<le> f" "f \<le> M + 1"
  shows "1 \<le> aged M f" "aged M f \<le> M" "aged M f < INT8_MAX"
proof -
  have "tdiv M 2 = M div 2" using assms by (simp add: tdiv_nonneg)
  then show "1 \<le> aged M f" "aged M f \<le> M" "aged M f < INT8_MAX"
    using assms by (auto simp: aged_def Let_def INT8_MAX_def)
qed

lemma aged_mono: "f \<le> g \<Longrightarrow> aged M f \<le> aged M g"
  by (auto simp: aged_def Let_def)

lemma aged_le: "2 \<le> M \<Longrightarrow> 1 \<le> f \<Longrightarrow> aged M f \<le> f"
  by (auto simp: aged_def Let_def tdiv_nonneg)

lemma freq_sum_aged:
  assumes keys: "map fst ns' = map fst ns" "distinct (map fst ns)"
    and nodes: "\<forall>k. map_of ns' k = map_option (\<lambda>nd. nd\<lparr>nfreq := h (nfreq nd)\<rparr>) (map_of ns k)"
    and h: "\<forall>nd. nd \<in> snd ` set ns \<longrightarrow> h (nfreq nd) \<le> nfreq nd"
  shows "freq_sum ns' \<le> freq_sum ns"
proof -
  have "nfreq (the (map_of ns' k)) \<le> nfreq (the (map_of ns k))" if "k \<in> set (map fst ns)" for k
  proof -
    from that obtain nd where "(k, nd) \<in> set ns" by auto
    with keys(2) have "map_of ns k = Some nd" "nd \<in> snd ` set ns" by force+
    with nodes h show ?thesis by simp
  qed
  then have "sum_list (map (\<lambda>k. nfreq (the (map_of ns' k))) (map fst ns))
      \<le> sum_list (map (\<lambda>k. nfreq (the (map_of ns k))) (map fst ns))"
    by (rule sum_list_mono)
  then show ?thesis
    using keys freq_sum_keys [of ns] freq_sum_keys [of ns'] by simp
qed

text \<open>
  \<open>addFreqNum\<close> either leaves the nodes alone, and then the least frequency is at most the allowed
  average, or ages every node, and then \<open>minFreq_\<close> is the new least frequency.
\<close>

lemma addFreqNum_ok:
  assumes ok: "part_ok c" and par: "lfu_params c" and it: "iter_ok iter"
    and tot: "freq_sum (nodeMap c) \<le> curTotalNum c + 1" "curTotalNum c + 1 < 2 ^ 31"
    and m: "is_min c m" "m \<le> maxAverageNum c + 1"
  obtains c' m' where "addFreqNum iter c = Inr c'" "part_ok c'" "lookup c' = lookup c"
    "map fst (nodeMap c') = map fst (nodeMap c)" "capacity c' = capacity c"
    "maxAverageNum c' = maxAverageNum c" "curTotalNum c' = curTotalNum c + 1"
    "freq_sum (nodeMap c') \<le> curTotalNum c'" "is_min c' m'" "1 \<le> m'" "m' \<le> m" "m' \<le> maxAverageNum c'"
    "minFreq c' = m' \<or> (minFreq c' = minFreq c \<and> freq_of c' = freq_of c \<and> m' = m)"
proof -
  let ?M = "maxAverageNum c" and ?T = "curTotalNum c + 1"
  let ?c1 = "c\<lparr>curTotalNum := ?T, curAverageNum := average ?T (nodeMap c)\<rparr>"
  have M: "2 \<le> ?M" "?M \<le> 250" using par by (auto simp: lfu_params_def)
  have ne: "nodeMap c \<noteq> []" using m(1) by (auto simp: is_min_def freq_of_def)
  then have n: "0 < int (length (nodeMap c))" by simp
  have m1: "1 \<le> m" using m(1) part_butD(3) [OF ok] by (auto simp: is_min_def)
  have mn: "m * int (length (nodeMap c)) \<le> freq_sum (nodeMap c)"
    by (rule freq_sum_bounds [OF part_butD(1) [OF ok] m(1)])
  moreover have "0 \<le> m * int (length (nodeMap c))" using m1 n by simp
  ultimately have avg: "average ?T (nodeMap c) = ?T div int (length (nodeMap c))"
    using tot ne by (intro average_exact) auto
  have ok1: "part_ok ?c1" using ok by (rule part_but_frame) simp_all
  have fo1: "freq_of ?c1 = freq_of c" "lookup ?c1 = lookup c"
    by (simp_all add: freq_of_def lookup_def fun_eq_iff)
  show thesis
  proof (cases "?M < average ?T (nodeMap c)")
    case False
    have "m \<le> ?M"
    proof (rule ccontr)
      assume "\<not> m \<le> ?M"
      then have "(?M + 1) * int (length (nodeMap c)) \<le> m * int (length (nodeMap c))"
        by (intro mult_right_mono) auto
      with mn tot(1) have "(?M + 1) * int (length (nodeMap c)) \<le> ?T" by linarith
      then have "(?M + 1) * int (length (nodeMap c)) div int (length (nodeMap c)) \<le> ?T div int (length (nodeMap c))"
        using n by (rule zdiv_mono1)
      then have "?M + 1 \<le> ?T div int (length (nodeMap c))" using n by simp
      with False avg show False by simp
    qed
    then show thesis
      using False ok1 fo1 m(1) m1 tot
      by (intro that [of ?c1 m]) (auto simp: addFreqNum_def Let_def is_min_def)
  next
    case True
    let ?ks = "iter (map fst (nodeMap c))"
    have ms: "mset ?ks = mset (map fst (nodeMap c))" using it by (auto simp: iter_ok_def)
    then have sk: "set ?ks = set (map fst (nodeMap c))" by (metis set_mset_mset)
    have dk: "distinct ?ks" using ms part_butD(1) [OF ok] by (metis mset_eq_imp_distinct_iff)
    have dom: "set ?ks \<subseteq> dom (map_of (nodeMap ?c1))" using sk by (simp add: dom_map_of_conv_image_fst)
    have M1: "maxAverageNum ?c1 = ?M" "nodeMap ?c1 = nodeMap c" by simp_all
    from age_all_ok [OF ok1 dk dom, unfolded M1] obtain c2 where c2: "age_all ?c1 ?ks = Inr c2" "part_ok c2"
      "scalars c2 = scalars ?c1" "map fst (nodeMap c2) = map fst (nodeMap c)"
      "\<forall>k. map_of (nodeMap c2) k = map_option (\<lambda>nd. if k \<in> set ?ks
         then nd\<lparr>nfreq := aged ?M (nfreq nd)\<rparr> else nd) (map_of (nodeMap c) k)" by blast
    have nd2: "\<forall>k. map_of (nodeMap c2) k = map_option (\<lambda>nd. nd\<lparr>nfreq := aged ?M (nfreq nd)\<rparr>) (map_of (nodeMap c) k)"
    proof
      fix k
      show "map_of (nodeMap c2) k = map_option (\<lambda>nd. nd\<lparr>nfreq := aged ?M (nfreq nd)\<rparr>) (map_of (nodeMap c) k)"
      proof (cases "map_of (nodeMap c) k")
        case (Some nd)
        then have "k \<in> fst ` set (nodeMap c)" by (metis domI dom_map_of_conv_image_fst)
        then have "k \<in> set ?ks" using sk by simp
        then show ?thesis using spec [OF c2(5), of k] Some by simp
      qed (use c2(5) in simp)
    qed
    have fo2: "freq_of c2 k = map_option (aged ?M) (freq_of c k)" for k
      using nd2 by (simp add: freq_of_def option.map_comp comp_def)
    have lo2: "lookup c2 = lookup c"
      using nd2 by (simp add: lookup_def fun_eq_iff option.map_comp comp_def)
    have min2: "is_min c2 (aged ?M m)"
      using m(1) by (auto simp: is_min_def fo2 intro: aged_mono)
    have sum2: "freq_sum (nodeMap c2) \<le> freq_sum (nodeMap c)"
    proof (rule freq_sum_aged [OF c2(4) part_butD(1) [OF ok] nd2], intro allI impI)
      fix nd assume "nd \<in> snd ` set (nodeMap c)"
      then obtain k where "map_of (nodeMap c) k = Some nd" using part_butD(1) [OF ok] by force
      then have "1 \<le> nfreq nd" using part_butD(3) [OF ok, of k "nfreq nd"] by (simp add: freq_of_def)
      then show "aged ?M (nfreq nd) \<le> nfreq nd" using M by (intro aged_le)
    qed
    note ab = aged_bounds [OF M m1 m(2)] aged_le [OF M(1) m1]
    let ?c' = "c2\<lparr>minFreq := aged ?M m\<rparr>"
    have um: "updateMinFreq c2 = ?c'" by (rule updateMinFreq_ok [OF c2(2) min2 ab(3)])
    have "addFreqNum iter c = Inr ?c'"
      using True ne c2(1) um by (simp add: addFreqNum_def handleOverMaxAverageNum_def Let_def)
    moreover have "part_ok ?c'" using c2(2) by (rule part_but_frame) simp_all
    moreover have "lookup ?c' = lookup c" using lo2 by (simp add: lookup_def fun_eq_iff)
    moreover have "is_min ?c' (aged ?M m)" using min2 by (simp add: is_min_def freq_of_def)
    moreover have "capacity ?c' = capacity c" "maxAverageNum ?c' = ?M" "curTotalNum ?c' = ?T"
      using c2(3) by (simp_all add: scalars_def)
    ultimately show thesis
      using that [of ?c' "aged ?M m"] ab c2(4) sum2 tot(1) by auto
  qed
qed

section \<open>The operations of the cache\<close>

text \<open>
  The invariant between operations: the lists partition the keys, the node count is within the
  capacity, the frequencies add up to at most \<open>curTotalNum_\<close>, and \<open>minFreq_\<close> is the least frequency
  and within the allowed average whenever there is a node.
\<close>

definition lfu_ok :: "('k, 'v) KLfuCache \<Rightarrow> bool" where
  "lfu_ok c \<longleftrightarrow> part_ok c \<and> lfu_params c \<and> int (length (nodeMap c)) \<le> capacity c \<and>
     freq_sum (nodeMap c) \<le> curTotalNum c \<and> 1 \<le> minFreq c \<and>
     (nodeMap c \<noteq> [] \<longrightarrow> is_min c (minFreq c) \<and> minFreq c \<le> maxAverageNum c)"

lemma lfu_okD:
  assumes "lfu_ok c"
  shows "part_ok c" "lfu_params c" "int (length (nodeMap c)) \<le> capacity c"
    "freq_sum (nodeMap c) \<le> curTotalNum c" "1 \<le> minFreq c"
    "nodeMap c \<noteq> [] \<Longrightarrow> is_min c (minFreq c)" "nodeMap c \<noteq> [] \<Longrightarrow> minFreq c \<le> maxAverageNum c"
  using assms unfolding lfu_ok_def by blast+

lemma lfu_okI:
  assumes "part_ok c" "lfu_params c" "int (length (nodeMap c)) \<le> capacity c"
    "freq_sum (nodeMap c) \<le> curTotalNum c" "1 \<le> minFreq c"
    "nodeMap c \<noteq> [] \<Longrightarrow> is_min c (minFreq c) \<and> minFreq c \<le> maxAverageNum c"
  shows "lfu_ok c"
  using assms unfolding lfu_ok_def by blast

lemma freq_sum_nonneg:
  assumes "part_but S c"
  shows "0 \<le> freq_sum (nodeMap c)"
proof -
  have "0 \<le> nfreq (snd x)" if "x \<in> set (nodeMap c)" for x
  proof -
    from that part_butD(1) [OF assms] have "map_of (nodeMap c) (fst x) = Some (snd x)" by simp
    then have "freq_of c (fst x) = Some (nfreq (snd x))" by (simp add: freq_of_def)
    from part_butD(3) [OF assms this] show ?thesis by simp
  qed
  then show ?thesis unfolding freq_sum_def by (intro sum_list_nonneg) auto
qed

lemma KLfuCache_new_ok:
  assumes "0 < cap" "cap < 2 ^ 31" "2 \<le> maxAvg" "maxAvg \<le> 250"
  shows "lfu_ok (KLfuCache_new sk cap maxAvg)"
  using assms
  by (intro lfu_okI part_butI)
    (auto simp: KLfuCache_new_def lfu_params_def freq_sum_def INT8_MAX_def freq_of_def)

lemma KLfuCache_purge_ok:
  assumes "lfu_ok c"
  shows "lfu_ok (KLfuCache_purge c)"
  using assms freq_sum_nonneg [of "{}" c]
  by (intro lfu_okI part_butI)
    (auto simp: KLfuCache_purge_def lfu_params_def freq_sum_def freq_of_def lfu_ok_def)

text \<open>After the move of the accessed node the (possibly incremented) \<open>minFreq_\<close> is again the least frequency.\<close>

lemma is_min_bump:
  assumes ok: "part_ok c1" and min: "is_min c m" and k: "freq_of c k = Some f"
    and fo: "freq_of c1 = (freq_of c)(k \<mapsto> f + 1)"
    and l: "map_of (freqToFreqList c1) f = Some l"
  shows "is_min c1 (if f = m \<and> l = [] then m + 1 else m)"
proof (cases "f = m \<and> l = []")
  case True
  then have "{x. freq_of c1 x = Some m} = {}" using part_butD(6) [OF ok l] by auto
  then have none: "freq_of c1 x \<noteq> Some m" for x by blast
  have "m + 1 \<le> g" if "freq_of c1 x = Some g" for x g
  proof -
    have "m \<le> g" using that min fo k True by (auto simp: is_min_def split: if_splits)
    with none [of x] that show ?thesis by (cases "g = m") auto
  qed
  moreover have "freq_of c1 k = Some (m + 1)" using True fo by simp
  ultimately show ?thesis using True unfolding is_min_def by auto
next
  case False
  have "\<exists>x. freq_of c1 x = Some m"
  proof (cases "f = m")
    case True
    with False part_butD(6) [OF ok l] show ?thesis by (cases l) auto
  next
    case neq: False
    from min obtain x where x: "freq_of c x = Some m" by (auto simp: is_min_def)
    with k neq fo have "freq_of c1 x = Some m" by auto
    then show ?thesis by blast
  qed
  moreover have "m \<le> g" if "freq_of c1 x = Some g" for x g
    using that min fo k by (force simp: is_min_def split: if_splits)
  ultimately have "is_min c1 m" unfolding is_min_def by blast
  with False show ?thesis by auto
qed

lemma getInternal_ok:
  assumes ok: "lfu_ok c" and it: "iter_ok iter" and tot: "curTotalNum c + 1 < 2 ^ 31"
    and k: "map_of (nodeMap c) k = Some nd"
  obtains c' where "getInternal iter c k = Inr (nvalue nd, c')" "lfu_ok c'" "lookup c' = lookup c"
    "map fst (nodeMap c') = map fst (nodeMap c)" "capacity c' = capacity c"
    "curTotalNum c' = curTotalNum c + 1"
proof -
  note D = lfu_okD [OF ok]
  have fk: "freq_of c k = Some (nfreq nd)" using k by (simp add: freq_of_def)
  have ne: "nodeMap c \<noteq> []" using k by auto
  have f1: "1 \<le> nfreq nd + 1" using part_butD(3) [OF D(1) fk] by simp
  obtain c1 where c1: "relocate c k (\<lambda>f. f + 1) = Inr c1" "part_ok c1"
    "nodeMap c1 = AList.update k (nd\<lparr>nfreq := nfreq nd + 1\<rparr>) (nodeMap c)"
    "scalars c1 = scalars c" "map_of (freqToFreqList c1) (nfreq nd) \<noteq> None"
    by (rule relocate_ok [of c k nd "\<lambda>f. f + 1", OF D(1) k f1])
  from c1(5) obtain l where l: "map_of (freqToFreqList c1) (nfreq nd) = Some l" by blast
  have fo: "freq_of c1 = (freq_of c)(k \<mapsto> nfreq nd + 1)"
    using c1(3) by (simp add: freq_of_def fun_eq_iff update_conv')
  have sc: "capacity c1 = capacity c" "minFreq c1 = minFreq c" "maxAverageNum c1 = maxAverageNum c"
    "curTotalNum c1 = curTotalNum c" using c1(4) by (simp_all add: scalars_def)
  let ?m = "if nfreq nd = minFreq c \<and> l = [] then minFreq c + 1 else minFreq c"
  let ?c2 = "c1\<lparr>minFreq := ?m\<rparr>"
  have "is_min c1 ?m" by (rule is_min_bump [OF c1(2) D(6) [OF ne] fk fo l])
  then have m2: "is_min ?c2 ?m" by (simp add: is_min_def freq_of_def)
  have ok2: "part_ok ?c2" using c1(2) by (rule part_but_frame) simp_all
  have par2: "lfu_params ?c2" using D(2) sc by (simp add: lfu_params_def)
  have "freq_sum (nodeMap ?c2) = freq_sum (nodeMap c) + 1"
    using freq_sum_update [OF part_butD(1) [OF D(1)] k] c1(3) by simp
  then have t2: "freq_sum (nodeMap ?c2) \<le> curTotalNum ?c2 + 1" "curTotalNum ?c2 + 1 < 2 ^ 31"
    using D(4) tot sc by simp_all
  have le2: "?m \<le> maxAverageNum ?c2 + 1" using D(7) [OF ne] sc by simp
  obtain c' m' where c': "addFreqNum iter ?c2 = Inr c'" "part_ok c'" "lookup c' = lookup ?c2"
    "map fst (nodeMap c') = map fst (nodeMap ?c2)" "capacity c' = capacity ?c2"
    "maxAverageNum c' = maxAverageNum ?c2" "curTotalNum c' = curTotalNum ?c2 + 1"
    "freq_sum (nodeMap c') \<le> curTotalNum c'" "is_min c' m'" "1 \<le> m'" "m' \<le> maxAverageNum c'"
    "minFreq c' = m' \<or> (minFreq c' = minFreq ?c2 \<and> freq_of c' = freq_of ?c2 \<and> m' = ?m)"
    by (rule addFreqNum_ok [OF ok2 par2 it t2 m2 le2])
  have mf: "minFreq c' = m'" using c'(12) by auto
  have keys: "map fst (nodeMap c') = map fst (nodeMap c)"
    using c'(4) c1(3) map_fst_update_same [OF k] by simp
  then have len: "length (nodeMap c') = length (nodeMap c)" by (metis length_map)
  have "lfu_ok c'"
    using c' mf D(2,3) sc len by (intro lfu_okI) (auto simp: lfu_params_def)
  moreover have "lookup c' = lookup c"
    using c'(3) c1(3) k by (simp add: lookup_def fun_eq_iff update_conv')
  moreover have "c1\<lparr>minFreq := minFreq c\<rparr> = c1" using sc by (cases c1) simp
  then have eq2: "?c2 = (if nfreq nd = minFreq c \<and> l = [] then c1\<lparr>minFreq := minFreq c + 1\<rparr> else c1)"
    by simp
  have "getInternal iter c k = Inr (nvalue nd, c')"
    using k c1(1) l c'(1) [unfolded eq2] sc
    by (auto simp: getInternal_def node_of_def list_of_def FreqList_isEmpty_def split: if_splits)
  moreover have "capacity c' = capacity c" "curTotalNum c' = curTotalNum c + 1" using c' sc by simp_all
  ultimately show thesis using that keys by blast
qed

text \<open>The victim is the node at the front of the list of the least frequency.\<close>

definition is_victim :: "('k, 'v) KLfuCache \<Rightarrow> 'k \<Rightarrow> bool" where
  "is_victim c k \<longleftrightarrow>
     (\<exists>m l. is_min c m \<and> nodes_at c m = k # l \<and> set (k # l) = {x. freq_of c x = Some m})"

lemma kickOut_ok:
  assumes ok: "lfu_ok c" and ne: "nodeMap c \<noteq> []"
  obtains c' k where "kickOut c = Inr c'" "is_victim c k" "part_ok c'" "lfu_params c'"
    "length (nodeMap c') < length (nodeMap c)" "freq_sum (nodeMap c') \<le> curTotalNum c'"
    "curTotalNum c' \<le> curTotalNum c" "capacity c' = capacity c" "minFreq c' = minFreq c"
    "lookup c' = (lookup c)(k := None)" "dom (lookup c) \<noteq> {}" "lookup c k \<noteq> None"
proof -
  note D = lfu_okD [OF ok]
  let ?m = "minFreq c"
  from D(6) [OF ne] obtain x where x: "freq_of c x = Some ?m" by (auto simp: is_min_def)
  from part_butD(4) [OF D(1) _ x] obtain l0 where l0: "map_of (freqToFreqList c) ?m = Some l0" by blast
  from part_butD(6) [OF D(1) l0] x obtain k l where kl: "l0 = k # l" by (cases l0) auto
  have fk: "freq_of c k = Some ?m" using part_butD(6) [OF D(1) l0] kl by auto
  then obtain nd where nd: "map_of (nodeMap c) k = Some nd" "nfreq nd = ?m" by (auto simp: freq_of_iff)
  obtain c1 where c1: "removeFromFreqList c k = Inr c1" "part_but {k} c1" "nodeMap c1 = nodeMap c"
    "scalars c1 = scalars c" by (rule removeFromFreqList_ok [OF D(1) nd(1)])
  let ?c2 = "c1\<lparr>nodeMap := AList.delete k (nodeMap c1)\<rparr>"
  let ?c' = "decreaseFreqNum ?c2 (nfreq nd)"
  have "kickOut c = Inr ?c'"
    using l0 kl nd(1) c1(1)
    by (simp add: kickOut_def list_of_def node_of_def FreqList_getFirstNode_def)
  moreover have "is_victim c k"
    unfolding is_victim_def nodes_at_def using D(6) [OF ne] l0 kl part_butD(6) [OF D(1) l0] by auto
  moreover have "part_ok ?c'"
    by (rule part_but_frame [OF part_ok_erase [OF c1(2)]]) (simp_all add: decreaseFreqNum_def Let_def)
  moreover have "lfu_params ?c'" "capacity ?c' = capacity c" "minFreq ?c' = ?m"
    using D(2) c1(4) by (simp_all add: lfu_params_def decreaseFreqNum_def Let_def scalars_def)
  moreover have kin: "k \<in> fst ` set (nodeMap c)" using nd(1) by (metis domI dom_map_of_conv_image_fst)
  then have "length (nodeMap ?c') < length (nodeMap c)"
    using c1(3) by (auto simp: decreaseFreqNum_def Let_def AList.delete_eq intro: length_filter_less)
  moreover have "freq_sum (nodeMap ?c') \<le> curTotalNum ?c'" "curTotalNum ?c' \<le> curTotalNum c"
    using D(4,5) c1(3,4) nd(2) freq_sum_delete [OF part_butD(1) [OF D(1)] nd(1)]
    by (simp_all add: decreaseFreqNum_def Let_def scalars_def)
  moreover have "lookup ?c' = (lookup c)(k := None)"
    using c1(3) by (simp add: decreaseFreqNum_def Let_def lookup_def fun_eq_iff delete_conv')
  moreover have "lookup c k \<noteq> None" using nd(1) by (simp add: lookup_def)
  ultimately show thesis using that by blast
qed

text \<open>Linking a new node of frequency 1 and counting the access.\<close>

lemma insert_new_ok:
  assumes ok: "part_ok c" and par: "lfu_params c" and it: "iter_ok iter"
    and len: "int (length (nodeMap c)) < capacity c" and k: "map_of (nodeMap c) k = None"
    and tot: "freq_sum (nodeMap c) \<le> curTotalNum c" "curTotalNum c + 1 < 2 ^ 31" and mf: "1 \<le> minFreq c"
  obtains c' where
    "bind_r (addToFreqList
        (c\<lparr>nodeMap := AList.update k \<lparr>nfreq = 1, nvalue = v\<rparr> (nodeMap c)\<rparr>) k)
        (\<lambda>c2. bind_r (addFreqNum iter c2) (\<lambda>c3. Inr (c3\<lparr>minFreq := min (minFreq c3) 1\<rparr>))) = Inr c'"
    "lfu_ok c'" "lookup c' = (lookup c)(k \<mapsto> v)" "capacity c' = capacity c"
    "curTotalNum c' = curTotalNum c + 1"
proof -
  let ?nd = "\<lparr>nfreq = 1, nvalue = v\<rparr>"
  let ?c1 = "c\<lparr>nodeMap := AList.update k ?nd (nodeMap c)\<rparr>"
  have ok1: "part_but {k} ?c1"
    using part_but_update_node [OF part_but_absent [OF ok k], of ?nd] by simp
  have k1: "map_of (nodeMap ?c1) k = Some ?nd" by (simp add: update_conv')
  obtain c2 where c2: "addToFreqList ?c1 k = Inr c2" "part_ok c2" "nodeMap c2 = nodeMap ?c1"
    "scalars c2 = scalars ?c1" by (rule addToFreqList_ok [OF ok1 k1])
  have sc: "capacity c2 = capacity c" "minFreq c2 = minFreq c" "maxAverageNum c2 = maxAverageNum c"
    "curTotalNum c2 = curTotalNum c" using c2(4) by (simp_all add: scalars_def)
  have "freq_of c2 k = Some 1" using c2(3) by (simp add: freq_of_def update_conv')
  then have min2: "is_min c2 1" using part_butD(3) [OF c2(2)] by (auto simp: is_min_def)
  have par2: "lfu_params c2" using par sc by (simp add: lfu_params_def)
  have t2: "freq_sum (nodeMap c2) \<le> curTotalNum c2 + 1" "curTotalNum c2 + 1 < 2 ^ 31"
    using freq_sum_insert [OF k, of ?nd] c2(3) tot sc by simp_all
  have le2: "1 \<le> maxAverageNum c2 + 1" using par2 by (simp add: lfu_params_def)
  obtain c3 m' where c3: "addFreqNum iter c2 = Inr c3" "part_ok c3" "lookup c3 = lookup c2"
    "map fst (nodeMap c3) = map fst (nodeMap c2)" "capacity c3 = capacity c2"
    "maxAverageNum c3 = maxAverageNum c2" "curTotalNum c3 = curTotalNum c2 + 1"
    "freq_sum (nodeMap c3) \<le> curTotalNum c3" "is_min c3 m'" "1 \<le> m'" "m' \<le> 1" "m' \<le> maxAverageNum c3"
    "minFreq c3 = m' \<or> (minFreq c3 = minFreq c2 \<and> freq_of c3 = freq_of c2 \<and> m' = 1)"
    by (rule addFreqNum_ok [OF c2(2) par2 it t2 min2 le2])
  let ?c' = "c3\<lparr>minFreq := min (minFreq c3) 1\<rparr>"
  have m3: "min (minFreq c3) 1 = 1" using c3(10,11,13) mf sc by auto
  have "length (nodeMap c3) = length (nodeMap c2)" using c3(4) by (metis length_map)
  moreover have "length (nodeMap c2) \<le> Suc (length (nodeMap c))"
    using c2(3) by (simp add: length_update_le)
  ultimately have len3: "int (length (nodeMap ?c')) \<le> capacity c" using len by simp
  have "lfu_ok ?c'"
  proof (rule lfu_okI)
    show "part_ok ?c'" using c3(2) by (rule part_but_frame) simp_all
    show "lfu_params ?c'" using par2 c3(5,6) by (simp add: lfu_params_def)
    show "nodeMap ?c' \<noteq> [] \<Longrightarrow> is_min ?c' (minFreq ?c') \<and> minFreq ?c' \<le> maxAverageNum ?c'"
      using c3(9-12) m3 by (auto simp: is_min_def freq_of_def)
  qed (use c3(5,8) len3 sc m3 in simp_all)
  moreover have "lookup ?c' = (lookup c)(k \<mapsto> v)"
    using c3(3) c2(3) by (simp add: lookup_def fun_eq_iff update_conv')
  ultimately show thesis using that [of ?c'] c2(1) c3(1,5,7) sc by simp
qed

lemma putInternal_ok:
  assumes ok: "lfu_ok c" and it: "iter_ok iter" and tot: "curTotalNum c + 1 < 2 ^ 31"
    and k: "map_of (nodeMap c) k = None"
  obtains c' where "putInternal iter c k v = Inr c'" "lfu_ok c'" "capacity c' = capacity c"
    "curTotalNum c' \<le> curTotalNum c + 1"
    "if int (length (nodeMap c)) = capacity c
     then \<exists>x. is_victim c x \<and> lookup c x \<noteq> None \<and> lookup c' = (lookup c)(x := None, k \<mapsto> v)
     else lookup c' = (lookup c)(k \<mapsto> v)"
proof -
  note D = lfu_okD [OF ok]
  have cap: "0 < capacity c" "capacity c < 2 ^ 31" using D(2) by (auto simp: lfu_params_def)
  then have full: "length (nodeMap c) = sz_of_int (capacity c) \<longleftrightarrow> int (length (nodeMap c)) = capacity c"
    by (auto simp: sz_of_int_def)
  show thesis
  proof (cases "int (length (nodeMap c)) = capacity c")
    case True
    then have ne: "nodeMap c \<noteq> []" using cap by auto
    obtain c1 x where c1: "kickOut c = Inr c1" "is_victim c x" "part_ok c1" "lfu_params c1"
      "length (nodeMap c1) < length (nodeMap c)" "freq_sum (nodeMap c1) \<le> curTotalNum c1"
      "curTotalNum c1 \<le> curTotalNum c" "capacity c1 = capacity c" "minFreq c1 = minFreq c"
      "lookup c1 = (lookup c)(x := None)" "lookup c x \<noteq> None" by (rule kickOut_ok [OF ok ne])
    have "lookup c1 k = None" using c1(10) k by (simp add: lookup_def)
    then have k1: "map_of (nodeMap c1) k = None" by (simp add: lookup_def)
    have len1: "int (length (nodeMap c1)) < capacity c1" using True c1(5,8) by simp
    have tot1: "curTotalNum c1 + 1 < 2 ^ 31" "1 \<le> minFreq c1" using tot c1(7,9) D(5) by simp_all
    obtain c' where c': "bind_r (addToFreqList
        (c1\<lparr>nodeMap := AList.update k \<lparr>nfreq = 1, nvalue = v\<rparr> (nodeMap c1)\<rparr>) k)
        (\<lambda>c2. bind_r (addFreqNum iter c2) (\<lambda>c3. Inr (c3\<lparr>minFreq := min (minFreq c3) 1\<rparr>))) = Inr c'"
      "lfu_ok c'" "lookup c' = (lookup c1)(k \<mapsto> v)" "capacity c' = capacity c1"
      "curTotalNum c' = curTotalNum c1 + 1"
      by (rule insert_new_ok [OF c1(3,4) it len1 k1 c1(6) tot1, of v])
    then have "putInternal iter c k v = Inr c'" using True full c1(1) by (simp add: putInternal_def)
    then show thesis using that [of c'] c' c1 True by auto
  next
    case False
    then have len: "int (length (nodeMap c)) < capacity c" using D(3) by simp
    obtain c' where c': "bind_r (addToFreqList
        (c\<lparr>nodeMap := AList.update k \<lparr>nfreq = 1, nvalue = v\<rparr> (nodeMap c)\<rparr>) k)
        (\<lambda>c2. bind_r (addFreqNum iter c2) (\<lambda>c3. Inr (c3\<lparr>minFreq := min (minFreq c3) 1\<rparr>))) = Inr c'"
      "lfu_ok c'" "lookup c' = (lookup c)(k \<mapsto> v)" "capacity c' = capacity c"
      "curTotalNum c' = curTotalNum c + 1"
      by (rule insert_new_ok [OF D(1,2) it len k D(4) tot D(5), of v])
    then have "putInternal iter c k v = Inr c'" using False full by (simp add: putInternal_def)
    then show thesis using that [of c'] c' False by simp
  qed
qed

lemma KLfuCache_put_ok:
  assumes ok: "lfu_ok c" and it: "iter_ok iter" and tot: "curTotalNum c + 1 < 2 ^ 31"
  obtains c' where "KLfuCache_put iter c k v = Inr c'" "lfu_ok c'" "capacity c' = capacity c"
    "curTotalNum c' \<le> curTotalNum c + 1"
    "if lookup c k = None \<and> int (length (nodeMap c)) = capacity c
     then \<exists>x. is_victim c x \<and> lookup c x \<noteq> None \<and> lookup c' = (lookup c)(x := None, k \<mapsto> v)
     else lookup c' = (lookup c)(k \<mapsto> v)"
proof (cases "map_of (nodeMap c) k")
  case None
  obtain c' where c': "putInternal iter c k v = Inr c'" "lfu_ok c'" "capacity c' = capacity c"
    "curTotalNum c' \<le> curTotalNum c + 1"
    "if int (length (nodeMap c)) = capacity c
     then \<exists>x. is_victim c x \<and> lookup c x \<noteq> None \<and> lookup c' = (lookup c)(x := None, k \<mapsto> v)
     else lookup c' = (lookup c)(k \<mapsto> v)" by (rule putInternal_ok [OF ok it tot None])
  have "capacity c \<noteq> 0" using lfu_okD(2) [OF ok] by (simp add: lfu_params_def)
  then have "KLfuCache_put iter c k v = Inr c'" using None c'(1) by (simp add: KLfuCache_put_def)
  then show thesis using that [of c'] c'(2-5) None by (simp add: lookup_def)
next
  case (Some nd)
  note D = lfu_okD [OF ok]
  let ?nd = "nd\<lparr>nvalue := v\<rparr>"
  let ?c1 = "c\<lparr>nodeMap := AList.update k ?nd (nodeMap c)\<rparr>"
  have fo: "freq_of ?c1 = freq_of c"
    using Some by (simp add: freq_of_def fun_eq_iff update_conv')
  have "nodeMap c \<noteq> []" using Some by auto
  moreover have keys: "map fst (nodeMap ?c1) = map fst (nodeMap c)" "length (nodeMap ?c1) = length (nodeMap c)"
    using map_fst_update_same [OF Some, of ?nd] length_update_same [OF Some, of ?nd] by simp_all
  moreover have "freqToFreqList ?c1 = freqToFreqList c" by simp
  then have "part_ok ?c1 = part_ok c" unfolding part_but_def fo keys(1) by (rule ssubst) (rule refl)
  then have "part_ok ?c1" using D(1) by simp
  moreover have "freq_sum (nodeMap ?c1) = freq_sum (nodeMap c)"
    using freq_sum_update [OF part_butD(1) [OF D(1)] Some, of ?nd] by simp
  ultimately have ok1: "lfu_ok ?c1"
    using D fo by (intro lfu_okI) (simp_all add: lfu_params_def is_min_def)
  have tot1: "curTotalNum ?c1 + 1 < 2 ^ 31" and k1: "map_of (nodeMap ?c1) k = Some ?nd"
    using tot by (simp_all add: update_conv')
  obtain c' where c': "getInternal iter ?c1 k = Inr (nvalue ?nd, c')" "lfu_ok c'" "lookup c' = lookup ?c1"
    "capacity c' = capacity ?c1" "curTotalNum c' = curTotalNum ?c1 + 1"
    by (rule getInternal_ok [OF ok1 it tot1 k1])
  have "capacity c \<noteq> 0" using D(2) by (simp add: lfu_params_def)
  then have "KLfuCache_put iter c k v = Inr c'" using Some c'(1) by (simp add: KLfuCache_put_def)
  moreover have "lookup ?c1 = (lookup c)(k \<mapsto> v)" by (simp add: lookup_def fun_eq_iff update_conv')
  ultimately show thesis using that [of c'] c'(2-5) Some by (simp add: lookup_def)
qed

lemma KLfuCache_get_ok:
  assumes ok: "lfu_ok c" and it: "iter_ok iter" and tot: "curTotalNum c + 1 < 2 ^ 31"
  obtains c' where "KLfuCache_get iter c k = Inr (lookup c k, c')" "lfu_ok c'" "lookup c' = lookup c"
    "map fst (nodeMap c') = map fst (nodeMap c)" "capacity c' = capacity c"
    "curTotalNum c' \<le> curTotalNum c + 1"
proof (cases "map_of (nodeMap c) k")
  case None
  then show thesis using that [of c] ok by (simp add: KLfuCache_get_def lookup_def)
next
  case (Some nd)
  show thesis
    by (rule getInternal_ok [OF ok it tot Some])
      (use that Some in \<open>simp add: KLfuCache_get_def lookup_def\<close>)
qed

section \<open>The order of the lists\<close>

text \<open>
  What \<open>put\<close> does to the lists when it does not age: a node that is accessed moves from its place to the
  back of the list of the next frequency, a new one goes to the back of the list of frequency 1, and an
  eviction takes the front of the list of the least frequency.
\<close>

definition put_nodes :: "('k, 'v) KLfuCache \<Rightarrow> 'k \<Rightarrow> int \<Rightarrow> 'k list" where
  "put_nodes c k =
     (let enter = (\<lambda>f q. q(f := q f @ [k]))
      in case freq_of c k of
           Some f \<Rightarrow> enter (f + 1) ((nodes_at c)(f := remove1 k (nodes_at c f)))
         | None \<Rightarrow>
             enter 1 (if int (length (nodeMap c)) = capacity c
                      then (nodes_at c)(minFreq c := tl (nodes_at c (minFreq c))) else nodes_at c))"

lemma age_all_average: "age_all c ks = Inr c' \<Longrightarrow> curAverageNum c' = curAverageNum c"
proof (induction ks arbitrary: c)
  case (Cons k ks)
  from Cons.prems obtain c1 where c1: "relocate c k (aged (maxAverageNum c)) = Inr c1" "age_all c1 ks = Inr c'"
    by (auto simp: bind_r_Inr_iff)
  from c1(1) obtain nd where "map_of (nodeMap c) k = Some nd"
    by (auto simp: relocate_def removeFromFreqList_def node_of_def bind_r_Inr_iff split: option.splits)
  then show ?case using Cons.IH [OF c1(2)] relocate_nodes(2) [OF c1(1)] by (simp add: scalars_def)
qed simp

lemma addFreqNum_nodes:
  assumes "addFreqNum iter c = Inr c'" "curAverageNum c' \<le> maxAverageNum c"
  shows "nodes_at c' = nodes_at c"
proof -
  let ?c1 = "c\<lparr>curTotalNum := curTotalNum c + 1, curAverageNum := average (curTotalNum c + 1) (nodeMap c)\<rparr>"
  have e: "(if maxAverageNum c < curAverageNum ?c1 then handleOverMaxAverageNum iter ?c1 else Inr ?c1) = Inr c'"
    using assms(1) by (simp add: addFreqNum_def Let_def)
  have "curAverageNum c' = curAverageNum ?c1" if "handleOverMaxAverageNum iter ?c1 = Inr c'"
    using that by (auto simp: handleOverMaxAverageNum_def bind_r_Inr_iff updateMinFreq_def Let_def split: if_splits dest!: age_all_average)
  then have "c' = ?c1" using e assms(2) by (auto split: if_splits)
  then show ?thesis by (simp add: nodes_at_def fun_eq_iff)
qed

lemma kickOut_nodes:
  assumes ok: "lfu_ok c" and ne: "nodeMap c \<noteq> []" and e: "kickOut c = Inr c'"
  shows "nodes_at c' = (nodes_at c)(minFreq c := tl (nodes_at c (minFreq c)))" "maxAverageNum c' = maxAverageNum c"
proof -
  note D = lfu_okD [OF ok]
  let ?m = "minFreq c"
  from D(6) [OF ne] obtain x where x: "freq_of c x = Some ?m" by (auto simp: is_min_def)
  from part_butD(4) [OF D(1) _ x] obtain l0 where l0: "map_of (freqToFreqList c) ?m = Some l0" by blast
  from part_butD(6) [OF D(1) l0] x obtain k l where kl: "l0 = k # l" by (cases l0) auto
  have "freq_of c k = Some ?m" using part_butD(6) [OF D(1) l0] kl by auto
  then obtain nd where nd: "map_of (nodeMap c) k = Some nd" "nfreq nd = ?m" by (auto simp: freq_of_iff)
  from e l0 kl nd(1) obtain c1 where c1: "removeFromFreqList c k = Inr c1"
    "c' = decreaseFreqNum (c1\<lparr>nodeMap := AList.delete k (nodeMap c1)\<rparr>) (nfreq nd)"
    by (auto simp: kickOut_def list_of_def node_of_def FreqList_getFirstNode_def bind_r_Inr_iff)
  have "nodes_at c' = nodes_at c1" by (simp add: c1(2) nodes_at_def decreaseFreqNum_def Let_def fun_eq_iff)
  moreover have "nodes_at c ?m = k # l" using l0 kl by (simp add: nodes_at_def)
  ultimately show "nodes_at c' = (nodes_at c)(?m := tl (nodes_at c ?m))"
    using removeFromFreqList_nodes [OF c1(1) nd(1)] nd(2) by simp
  show "maxAverageNum c' = maxAverageNum c"
    using removeFromFreqList_nodes [OF c1(1) nd(1)] by (simp add: c1(2) decreaseFreqNum_def Let_def scalars_def)
qed

lemma getInternal_nodes:
  assumes e: "getInternal iter c k = Inr (v, c')" and k: "map_of (nodeMap c) k = Some nd"
    and avg: "curAverageNum c' \<le> maxAverageNum c"
  defines "q \<equiv> (nodes_at c)(nfreq nd := remove1 k (nodes_at c (nfreq nd)))"
  shows "nodes_at c' = q(nfreq nd + 1 := q (nfreq nd + 1) @ [k])"
proof -
  from e k obtain c1 c2 where c1: "relocate c k (\<lambda>f. f + 1) = Inr c1"
    and c2: "c2 = c1 \<or> c2 = c1\<lparr>minFreq := minFreq c1 + 1\<rparr>" "addFreqNum iter c2 = Inr c'"
    by (auto simp: getInternal_def node_of_def bind_r_Inr_iff split: if_splits)
  have m: "nodes_at c2 = nodes_at c1" "maxAverageNum c2 = maxAverageNum c1"
    using c2(1) by (auto simp: nodes_at_def fun_eq_iff)
  with relocate_nodes [OF c1 k] addFreqNum_nodes [OF c2(2)] avg show ?thesis by (simp add: q_def scalars_def)
qed

lemma putInternal_nodes:
  assumes ok: "lfu_ok c" and e: "putInternal iter c k v = Inr c'" and k: "map_of (nodeMap c) k = None"
    and avg: "curAverageNum c' \<le> maxAverageNum c"
  shows "nodes_at c' = put_nodes c k"
proof -
  have cap: "0 < capacity c" "capacity c < 2 ^ 31" using lfu_okD(2) [OF ok] by (auto simp: lfu_params_def)
  then have full: "length (nodeMap c) = sz_of_int (capacity c) \<longleftrightarrow> int (length (nodeMap c)) = capacity c"
    by (auto simp: sz_of_int_def)
  let ?n = "\<lambda>c1. c1\<lparr>nodeMap := AList.update k \<lparr>nfreq = 1, nvalue = v\<rparr> (nodeMap c1)\<rparr>"
  from e obtain c1 c2 c3 where c1: "(if int (length (nodeMap c)) = capacity c then kickOut c else Inr c) = Inr c1"
    and c2: "addToFreqList (?n c1) k = Inr c2" and c3: "addFreqNum iter c2 = Inr c3" "c' = c3\<lparr>minFreq := min (minFreq c3) 1\<rparr>"
    by (auto simp: putInternal_def bind_r_Inr_iff full)
  have q: "nodes_at c1 = (if int (length (nodeMap c)) = capacity c
      then (nodes_at c)(minFreq c := tl (nodes_at c (minFreq c))) else nodes_at c)" "maxAverageNum c1 = maxAverageNum c"
    using kickOut_nodes [OF ok _, of c1] c1 cap by (cases "nodeMap c = []"; auto split: if_splits)+
  have "map_of (nodeMap (?n c1)) k = Some \<lparr>nfreq = 1, nvalue = v\<rparr>" by (simp add: update_conv')
  note A = addToFreqList_nodes [OF c2 this]
  have "nodes_at (?n c1) = nodes_at c1" "nodes_at c' = nodes_at c3" by (simp_all add: nodes_at_def fun_eq_iff c3(2))
  moreover have "nodes_at c3 = nodes_at c2"
    by (rule addFreqNum_nodes [OF c3(1)]) (use avg c3(2) A q(2) in \<open>simp add: scalars_def\<close>)
  ultimately show ?thesis using A q(1) k by (simp add: put_nodes_def freq_of_def Let_def)
qed

lemma KLfuCache_put_nodes:
  assumes ok: "lfu_ok c" and e: "KLfuCache_put iter c k v = Inr c'"
    and avg: "curAverageNum c' \<le> maxAverageNum c"
  shows "nodes_at c' = put_nodes c k"
proof -
  have "capacity c \<noteq> 0" using lfu_okD(2) [OF ok] by (simp add: lfu_params_def)
  with e have p: "map_of (nodeMap c) k = None \<Longrightarrow> putInternal iter c k v = Inr c'"
    by (simp add: KLfuCache_put_def)
  show ?thesis
  proof (cases "map_of (nodeMap c) k")
    case None
    then show ?thesis using putInternal_nodes [OF ok p _ avg] by blast
  next
    case (Some nd)
    let ?c1 = "c\<lparr>nodeMap := AList.update k (nd\<lparr>nvalue := v\<rparr>) (nodeMap c)\<rparr>"
    have k1: "map_of (nodeMap ?c1) k = Some (nd\<lparr>nvalue := v\<rparr>)" by (simp add: update_conv')
    from e Some \<open>capacity c \<noteq> 0\<close> obtain w where g: "getInternal iter ?c1 k = Inr (w, c')"
      by (auto simp: KLfuCache_put_def bind_r_Inr_iff)
    have "nodes_at ?c1 = nodes_at c" by (simp add: nodes_at_def fun_eq_iff)
    then show ?thesis
      using getInternal_nodes [OF g k1] avg Some by (simp add: put_nodes_def freq_of_def Let_def)
  qed
qed

section \<open>The cache-policy interface\<close>

text \<open>
  \<open>KICachePolicy\<close> as an interface: \<open>put\<close> stores its binding and may drop others but never invents
  one, \<open>get\<close> answers the binding and changes none. What the implementation leaves open (the iteration
  order of the hash maps) is an argument \<open>e\<close> of both. A budget bounds the accesses (the counters are
  machine integers). Client programs are lists of calls; the answers of the \<open>get\<close>s are collected.
\<close>

datatype ('k, 'v) cop = CPut 'k 'v | CGet 'k

fun crun :: "('c \<Rightarrow> 'k \<Rightarrow> 'v \<Rightarrow> 'c result) \<Rightarrow> ('c \<Rightarrow> 'k \<Rightarrow> ('v option \<times> 'c) result) \<Rightarrow>
    'c \<Rightarrow> ('k, 'v) cop list \<Rightarrow> ('v option list \<times> 'c) result" where
  "crun put get c [] = Inr ([], c)"
| "crun put get c (CPut k v # ops) = bind_r (put c k v) (\<lambda>c1. crun put get c1 ops)"
| "crun put get c (CGet k # ops) =
     bind_r (get c k) (\<lambda>(r, c1). bind_r (crun put get c1 ops) (\<lambda>(rs, c2). Inr (r # rs, c2)))"

text \<open>Every answer is a miss or the value most recently put under that key.\<close>

fun coherent :: "('k \<Rightarrow> 'v option) \<Rightarrow> ('k, 'v) cop list \<Rightarrow> 'v option list \<Rightarrow> bool" where
  "coherent m [] rs \<longleftrightarrow> rs = []"
| "coherent m (CPut k v # ops) rs \<longleftrightarrow> coherent (m(k \<mapsto> v)) ops rs"
| "coherent m (CGet k # ops) [] \<longleftrightarrow> False"
| "coherent m (CGet k # ops) (r # rs) \<longleftrightarrow> (r = None \<or> r = m k) \<and> coherent m ops rs"

locale cache_policy =
  fixes put :: "'e \<Rightarrow> 'c \<Rightarrow> 'k \<Rightarrow> 'v \<Rightarrow> 'c result"
    and get :: "'e \<Rightarrow> 'c \<Rightarrow> 'k \<Rightarrow> ('v option \<times> 'c) result"
    and view :: "'e \<Rightarrow> 'c \<Rightarrow> 'k \<Rightarrow> 'v option"
    and env_ok :: "'e \<Rightarrow> bool"
    and ok :: "'c \<Rightarrow> bool"
    and used :: "'c \<Rightarrow> int"
    and budget :: int
  assumes put_law: "env_ok e \<Longrightarrow> ok c \<Longrightarrow> used c < budget \<Longrightarrow>
      \<exists>c'. put e c k v = Inr c' \<and> ok c' \<and> used c' \<le> used c + 1 \<and>
        view e c' k = Some v \<and> view e c' \<subseteq>\<^sub>m (view e c)(k \<mapsto> v)"
    and get_law: "env_ok e \<Longrightarrow> ok c \<Longrightarrow> used c < budget \<Longrightarrow>
      \<exists>c'. get e c k = Inr (view e c k, c') \<and> ok c' \<and> used c' \<le> used c + 1 \<and> view e c' = view e c"
begin

lemma put_get:
  assumes "env_ok e" "ok c" "used c + 1 < budget"
  shows "\<exists>c' c''. put e c k v = Inr c' \<and> get e c' k = Inr (Some v, c'')"
proof -
  obtain c' where c': "put e c k v = Inr c'" "ok c'" "used c' \<le> used c + 1" "view e c' k = Some v"
    using put_law [of e c k v] assms by auto
  then show ?thesis using get_law [of e c' k] assms by auto
qed

lemma crun_coherent:
  assumes "env_ok e" "ok c" "used c + int (length ops) \<le> budget" "view e c \<subseteq>\<^sub>m m"
  shows "\<exists>rs c'. crun (put e) (get e) c ops = Inr (rs, c') \<and> ok c' \<and> coherent m ops rs"
  using assms(2-)
proof (induction ops arbitrary: c m)
  case (Cons op ops)
  from Cons.prems have u: "used c < budget" by simp
  show ?case
  proof (cases op)
    case (CPut k v)
    from put_law [OF assms(1) Cons.prems(1) u, of k v] obtain c1 where
      c1: "put e c k v = Inr c1" "ok c1" "used c1 \<le> used c + 1" "view e c1 \<subseteq>\<^sub>m (view e c)(k \<mapsto> v)" by blast
    have "(view e c)(k \<mapsto> v) \<subseteq>\<^sub>m m(k \<mapsto> v)" using Cons.prems(3) by (simp add: map_le_upd)
    with c1(4) have le: "view e c1 \<subseteq>\<^sub>m m(k \<mapsto> v)" by (rule map_le_trans)
    have "used c1 + int (length ops) \<le> budget" using c1(3) Cons.prems(2) by simp
    from Cons.IH [OF c1(2) this le] obtain rs c' where
      "crun (put e) (get e) c1 ops = Inr (rs, c')" "ok c'" "coherent (m(k \<mapsto> v)) ops rs" by blast
    then show ?thesis using c1(1) by (simp add: CPut)
  next
    case (CGet k)
    from get_law [OF assms(1) Cons.prems(1) u, of k] obtain c1 where
      c1: "get e c k = Inr (view e c k, c1)" "ok c1" "used c1 \<le> used c + 1" "view e c1 = view e c" by blast
    from Cons.IH [OF c1(2), of m] c1 Cons.prems(2,3) obtain rs c' where
      r: "crun (put e) (get e) c1 ops = Inr (rs, c')" "ok c'" "coherent m ops rs" by auto
    have "view e c k = None \<or> view e c k = m k"
      using Cons.prems(3) by (cases "view e c k") (auto simp: map_le_def dom_def)
    then show ?thesis using r c1(1) by (auto simp: CGet)
  qed
qed auto

end

lemma KLfuCache_put_policy:
  assumes "lfu_ok c" "iter_ok iter" "curTotalNum c + 1 < 2 ^ 31"
  shows "\<exists>c'. KLfuCache_put iter c k v = Inr c' \<and> lfu_ok c' \<and> curTotalNum c' \<le> curTotalNum c + 1 \<and>
        lookup c' k = Some v \<and> lookup c' \<subseteq>\<^sub>m (lookup c)(k \<mapsto> v)"
proof -
  obtain c' where c': "KLfuCache_put iter c k v = Inr c'" "lfu_ok c'" "capacity c' = capacity c"
    "curTotalNum c' \<le> curTotalNum c + 1"
    "if lookup c k = None \<and> int (length (nodeMap c)) = capacity c
     then \<exists>x. is_victim c x \<and> lookup c x \<noteq> None \<and> lookup c' = (lookup c)(x := None, k \<mapsto> v)
     else lookup c' = (lookup c)(k \<mapsto> v)" by (rule KLfuCache_put_ok [OF assms])
  then have "lookup c' k = Some v \<and> lookup c' \<subseteq>\<^sub>m (lookup c)(k \<mapsto> v)"
    by (auto simp: map_le_def split: if_splits)
  with c' show ?thesis by blast
qed

lemma KLfuCache_get_policy:
  assumes "lfu_ok c" "iter_ok iter" "curTotalNum c + 1 < 2 ^ 31"
  shows "\<exists>c'. KLfuCache_get iter c k = Inr (lookup c k, c') \<and> lfu_ok c' \<and>
      curTotalNum c' \<le> curTotalNum c + 1 \<and> lookup c' = lookup c"
  by (rule KLfuCache_get_ok [OF assms, of k]) blast

interpretation lfu: cache_policy KLfuCache_put KLfuCache_get "\<lambda>_. lookup" iter_ok lfu_ok curTotalNum "2 ^ 31 - 1"
  by unfold_locales (simp_all add: KLfuCache_put_policy KLfuCache_get_policy)

section \<open>The sharded cache\<close>

text \<open>
  \<open>std::hash\<close> and the number of hardware threads are parameters. The quotient
  \<open>capacity_ / static_cast<double>(sliceNum_)\<close> is below \<open>2 ^ 53\<close> for every capacity up to that bound,
  where its ceiling is the exact one; the ceiling is then narrowed to the \<open>int\<close> the slice takes.
\<close>

record ('k, 'v) KHashLfuCache =
  hcapacity :: nat
  sliceNum :: int
  lfuSliceCaches :: "('k, 'v) KLfuCache list"

definition KHashLfuCache_new :: "int \<Rightarrow> 'k \<Rightarrow> nat \<Rightarrow> int \<Rightarrow> int \<Rightarrow> ('k, 'v) KHashLfuCache" where
  "KHashLfuCache_new hw sk cap n maxAvg =
     (let sn = (if 0 < n then n else hw);
          sliceSize = nat ((int cap + sn - 1) div sn)
      in \<lparr>hcapacity = cap, sliceNum = sn,
          lfuSliceCaches = map (\<lambda>_. KLfuCache_new sk (int_of_sz sliceSize) maxAvg) [0 ..< nat sn]\<rparr>)"

definition sliceIndex :: "('k \<Rightarrow> nat) \<Rightarrow> ('k, 'v) KHashLfuCache \<Rightarrow> 'k \<Rightarrow> nat" where
  "sliceIndex hsh h k = hsh k mod sz_of_int (sliceNum h)"

definition KHashLfuCache_put :: "('k list \<Rightarrow> 'k list) \<times> ('k \<Rightarrow> nat) \<Rightarrow> ('k, 'v) KHashLfuCache \<Rightarrow>
    'k \<Rightarrow> 'v \<Rightarrow> ('k, 'v) KHashLfuCache result" where
  "KHashLfuCache_put = (\<lambda>(iter, hsh) h k v.
     (let i = sliceIndex hsh h k
      in if i < length (lfuSliceCaches h)
         then bind_r (KLfuCache_put iter (lfuSliceCaches h ! i) k v) (\<lambda>c.
                Inr (h\<lparr>lfuSliceCaches := (lfuSliceCaches h)[i := c]\<rparr>))
         else Inl OutOfBounds))"

definition KHashLfuCache_get :: "('k list \<Rightarrow> 'k list) \<times> ('k \<Rightarrow> nat) \<Rightarrow> ('k, 'v) KHashLfuCache \<Rightarrow>
    'k \<Rightarrow> ('v option \<times> ('k, 'v) KHashLfuCache) result" where
  "KHashLfuCache_get = (\<lambda>(iter, hsh) h k.
     (let i = sliceIndex hsh h k
      in if i < length (lfuSliceCaches h)
         then bind_r (KLfuCache_get iter (lfuSliceCaches h ! i) k) (\<lambda>(r, c).
                Inr (r, h\<lparr>lfuSliceCaches := (lfuSliceCaches h)[i := c]\<rparr>))
         else Inl OutOfBounds))"

definition KHashLfuCache_get_or :: "('k list \<Rightarrow> 'k list) \<times> ('k \<Rightarrow> nat) \<Rightarrow> 'v \<Rightarrow>
    ('k, 'v) KHashLfuCache \<Rightarrow> 'k \<Rightarrow> ('v \<times> ('k, 'v) KHashLfuCache) result" where
  "KHashLfuCache_get_or e dflt h k =
     bind_r (KHashLfuCache_get e h k) (\<lambda>(r, h1). Inr (case r of None \<Rightarrow> dflt | Some v \<Rightarrow> v, h1))"

definition KHashLfuCache_purge :: "('k, 'v) KHashLfuCache \<Rightarrow> ('k, 'v) KHashLfuCache" where
  "KHashLfuCache_purge h = h\<lparr>lfuSliceCaches := map KLfuCache_purge (lfuSliceCaches h)\<rparr>"

text \<open>The sharded cache is a cache policy for every hash function.\<close>

definition hash_ok :: "('k, 'v) KHashLfuCache \<Rightarrow> bool" where
  "hash_ok h \<longleftrightarrow> 0 < sliceNum h \<and> sliceNum h < 2 ^ 31 \<and>
     length (lfuSliceCaches h) = nat (sliceNum h) \<and> (\<forall>c \<in> set (lfuSliceCaches h). lfu_ok c)"

definition hash_used :: "('k, 'v) KHashLfuCache \<Rightarrow> int" where
  "hash_used h = sum_list (map curTotalNum (lfuSliceCaches h))"

definition hash_lookup :: "('k \<Rightarrow> nat) \<Rightarrow> ('k, 'v) KHashLfuCache \<Rightarrow> 'k \<Rightarrow> 'v option" where
  "hash_lookup hsh h k = lookup (lfuSliceCaches h ! sliceIndex hsh h k) k"

definition hash_env_ok :: "('k list \<Rightarrow> 'k list) \<times> ('k \<Rightarrow> nat) \<Rightarrow> bool" where
  "hash_env_ok e = iter_ok (fst e)"

lemma sliceIndex_less:
  assumes "hash_ok h"
  shows "sliceIndex hsh h k < length (lfuSliceCaches h)"
proof -
  have "0 < sliceNum h" "sliceNum h < 2 ^ 31" "length (lfuSliceCaches h) = nat (sliceNum h)"
    using assms by (simp_all add: hash_ok_def)
  moreover from this have "sz_of_int (sliceNum h) = nat (sliceNum h)" by (simp add: sz_of_int_def)
  ultimately show ?thesis by (simp add: sliceIndex_def)
qed

lemma sum_list_update_le:
  fixes g :: "'a \<Rightarrow> int"
  assumes "i < length xs" "g x \<le> g (xs ! i) + 1"
  shows "sum_list (map g (xs[i := x])) \<le> sum_list (map g xs) + 1"
  using assms
proof (induction xs arbitrary: i)
  case (Cons y ys)
  then show ?case by (cases i) auto
qed simp

lemma lfu_ok_total_nonneg: "lfu_ok c \<Longrightarrow> 0 \<le> curTotalNum c"
  using freq_sum_nonneg [of "{}" c] lfu_okD(1,4) [of c] by fastforce

lemma hash_slice:
  assumes "hash_ok h" "hash_used h < 2 ^ 31 - 1"
  shows "lfu_ok (lfuSliceCaches h ! sliceIndex hsh h k)"
    "curTotalNum (lfuSliceCaches h ! sliceIndex hsh h k) + 1 < 2 ^ 31"
proof -
  let ?c = "lfuSliceCaches h ! sliceIndex hsh h k"
  have mem: "?c \<in> set (lfuSliceCaches h)" using sliceIndex_less [OF assms(1)] by simp
  then show "lfu_ok ?c" using assms(1) by (simp add: hash_ok_def)
  have "curTotalNum ?c \<le> sum_list (map curTotalNum (lfuSliceCaches h))"
    using mem assms(1) by (intro member_le_sum_list) (auto simp: hash_ok_def lfu_ok_total_nonneg)
  with assms(2) show "curTotalNum ?c + 1 < 2 ^ 31" by (simp add: hash_used_def)
qed

lemma hash_replace:
  assumes "hash_ok h" "lfu_ok c" "curTotalNum c \<le> curTotalNum (lfuSliceCaches h ! sliceIndex hsh h k) + 1"
    "h' = h\<lparr>lfuSliceCaches := (lfuSliceCaches h)[sliceIndex hsh h k := c]\<rparr>"
  shows "hash_ok h'" "hash_used h' \<le> hash_used h + 1" "sliceIndex hsh h' = sliceIndex hsh h"
    "hash_lookup hsh h' x =
       (if sliceIndex hsh h x = sliceIndex hsh h k then lookup c x else hash_lookup hsh h x)"
proof -
  note i = sliceIndex_less [OF assms(1)]
  show si: "sliceIndex hsh h' = sliceIndex hsh h" using assms(4) by (simp add: sliceIndex_def fun_eq_iff)
  show "hash_ok h'" using assms by (auto simp: hash_ok_def dest: set_update_subset_insert [THEN subsetD])
  show "hash_used h' \<le> hash_used h + 1"
    using assms(3,4) i by (simp add: hash_used_def sum_list_update_le)
  show "hash_lookup hsh h' x =
       (if sliceIndex hsh h x = sliceIndex hsh h k then lookup c x else hash_lookup hsh h x)"
    using i [of hsh x] i [of hsh k] by (simp add: hash_lookup_def si) (simp add: assms(4))
qed

interpretation hlfu: cache_policy KHashLfuCache_put KHashLfuCache_get "\<lambda>e. hash_lookup (snd e)"
    hash_env_ok hash_ok hash_used "2 ^ 31 - 1"
proof (unfold_locales, goal_cases)
  case (1 e h k v)
  obtain iter hsh where e: "e = (iter, hsh)" by (cases e)
  let ?i = "sliceIndex hsh h k"
  have it: "iter_ok iter" using 1 e by (simp add: hash_env_ok_def)
  obtain c where c: "KLfuCache_put iter (lfuSliceCaches h ! ?i) k v = Inr c" "lfu_ok c"
    "curTotalNum c \<le> curTotalNum (lfuSliceCaches h ! ?i) + 1" "lookup c k = Some v"
    "lookup c \<subseteq>\<^sub>m (lookup (lfuSliceCaches h ! ?i))(k \<mapsto> v)"
    using KLfuCache_put_policy [OF hash_slice(1) [OF 1(2,3)] it hash_slice(2) [OF 1(2,3)]] by blast
  define h' where "h' = h\<lparr>lfuSliceCaches := (lfuSliceCaches h)[?i := c]\<rparr>"
  note r = hash_replace [OF 1(2) c(2,3) h'_def]
  have "KHashLfuCache_put e h k v = Inr h'"
    using c(1) sliceIndex_less [OF 1(2)] by (simp add: KHashLfuCache_put_def e Let_def h'_def)
  moreover have "hash_lookup hsh h' \<subseteq>\<^sub>m (hash_lookup hsh h)(k \<mapsto> v)"
  proof (unfold map_le_def, intro ballI)
    fix x assume "x \<in> dom (hash_lookup hsh h')"
    moreover have "hash_lookup hsh h x = lookup (lfuSliceCaches h ! sliceIndex hsh h x) x"
      by (simp add: hash_lookup_def)
    ultimately show "hash_lookup hsh h' x = ((hash_lookup hsh h)(k \<mapsto> v)) x"
      using c(4) bspec [OF c(5) [unfolded map_le_def], of x]
      by (cases "sliceIndex hsh h x = ?i") (auto simp: r(4) domIff)
  qed
  ultimately show ?case using r(1,2) c(4) by (intro exI [of _ h']) (simp add: e r(4))
next
  case (2 e h k)
  obtain iter hsh where e: "e = (iter, hsh)" by (cases e)
  let ?i = "sliceIndex hsh h k"
  have it: "iter_ok iter" using 2 e by (simp add: hash_env_ok_def)
  obtain c where c: "KLfuCache_get iter (lfuSliceCaches h ! ?i) k = Inr (lookup (lfuSliceCaches h ! ?i) k, c)"
    "lfu_ok c" "curTotalNum c \<le> curTotalNum (lfuSliceCaches h ! ?i) + 1"
    "lookup c = lookup (lfuSliceCaches h ! ?i)"
    using KLfuCache_get_policy [OF hash_slice(1) [OF 2(2,3)] it hash_slice(2) [OF 2(2,3)]] by blast
  define h' where "h' = h\<lparr>lfuSliceCaches := (lfuSliceCaches h)[?i := c]\<rparr>"
  note r = hash_replace [OF 2(2) c(2,3) h'_def]
  have "KHashLfuCache_get e h k = Inr (hash_lookup hsh h k, h')"
    using c(1) sliceIndex_less [OF 2(2)] by (simp add: KHashLfuCache_get_def e Let_def h'_def hash_lookup_def)
  moreover have "hash_lookup hsh h' = hash_lookup hsh h"
    by (rule ext) (simp add: r(4) c(4), simp add: hash_lookup_def)
  ultimately show ?case using r(1,2) by (intro exI [of _ h']) (simp add: e)
qed

text \<open>Evicting when no node has frequency \<open>minFreq_\<close>: the tail sentinel is handed out and nothing is evicted.\<close>

lemma kickOut_sentinel:
  assumes "map_of (freqToFreqList c) (minFreq c) = Some []" "map_of (freqToFreqList c) 1 \<noteq> None"
    "sentinelKey c \<notin> set (map fst (nodeMap c))"
  shows "\<exists>c'. kickOut c = Inr c' \<and> nodeMap c' = nodeMap c"
proof -
  have "AList.delete (sentinelKey c) (nodeMap c) = nodeMap c"
    using assms(3) by (simp add: AList.delete_idem)
  with assms(1,2) show ?thesis
    by (auto simp: kickOut_def list_of_def FreqList_getFirstNode_def decreaseFreqNum_def Let_def)
qed

lemma updateMinFreq_over:
  assumes ok: "part_ok c" and m: "is_min c m" "INT8_MAX \<le> m"
  shows "updateMinFreq c = c\<lparr>minFreq := 1\<rparr>"
proof -
  let ?r = "fold (\<lambda>(f, l) m. if \<not> FreqList_isEmpty l then min m f else m) (freqToFreqList c) INT8_MAX"
  have char: "?r \<le> INT8_MAX" "?r = INT8_MAX \<or> (\<exists>l. (?r, l) \<in> set (freqToFreqList c) \<and> l \<noteq> [])"
    using fold_min_char [of "freqToFreqList c" INT8_MAX] by (simp_all add: Let_def)
  have "?r = INT8_MAX"
  proof (rule ccontr)
    assume neq: "?r \<noteq> INT8_MAX"
    with char(2) obtain l where l: "(?r, l) \<in> set (freqToFreqList c)" "l \<noteq> []" by blast
    then have "map_of (freqToFreqList c) ?r = Some l" using part_butD(2) [OF ok] by simp
    from part_butD(6) [OF ok this] l(2) obtain x where "freq_of c x = Some ?r" by fastforce
    with m neq char(1) show False by (fastforce simp: is_min_def)
  qed
  then show ?thesis by (simp add: updateMinFreq_def Let_def)
qed

section \<open>Properties\<close>

text \<open>C11: \<open>KLfuCache::put\<close> never dereferences a null list; it stores the binding, and when the cache is
  full and the key is new it evicts exactly one other binding, that of the node at the front of the list
  of the least access frequency; otherwise it evicts nothing. The capacity is never exceeded. As long as
  the average access count does not pass its limit, the lists are first in, first out: a new node goes
  to the back of the list of frequency 1, an accessed one to the back of the list of the next frequency,
  the evicted one leaves from the front, and nothing else moves. (Aging, when the limit is passed, links
  all nodes again in the order of the node map.)\<close>

theorem lfu_put_evicts_least_frequent:
  assumes "lfu_ok c" "iter_ok iter" "curTotalNum c + 1 < 2 ^ 31"
  shows "\<exists>c'. KLfuCache_put iter c k v = Inr c' \<and> lfu_ok c' \<and> int (length (nodeMap c')) \<le> capacity c \<and>
    (if lookup c k = None \<and> int (length (nodeMap c)) = capacity c
     then \<exists>x. is_victim c x \<and> lookup c x \<noteq> None \<and> lookup c' = (lookup c)(x := None, k \<mapsto> v)
     else lookup c' = (lookup c)(k \<mapsto> v)) \<and>
    (curAverageNum c' \<le> maxAverageNum c \<longrightarrow> nodes_at c' = put_nodes c k)"
proof -
  obtain c' where c': "KLfuCache_put iter c k v = Inr c'" "lfu_ok c'" "capacity c' = capacity c"
    "if lookup c k = None \<and> int (length (nodeMap c)) = capacity c
     then \<exists>x. is_victim c x \<and> lookup c x \<noteq> None \<and> lookup c' = (lookup c)(x := None, k \<mapsto> v)
     else lookup c' = (lookup c)(k \<mapsto> v)" by (rule KLfuCache_put_ok [OF assms, of k v])
  then show ?thesis
    using lfu_okD(3) [of c'] KLfuCache_put_nodes [OF assms(1) c'(1)] by (intro exI [of _ c']) simp
qed

text \<open>C18: Every program of \<open>put\<close> and \<open>get\<close> calls on a new LFU cache completes (no null list is
  dereferenced), keeps the invariant, and each \<open>get\<close> answers a miss or the value most recently put
  under its key, for up to \<open>2 ^ 31 - 1\<close> calls.\<close>

theorem lfu_runs_coherent:
  assumes "0 < cap" "cap < 2 ^ 31" "2 \<le> maxAvg" "maxAvg \<le> 250" "iter_ok iter"
    "length ops \<le> 2 ^ 31 - 1"
  shows "\<exists>rs c'. crun (KLfuCache_put iter) (KLfuCache_get iter) (KLfuCache_new sk cap maxAvg) ops
      = Inr (rs, c') \<and> lfu_ok c' \<and> coherent Map.empty ops rs"
proof (rule lfu.crun_coherent)
  show "curTotalNum (KLfuCache_new sk cap maxAvg) + int (length ops) \<le> 2 ^ 31 - 1"
    using assms(6) by (simp add: KLfuCache_new_def)
  show "lookup (KLfuCache_new sk cap maxAvg) \<subseteq>\<^sub>m Map.empty"
    by (simp add: KLfuCache_new_def lookup_def map_le_def dom_def)
qed (use assms KLfuCache_new_ok in auto)

definition example_ops :: "(int, int) cop list" where
  "example_ops = [CPut 1 10, CPut 2 20, CGet 1, CPut 3 30, CGet 2, CGet 1, CGet 3]"

lemma iter_ok_id: "iter_ok (\<lambda>ks. ks)"
  by (simp add: iter_ok_def)

theorem lfu_runs_coherent_witness:
  "\<exists>rs c'. crun (KLfuCache_put (\<lambda>ks. ks)) (KLfuCache_get (\<lambda>ks. ks)) (KLfuCache_new 0 2 10) example_ops
      = Inr (rs, c') \<and> lfu_ok c' \<and> coherent Map.empty example_ops rs"
  by (rule lfu_runs_coherent) (simp_all add: iter_ok_id example_ops_def)

definition example_full :: "(int, int) KLfuCache" where
  "example_full = \<lparr>capacity = 2, minFreq = 1, maxAverageNum = 10, curAverageNum = 1, curTotalNum = 3,
     nodeMap = [(1, \<lparr>nfreq = 2, nvalue = 10\<rparr>), (2, \<lparr>nfreq = 1, nvalue = 20\<rparr>)],
     freqToFreqList = [(1, [2]), (2, [1])], sentinelKey = 0\<rparr>"

lemma example_full_ok: "lfu_ok example_full"
  by (rule lfu_okI, rule part_butI)
    (auto simp: example_full_def freq_of_def freq_sum_def lfu_params_def is_min_def split: if_splits)

theorem lfu_put_evicts_least_frequent_witness:
  "\<exists>c'. KLfuCache_put (\<lambda>ks. ks) example_full 3 30 = Inr c' \<and> lfu_ok c' \<and>
     int (length (nodeMap c')) \<le> capacity example_full \<and>
    (if lookup example_full 3 = None \<and> int (length (nodeMap example_full)) = capacity example_full
     then \<exists>x. is_victim example_full x \<and> lookup example_full x \<noteq> None \<and>
       lookup c' = (lookup example_full)(x := None, 3 \<mapsto> 30)
     else lookup c' = (lookup example_full)(3 \<mapsto> 30)) \<and>
    (curAverageNum c' \<le> maxAverageNum example_full \<longrightarrow> nodes_at c' = put_nodes example_full 3)"
  by (rule lfu_put_evicts_least_frequent [OF example_full_ok iter_ok_id]) (simp add: example_full_def)

lemma example_full_order:
  "put_nodes example_full 3 1 = [3]" "put_nodes example_full 3 2 = [1]"
  by (simp_all add: put_nodes_def nodes_at_def example_full_def freq_of_def)

text \<open>C23: The same for the sharded cache: for every hash function, every program of \<open>put\<close> and \<open>get\<close>
  calls on a new \<open>KHashLfuCache\<close> stays within the slice vector, completes, and answers misses or the
  most recently put values.\<close>

theorem hash_lfu_runs_coherent:
  fixes ops :: "('k, 'v) cop list"
  assumes "0 < cap" "cap < 2 ^ 31" "0 < n" "n < 2 ^ 31" "2 \<le> maxAvg" "maxAvg \<le> 250" "iter_ok iter"
    "length ops \<le> 2 ^ 31 - 1"
  shows "\<exists>rs h'. crun (KHashLfuCache_put (iter, hsh)) (KHashLfuCache_get (iter, hsh))
      (KHashLfuCache_new hw sk cap n maxAvg) ops = Inr (rs, h') \<and> hash_ok h' \<and> coherent Map.empty ops rs"
proof (rule hlfu.crun_coherent)
  let ?h = "KHashLfuCache_new hw sk cap n maxAvg :: ('k, 'v) KHashLfuCache" and ?s = "nat ((int cap + n - 1) div n)"
  have s: "0 < ?s" "int ?s < 2 ^ 31"
  proof -
    have "1 \<le> (int cap + n - 1) div n" using assms(1,3) by (simp add: pos_imp_zdiv_pos_iff int_one_le_iff_zero_less)
    then show "0 < ?s" by simp
    have "(int cap + n - 1) div n \<le> int cap"
    proof -
      have "int cap + n - 1 \<le> int cap * n"
        using assms(1,3) mult_nonneg_nonneg [of "int cap - 1" "n - 1"] by (simp add: algebra_simps)
      then have "(int cap + n - 1) div n \<le> int cap * n div n" using assms(3) by (intro zdiv_mono1) simp_all
      with assms(3) show ?thesis by simp
    qed
    with assms(2) \<open>1 \<le> (int cap + n - 1) div n\<close> show "int ?s < 2 ^ 31" by simp
  qed
  then have new: "lfu_ok (KLfuCache_new sk (int_of_sz ?s) maxAvg :: ('k, 'v) KLfuCache)"
    using assms by (intro KLfuCache_new_ok) (simp_all add: int_of_sz_def)
  then show "hash_ok ?h"
    using assms by (simp add: hash_ok_def KHashLfuCache_new_def Let_def)
  show "hash_used ?h + int (length ops) \<le> 2 ^ 31 - 1"
    using assms(3,8) by (simp add: hash_used_def KHashLfuCache_new_def Let_def KLfuCache_new_def comp_def sum_list_0)
  show "hash_lookup (snd (iter, hsh)) ?h \<subseteq>\<^sub>m Map.empty"
  proof -
    have "lfuSliceCaches ?h ! sliceIndex hsh ?h k \<in> set (lfuSliceCaches ?h)" for k
      using sliceIndex_less [OF \<open>hash_ok ?h\<close>, of hsh k] by simp
    then have "lfuSliceCaches ?h ! sliceIndex hsh ?h k = KLfuCache_new sk (int_of_sz ?s) maxAvg" for k
      using assms(3) by (auto simp: KHashLfuCache_new_def Let_def)
    then show ?thesis by (simp add: hash_lookup_def KLfuCache_new_def lookup_def map_le_def dom_def)
  qed
qed (use assms in \<open>simp add: hash_env_ok_def\<close>)

theorem hash_lfu_runs_coherent_witness:
  "\<exists>rs h'. crun (KHashLfuCache_put ((\<lambda>ks. ks), nat)) (KHashLfuCache_get ((\<lambda>ks. ks), nat))
      (KHashLfuCache_new 8 0 5 3 10) example_ops = Inr (rs, h') \<and> hash_ok h' \<and> coherent Map.empty example_ops rs"
  by (rule hash_lfu_runs_coherent) (simp_all add: iter_ok_id example_ops_def)

text \<open>C39: When aging leaves every frequency at \<open>INT8_MAX\<close> or above, \<open>updateMinFreq\<close> resets \<open>minFreq_\<close>
  to 1 although no node has that frequency; the next eviction then takes the tail sentinel of an
  empty list and removes nothing, so the node about to be inserted makes the cache overfull.\<close>

theorem lfu_aging_loses_least_frequency:
  assumes "part_ok c" "is_min c m" "INT8_MAX \<le> m" "map_of (freqToFreqList c) 1 \<noteq> None"
    "sentinelKey c \<notin> set (map fst (nodeMap c))"
  shows "minFreq (updateMinFreq c) = 1 \<and> (\<forall>k. freq_of c k \<noteq> Some 1) \<and>
    (\<exists>c'. kickOut (updateMinFreq c) = Inr c' \<and> nodeMap c' = nodeMap c)"
proof -
  have no: "\<forall>k. freq_of c k \<noteq> Some 1" using assms(2,3) by (fastforce simp: is_min_def INT8_MAX_def)
  from assms(4) obtain l where l: "map_of (freqToFreqList c) 1 = Some l" by blast
  have "l = []" using part_butD(6) [OF assms(1) l] no by simp
  then show ?thesis
    using no l assms(5) kickOut_sentinel [of "c\<lparr>minFreq := 1\<rparr>"] updateMinFreq_over [OF assms(1-3)] by simp
qed

definition example_aged :: "(int, int) KLfuCache" where
  "example_aged = \<lparr>capacity = 1, minFreq = 1, maxAverageNum = 251, curAverageNum = 252, curTotalNum = 252,
     nodeMap = [(1, \<lparr>nfreq = 127, nvalue = 10\<rparr>)],
     freqToFreqList = [(1, []), (252, []), (127, [1])], sentinelKey = 0\<rparr>"

theorem lfu_aging_loses_least_frequency_witness:
  "minFreq (updateMinFreq example_aged) = 1 \<and> (\<forall>k. freq_of example_aged k \<noteq> Some 1) \<and>
    (\<exists>c'. kickOut (updateMinFreq example_aged) = Inr c' \<and> nodeMap c' = nodeMap example_aged)"
proof (rule lfu_aging_loses_least_frequency)
  show "part_ok example_aged"
    by (rule part_butI) (auto simp: example_aged_def freq_of_def split: if_splits)
  show "is_min example_aged 127" by (auto simp: is_min_def example_aged_def freq_of_def split: if_splits)
qed (simp_all add: example_aged_def INT8_MAX_def)

end
