(* ===== verification/LogStream.thy ===== *)
theory LogStream
  imports Timestamp "HOL-Library.Sublist"
begin

text \<open>
  The fixed buffer and the log stream (\<open>include/FixedBuffer.h\<close>, \<open>include/LogStream.h\<close>,
  \<open>log/LogStream.cc\<close>).

  A \<open>FixedBuffer<N>\<close> is its array \<open>data_\<close> of \<open>N\<close> characters, the offset of \<open>cur_\<close> into it and
  \<open>size_\<close>; the array is not initialised by the constructor, so its first content is an argument.
  Writes into the array go through \<open>vec_write\<close>. The integer formatter is the loop of the code over
  the table \<open>digits\<close>; numbers of every integer type are \<open>int\<close>s in the range of the type.
\<close>

section \<open>FixedBuffer\<close>

record FixedBuffer =
  fdata :: "char list"
  cur :: nat
  fsize :: nat

definition kSmallBufferSize :: nat where "kSmallBufferSize = 4096"
definition kLargeBufferSize :: nat where "kLargeBufferSize = 4096 * 1000"

definition FixedBuffer_new :: "char list \<Rightarrow> FixedBuffer" where
  "FixedBuffer_new junk = \<lparr>fdata = junk, cur = 0, fsize = 0\<rparr>"

definition FixedBuffer_avail :: "FixedBuffer \<Rightarrow> nat" where
  "FixedBuffer_avail b = sz_sub (length (fdata b)) (fsize b)"

definition FixedBuffer_add :: "FixedBuffer \<Rightarrow> nat \<Rightarrow> FixedBuffer" where
  "FixedBuffer_add b len = b\<lparr>cur := cur b + len, fsize := fsize b + len\<rparr>"

definition FixedBuffer_append :: "FixedBuffer \<Rightarrow> char list \<Rightarrow> FixedBuffer result" where
  "FixedBuffer_append b xs =
     (if length xs < FixedBuffer_avail b
      then bind_r (vec_write (fdata b) (cur b) xs) (\<lambda>v.
             Inr (FixedBuffer_add (b\<lparr>fdata := v\<rparr>) (length xs)))
      else Inr b)"

definition FixedBuffer_length :: "FixedBuffer \<Rightarrow> nat" where
  "FixedBuffer_length b = fsize b"

definition FixedBuffer_reset :: "FixedBuffer \<Rightarrow> FixedBuffer" where
  "FixedBuffer_reset b = b\<lparr>cur := 0, fsize := 0\<rparr>"

definition FixedBuffer_bzero :: "FixedBuffer \<Rightarrow> FixedBuffer" where
  "FixedBuffer_bzero b = b\<lparr>fdata := replicate (length (fdata b)) (CHR 0x00)\<rparr>"

definition FixedBuffer_toString :: "FixedBuffer \<Rightarrow> string result" where
  "FixedBuffer_toString b = vec_read (fdata b) 0 (FixedBuffer_length b)"

text \<open>Invariant and content: \<open>cur_\<close> and \<open>size_\<close> agree and lie inside the array.\<close>

definition fb_ok :: "FixedBuffer \<Rightarrow> bool" where
  "fb_ok b \<longleftrightarrow> cur b = fsize b \<and> fsize b \<le> length (fdata b) \<and> length (fdata b) < 2 ^ 31"

definition fb_content :: "FixedBuffer \<Rightarrow> char list" where
  "fb_content b = take (fsize b) (fdata b)"

lemma FixedBuffer_new_ok:
  "length junk < 2 ^ 31 \<Longrightarrow> fb_ok (FixedBuffer_new junk) \<and> fb_content (FixedBuffer_new junk) = []"
  by (simp add: fb_ok_def fb_content_def FixedBuffer_new_def)

lemma length_fb_content: "fb_ok b \<Longrightarrow> length (fb_content b) = FixedBuffer_length b"
  by (simp add: fb_ok_def fb_content_def FixedBuffer_length_def)

lemma avail_eq: "fb_ok b \<Longrightarrow> FixedBuffer_avail b = length (fdata b) - length (fb_content b)"
  by (simp add: fb_ok_def fb_content_def FixedBuffer_avail_def sz_simps)

lemma FixedBuffer_append_ok:
  assumes ok: "fb_ok b"
  obtains b' where "FixedBuffer_append b xs = Inr b'" "fb_ok b'" "length (fdata b') = length (fdata b)"
    "fb_content b' = (if length xs < FixedBuffer_avail b then fb_content b @ xs else fb_content b)"
proof (cases "length xs < FixedBuffer_avail b")
  case True
  then have r: "fsize b + length xs < length (fdata b)"
    using ok by (simp add: FixedBuffer_avail_def fb_ok_def sz_simps)
  let ?v = "take (fsize b) (fdata b) @ xs @ drop (fsize b + length xs) (fdata b)"
  let ?b' = "FixedBuffer_add (b\<lparr>fdata := ?v\<rparr>) (length xs)"
  have "FixedBuffer_append b xs = Inr ?b'"
    using True r ok by (simp add: FixedBuffer_append_def vec_write_def fb_ok_def)
  then show thesis
    using that [of ?b'] True r ok by (simp add: fb_ok_def FixedBuffer_add_def fb_content_def)
next
  case False
  then show thesis using that [of b] ok by (simp add: FixedBuffer_append_def)
qed

lemma FixedBuffer_reset_ok:
  "fb_ok b \<Longrightarrow> fb_ok (FixedBuffer_reset b) \<and> fb_content (FixedBuffer_reset b) = [] \<and>
   length (fdata (FixedBuffer_reset b)) = length (fdata b)"
  by (simp add: FixedBuffer_reset_def fb_ok_def fb_content_def)

lemma FixedBuffer_bzero_ok:
  "fb_ok b \<Longrightarrow> fb_ok (FixedBuffer_bzero b) \<and> length (fdata (FixedBuffer_bzero b)) = length (fdata b) \<and>
   fsize (FixedBuffer_bzero b) = fsize b"
  by (simp add: FixedBuffer_bzero_def fb_ok_def)

lemma FixedBuffer_toString_ok: "fb_ok b \<Longrightarrow> FixedBuffer_toString b = Inr (fb_content b)"
  by (simp add: FixedBuffer_toString_def FixedBuffer_length_def vec_read_def fb_ok_def fb_content_def)

section \<open>Sinks that take an item whole or not at all\<close>

text \<open>
  What the users of a fixed buffer rely on: an item is appended as its whole text or dropped, and it
  is appended whenever the text and a slack fit into the room left.
\<close>

fun put_all :: "('s \<Rightarrow> 'x \<Rightarrow> 's result) \<Rightarrow> 's \<Rightarrow> 'x list \<Rightarrow> 's result" where
  "put_all put s [] = Inr s"
| "put_all put s (x # xs) = bind_r (put s x) (\<lambda>s'. put_all put s' xs)"

locale text_sink =
  fixes put :: "'s \<Rightarrow> 'x \<Rightarrow> 's result"
    and render :: "'x \<Rightarrow> char list"
    and valid :: "'x \<Rightarrow> bool"
    and slack :: nat
    and out :: "'s \<Rightarrow> char list"
    and ok :: "'s \<Rightarrow> bool"
    and room :: "'s \<Rightarrow> nat"
  assumes put_law: "ok s \<Longrightarrow> valid x \<Longrightarrow> \<exists>s'. put s x = Inr s' \<and> ok s' \<and> room s' = room s \<and>
      (out s' = out s @ render x \<or> out s' = out s) \<and>
      (length (out s) + length (render x) + slack \<le> room s \<longrightarrow> out s' = out s @ render x)"
begin

text \<open>What arrives is a subsequence of the items, and all of them when there is room for all.\<close>

lemma put_all_subseq:
  assumes "ok s" "\<forall>x \<in> set xs. valid x"
  shows "\<exists>s' ys. put_all put s xs = Inr s' \<and> ok s' \<and> room s' = room s \<and>
    out s' = out s @ concat (map render ys) \<and> subseq ys xs \<and>
    (length (out s) + length (concat (map render xs)) + slack \<le> room s \<longrightarrow> ys = xs)"
  using assms
proof (induction xs arbitrary: s)
  case Nil
  then show ?case by (intro exI [of _ s] exI [of _ "[]"]) simp
next
  case (Cons x xs)
  then have "valid x" by simp
  from put_law [OF Cons.prems(1) this] obtain s1 where
    s1: "put s x = Inr s1" "ok s1" "room s1 = room s" "out s1 = out s @ render x \<or> out s1 = out s"
      "length (out s) + length (render x) + slack \<le> room s \<longrightarrow> out s1 = out s @ render x" by blast
  from Cons.IH [OF s1(2)] Cons.prems(2) obtain s' ys where
    s': "put_all put s1 xs = Inr s'" "ok s'" "room s' = room s1" "out s' = out s1 @ concat (map render ys)"
      "subseq ys xs" "length (out s1) + length (concat (map render xs)) + slack \<le> room s1 \<longrightarrow> ys = xs" by auto
  define zs where "zs = (if out s1 = out s @ render x then x # ys else ys)"
  have "out s' = out s @ concat (map render zs)" "subseq zs (x # xs)"
    using s1(4) s'(4,5) by (auto simp: zs_def)
  moreover have "length (out s) + length (concat (map render (x # xs))) + slack \<le> room s \<longrightarrow> zs = x # xs"
    using s1(3,5) s'(6) by (auto simp: zs_def)
  moreover have "put_all put s (x # xs) = Inr s'" using s1(1) s'(1) by simp
  moreover have "room s' = room s" using s'(3) s1(3) by simp
  ultimately show ?case using s'(2) by blast
qed

end

lemma FixedBuffer_chunk:
  assumes "fb_ok b"
  shows "\<exists>b'. FixedBuffer_append b xs = Inr b' \<and> fb_ok b' \<and> length (fdata b') = length (fdata b) \<and>
    fb_content b' = (if length (fb_content b) + length xs < length (fdata b) then fb_content b @ xs else fb_content b)"
proof -
  have "length xs < FixedBuffer_avail b \<longleftrightarrow> length (fb_content b) + length xs < length (fdata b)"
    using avail_eq [OF assms] assms by (auto simp: fb_ok_def fb_content_def)
  with FixedBuffer_append_ok [OF assms, of xs] show ?thesis by metis
qed

interpretation fbs: text_sink FixedBuffer_append "\<lambda>xs. xs" "\<lambda>_. True" 1 fb_content fb_ok "\<lambda>b. length (fdata b)"
proof (unfold_locales, goal_cases)
  case (1 b xs)
  then show ?case using FixedBuffer_chunk [OF 1(1), of xs] by (auto split: if_splits)
qed

section \<open>Formatting integers\<close>

definition digits :: string where "digits = ''9876543210123456789''"

text \<open>\<open>zero[remainder]\<close>, where \<open>zero\<close> points at the tenth character of the table.\<close>

definition zero_at :: "int \<Rightarrow> char" where
  "zero_at r = digits ! nat (9 + r)"

definition kMaxNumberSize :: nat where "kMaxNumberSize = 32"

lemma abs_tdiv: "\<bar>tdiv n 10\<bar> = \<bar>n\<bar> div 10"
  by (cases "n = 0") (auto simp: tdiv_def abs_mult pos_imp_zdiv_nonneg_iff)

lemma tdiv10_less: "tdiv n 10 \<noteq> 0 \<Longrightarrow> nat \<bar>tdiv n 10\<bar> < nat \<bar>n\<bar>"
  by (cases "n = 0") (auto simp: abs_tdiv, simp add: tdiv_def)

text \<open>The characters the \<open>do ... while\<close> loop stores, least significant digit first.\<close>

function digit_loop :: "int \<Rightarrow> char list" where
  "digit_loop num =
     zero_at (tmod num 10) # (if tdiv num 10 = 0 then [] else digit_loop (tdiv num 10))"
  by auto

termination by (relation "measure (\<lambda>n. nat \<bar>n\<bar>)") (simp, unfold in_measure, rule tdiv10_less)

declare digit_loop.simps [simp del]

text \<open>
  The digits and the sign are stored from \<open>cur_\<close> on, followed by a terminating zero, and then
  reversed in place; the terminator is not counted.
\<close>

definition formatInteger :: "FixedBuffer \<Rightarrow> int \<Rightarrow> FixedBuffer result" where
  "formatInteger b num =
     (if kMaxNumberSize \<le> FixedBuffer_avail b
      then (let cs = digit_loop num @ (if num < 0 then ''-'' else '''') in
        bind_r (vec_write (fdata b) (cur b) (cs @ [CHR 0x00])) (\<lambda>v.
        bind_r (vec_write v (cur b) (rev cs)) (\<lambda>v'.
          Inr (FixedBuffer_add (b\<lparr>fdata := v'\<rparr>) (length cs)))))
      else Inr b)"

text \<open>The decimal notation of an integer, as a reference.\<close>

definition digit :: "nat \<Rightarrow> char" where
  "digit d = ''0123456789'' ! d"

fun decimal_nat :: "nat \<Rightarrow> string" where
  "decimal_nat n = (if n < 10 then [digit n] else decimal_nat (n div 10) @ [digit (n mod 10)])"

declare decimal_nat.simps [simp del]

definition decimal :: "int \<Rightarrow> string" where
  "decimal i = (if i < 0 then ''-'' @ decimal_nat (nat (- i)) else decimal_nat (nat i))"

lemma zero_at_digit:
  assumes "\<bar>r\<bar> < 10"
  shows "zero_at r = digit (nat \<bar>r\<bar>)"
proof -
  have "r \<in> {-9 .. 9}" using assms by auto
  moreover have "{-9 .. 9 :: int} = {-9,-8,-7,-6,-5,-4,-3,-2,-1,0,1,2,3,4,5,6,7,8,9}" by (simp add: set_eq_iff) presburger
  ultimately show ?thesis by (auto simp: zero_at_def digits_def digit_def)
qed

lemma abs_tmod: "\<bar>tmod n 10\<bar> = \<bar>n\<bar> mod 10"
proof -
  have "tmod n 10 = sgn n * (\<bar>n\<bar> mod 10)"
    by (cases "n < 0"; cases "n = 0") (simp_all add: tmod_def tdiv_def minus_mult_div_eq_mod minus_div_mult_eq_mod
      algebra_simps minus_mod_eq_mult_div [symmetric])
  then show ?thesis by (cases "n = 0") (auto simp: abs_mult sgn_if)
qed

lemma digit_loop_decimal: "rev (digit_loop n) = decimal_nat (nat \<bar>n\<bar>)"
proof (induction n rule: digit_loop.induct)
  case (1 n)
  have z: "zero_at (tmod n 10) = digit (nat \<bar>n\<bar> mod 10)"
    using zero_at_digit [of "tmod n 10"] by (simp add: abs_tmod nat_mod_distrib)
  have q: "nat \<bar>tdiv n 10\<bar> = nat \<bar>n\<bar> div 10" by (simp add: abs_tdiv nat_div_distrib)
  show ?case
  proof (cases "tdiv n 10 = 0")
    case True
    with q have "nat \<bar>n\<bar> < 10" by (simp add: div_eq_0_iff)
    with True z show ?thesis by (simp add: digit_loop.simps [of n] decimal_nat.simps [of "nat \<bar>n\<bar>"])
  next
    case False
    then have "nat \<bar>tdiv n 10\<bar> \<noteq> 0" by simp
    with q have "\<not> nat \<bar>n\<bar> < 10" by (simp add: div_eq_0_iff)
    with False z q "1.IH" show ?thesis
      by (simp add: digit_loop.simps [of n] decimal_nat.simps [of "nat \<bar>n\<bar>"])
  qed
qed

lemma length_decimal_nat: "n < 10 ^ Suc k \<Longrightarrow> length (decimal_nat n) \<le> Suc k"
proof (induction k arbitrary: n)
  case (Suc k)
  have "length (decimal_nat (n div 10)) \<le> Suc k" by (rule Suc.IH) (use Suc.prems in auto)
  then show ?case by (simp add: decimal_nat.simps [of n])
qed (simp add: decimal_nat.simps)

text \<open>Every integer of 64 bits, signed or unsigned, takes at most 20 characters.\<close>

lemma length_decimal:
  assumes "- (2 ^ 63) \<le> i" "i < 2 ^ 64"
  shows "length (decimal i) \<le> 20"
proof (cases "i < 0")
  case True
  have "nat (- i) \<le> nat (2 ^ 63)" using assms(1) by (intro nat_mono) simp
  then have "nat (- i) < 10 ^ Suc 18" by simp
  from length_decimal_nat [OF this] True show ?thesis by (simp add: decimal_def)
next
  case False
  have "nat i < nat (2 ^ 64)" using assms(2) by simp
  then have "nat i < 10 ^ Suc 19" by simp
  from length_decimal_nat [OF this] False show ?thesis by (simp add: decimal_def)
qed

lemma formatInteger_ok:
  assumes ok: "fb_ok b" and i: "- (2 ^ 63) \<le> i" "i < 2 ^ 64"
  obtains b' where "formatInteger b i = Inr b'" "fb_ok b'" "length (fdata b') = length (fdata b)"
    "fb_content b' = (if 32 \<le> FixedBuffer_avail b then fb_content b @ decimal i else fb_content b)"
proof (cases "32 \<le> FixedBuffer_avail b")
  case True
  let ?cs = "digit_loop i @ (if i < 0 then ''-'' else '''')"
  have rev: "rev ?cs = decimal i" by (simp add: digit_loop_decimal decimal_def)
  then have len: "length ?cs = length (decimal i)" by (metis length_rev)
  have room: "fsize b + 32 \<le> length (fdata b)" using True ok by (simp add: FixedBuffer_avail_def fb_ok_def sz_simps)
  with len length_decimal [OF i] have r: "fsize b + length ?cs + 1 \<le> length (fdata b)" by simp
  let ?v = "take (fsize b) (fdata b) @ (?cs @ [CHR 0x00]) @ drop (fsize b + length ?cs + 1) (fdata b)"
  have w1: "vec_write (fdata b) (fsize b) (?cs @ [CHR 0x00]) = Inr ?v"
    using r by (simp add: vec_write_def)
  let ?w = "take (fsize b) ?v @ decimal i @ drop (fsize b + length (decimal i)) ?v"
  have w2: "vec_write ?v (fsize b) (decimal i) = Inr ?w"
    using r len by (simp add: vec_write_def)
  define w where "w = ?w"
  have lw: "length w = length (fdata b)" using r len by (simp add: w_def)
  have tw: "take (fsize b + length ?cs) w = take (fsize b) (fdata b) @ decimal i"
    using r len by (simp add: w_def)
  let ?b' = "FixedBuffer_add (b\<lparr>fdata := w\<rparr>) (length ?cs)"
  have "formatInteger b i = Inr ?b'"
    using True ok w1 w2 [folded w_def]
    by (simp only: formatInteger_def Let_def kMaxNumberSize_def if_True fb_ok_def bind_r_simps rev)
  moreover have "fb_ok ?b'" "length (fdata ?b') = length (fdata b)"
    using r ok lw by (simp_all add: fb_ok_def FixedBuffer_add_def)
  moreover have "fb_content ?b' = fb_content b @ decimal i"
    using tw by (simp add: fb_content_def FixedBuffer_add_def)
  ultimately show thesis using that True by simp
next
  case False
  then show thesis using that [of b] ok by (simp add: formatInteger_def kMaxNumberSize_def)
qed

section \<open>Formatting floating-point numbers\<close>

text \<open>
  \<open>snprintf(buffer, 32, "%.12g", number)\<close> on a finite \<open>double\<close> \<open>mant * 2 ^ expo\<close>: twelve significant
  digits, correctly rounded, trailing zeros removed, in fixed notation when the decimal exponent is
  in \<open>-4 .. 11\<close> and in scientific notation otherwise, cut to 31 characters. (The sign of a zero is
  not represented.)
\<close>

definition round_quot :: "nat \<Rightarrow> nat \<Rightarrow> nat" where
  "round_quot x y =
     (let q = x div y; r = x mod y in if y < 2 * r \<or> (y = 2 * r \<and> odd q) then q + 1 else q)"

definition dec_exp :: "nat \<Rightarrow> nat \<Rightarrow> int" where
  "dec_exp n d =
     (if d \<le> n then int (length (decimal_nat (n div d))) - 1
      else - int (length (decimal_nat ((d - 1) div n))))"

definition strip_zeros :: "string \<Rightarrow> string" where
  "strip_zeros s = rev (dropWhile (\<lambda>c. c = CHR ''0'') (rev s))"

definition with_point :: "string \<Rightarrow> string" where
  "with_point frac = (let f = strip_zeros frac in if f = [] then [] else CHR ''.'' # f)"

definition format_g12_pos :: "nat \<Rightarrow> nat \<Rightarrow> string" where
  "format_g12_pos n d =
     (let e0 = dec_exp n d;
          m0 = round_quot (n * 10 ^ nat (11 - e0)) (d * 10 ^ nat (e0 - 11));
          (m, e) = (if m0 = 10 ^ 12 then (10 ^ 11, e0 + 1) else (m0, e0));
          ds = decimal_nat m
      in if -4 \<le> e \<and> e < 0
         then ''0.'' @ replicate (nat (- e) - 1) (CHR ''0'') @ strip_zeros ds
         else if 0 \<le> e \<and> e < 12
         then take (nat e + 1) ds @ with_point (drop (nat e + 1) ds)
         else take 1 ds @ with_point (drop 1 ds) @ (if e < 0 then ''e-'' else ''e+'') @
           (if \<bar>e\<bar> < 10 then ''0'' else []) @ decimal_nat (nat \<bar>e\<bar>))"

definition format_g12 :: "double \<Rightarrow> string" where
  "format_g12 x =
     take 31 (if mant x = 0 then ''0''
       else (if mant x < 0 then ''-'' else []) @
         format_g12_pos (nat \<bar>mant x\<bar> * 2 ^ nat (expo x)) (2 ^ nat (- expo x)))"

section \<open>LogStream\<close>

text \<open>
  The stream has one member, \<open>buffer_\<close>. An argument of \<open>operator<<\<close> is one of the overloads' types; the
  integer overloads carry the range of their type. A \<open>const char*\<close> is the characters up to the
  terminator.
\<close>

type_synonym LogStream = FixedBuffer

datatype int_type = TShort | TUShort | TInt | TUInt | TLong | TULong | TLongLong | TULongLong

fun int_range :: "int_type \<Rightarrow> int \<Rightarrow> bool" where
  "int_range TShort i = (- (2 ^ 15) \<le> i \<and> i < 2 ^ 15)"
| "int_range TUShort i = (0 \<le> i \<and> i < 2 ^ 16)"
| "int_range TInt i = (- (2 ^ 31) \<le> i \<and> i < 2 ^ 31)"
| "int_range TUInt i = (0 \<le> i \<and> i < 2 ^ 32)"
| "int_range TLong i = (- (2 ^ 63) \<le> i \<and> i < 2 ^ 63)"
| "int_range TULong i = (0 \<le> i \<and> i < 2 ^ 64)"
| "int_range TLongLong i = (- (2 ^ 63) \<le> i \<and> i < 2 ^ 63)"
| "int_range TULongLong i = (0 \<le> i \<and> i < 2 ^ 64)"

datatype log_item =
    ItBool bool
  | ItInteger int_type int
  | ItFloat double
  | ItDouble double
  | ItChar char
  | ItCString "char list"
  | ItUCString "char list"
  | ItString string
  | ItGeneral "char list"

definition strlen_prefix :: "char list \<Rightarrow> char list" where
  "strlen_prefix s = takeWhile (\<lambda>c. c \<noteq> CHR 0x00) s"

fun LogStream_shift :: "LogStream \<Rightarrow> log_item \<Rightarrow> LogStream result" where
  "LogStream_shift b (ItBool e) = FixedBuffer_append b (if e then ''true'' else ''false'')"
| "LogStream_shift b (ItInteger t n) = formatInteger b n"
| "LogStream_shift b (ItFloat x) = FixedBuffer_append b (format_g12 x)"
| "LogStream_shift b (ItDouble x) = FixedBuffer_append b (format_g12 x)"
| "LogStream_shift b (ItChar c) = FixedBuffer_append b [c]"
| "LogStream_shift b (ItCString s) = FixedBuffer_append b (strlen_prefix s)"
| "LogStream_shift b (ItUCString s) = FixedBuffer_append b (strlen_prefix s)"
| "LogStream_shift b (ItString s) = FixedBuffer_append b s"
| "LogStream_shift b (ItGeneral s) = FixedBuffer_append b s"

definition LogStream_append :: "LogStream \<Rightarrow> char list \<Rightarrow> LogStream result" where
  "LogStream_append b s = FixedBuffer_append b s"

definition LogStream_reset_buffer :: "LogStream \<Rightarrow> LogStream" where
  "LogStream_reset_buffer b = FixedBuffer_reset b"

text \<open>The text an item stands for.\<close>

fun item_text :: "log_item \<Rightarrow> string" where
  "item_text (ItBool e) = (if e then ''true'' else ''false'')"
| "item_text (ItInteger t n) = decimal n"
| "item_text (ItFloat x) = format_g12 x"
| "item_text (ItDouble x) = format_g12 x"
| "item_text (ItChar c) = [c]"
| "item_text (ItCString s) = strlen_prefix s"
| "item_text (ItUCString s) = strlen_prefix s"
| "item_text (ItString s) = s"
| "item_text (ItGeneral s) = s"

fun item_ok :: "log_item \<Rightarrow> bool" where
  "item_ok (ItInteger t n) = int_range t n"
| "item_ok _ = True"

lemma LogStream_shift_append:
  "(\<forall>t n. it \<noteq> ItInteger t n) \<Longrightarrow> LogStream_shift b it = FixedBuffer_append b (item_text it)"
  by (cases it) simp_all

lemma LogStream_shift_law:
  assumes ok: "fb_ok b" and it: "item_ok it"
  shows "\<exists>b'. LogStream_shift b it = Inr b' \<and> fb_ok b' \<and> length (fdata b') = length (fdata b) \<and>
      (fb_content b' = fb_content b @ item_text it \<or> fb_content b' = fb_content b) \<and>
      (length (fb_content b) + length (item_text it) + 32 \<le> length (fdata b) \<longrightarrow>
         fb_content b' = fb_content b @ item_text it)"
proof (cases "\<exists>t n. it = ItInteger t n")
  case True
  then obtain t n where tn: "it = ItInteger t n" by blast
  then have "- (2 ^ 63) \<le> n" "n < 2 ^ 64" using it by (cases t; simp)+
  from formatInteger_ok [OF ok this] obtain b' where "formatInteger b n = Inr b'" "fb_ok b'"
    "length (fdata b') = length (fdata b)"
    "fb_content b' = (if 32 \<le> FixedBuffer_avail b then fb_content b @ decimal n else fb_content b)" by blast
  then show ?thesis using avail_eq [OF ok] by (intro exI [of _ b']) (auto simp: tn)
next
  case False
  then show ?thesis
    using FixedBuffer_chunk [OF ok, of "item_text it"] by (auto simp: LogStream_shift_append split: if_splits)
qed

interpretation lss: text_sink LogStream_shift item_text item_ok 32 fb_content fb_ok "\<lambda>b. length (fdata b)"
  by unfold_locales (rule LogStream_shift_law)

section \<open>Properties\<close>

text \<open>Reading a decimal notation back.\<close>

definition digit_value :: "char \<Rightarrow> int" where
  "digit_value c = int (of_char c) - 48"

definition parse_nat :: "string \<Rightarrow> int" where
  "parse_nat s = foldl (\<lambda>a c. a * 10 + digit_value c) 0 s"

definition parse_int :: "string \<Rightarrow> int" where
  "parse_int s = (if take 1 s = ''-'' then - parse_nat (drop 1 s) else parse_nat s)"

lemma digit_value_digit: "d < 10 \<Longrightarrow> digit_value (digit d) = int d \<and> digit d \<noteq> CHR ''-''"
proof -
  assume "d < 10"
  then have "d \<in> {0,1,2,3,4,5,6,7,8,9}" by auto
  then show ?thesis by (auto simp: digit_value_def digit_def)
qed

lemma parse_decimal_nat: "parse_nat (decimal_nat n) = int n \<and> take 1 (decimal_nat n) \<noteq> ''-''"
proof (induction n rule: decimal_nat.induct)
  case (1 n)
  have v: "digit_value (digit (n mod 10)) = int (n mod 10)" by (simp add: digit_value_digit)
  show ?case
  proof (cases "n < 10")
    case True
    then show ?thesis by (simp add: decimal_nat.simps [of n] parse_nat_def digit_value_digit)
  next
    case False
    have "int (n div 10) * 10 + int (n mod 10) = int (n div 10 * 10 + n mod 10)" by (simp only: of_nat_add of_nat_mult of_nat_numeral)
    then have "int (n div 10) * 10 + int (n mod 10) = int n" by simp
    moreover have "decimal_nat (n div 10) \<noteq> []" by (simp add: decimal_nat.simps [of "n div 10"])
    then have "Suc 0 - length (decimal_nat (n div 10)) = 0" by (cases "decimal_nat (n div 10)") simp_all
    ultimately show ?thesis
      using "1.IH" [OF False] False v by (simp add: decimal_nat.simps [of n] parse_nat_def)
  qed
qed

lemma parse_decimal: "parse_int (decimal i) = i"
  using parse_decimal_nat [of "nat i"] parse_decimal_nat [of "nat (- i)"]
  by (simp add: parse_int_def decimal_def)

text \<open>C21: \<open>formatInteger\<close>: for every value of every integer type up to 64 bits (the most negative
  ones included) the characters appended are a decimal notation that reads back as the number; they
  and the terminator stay inside the array whenever 32 bytes are available, and otherwise nothing
  is written.\<close>

theorem format_integer_round_trip:
  assumes "fb_ok b" "- (2 ^ 63) \<le> i" "i < 2 ^ 64"
  shows "\<exists>b' s. formatInteger b i = Inr b' \<and> fb_ok b' \<and> parse_int s = i \<and> length s \<le> 20 \<and>
    fb_content b' = (if kMaxNumberSize \<le> FixedBuffer_avail b then fb_content b @ s else fb_content b)"
proof -
  obtain b' where "formatInteger b i = Inr b'" "fb_ok b'"
    "fb_content b' = (if 32 \<le> FixedBuffer_avail b then fb_content b @ decimal i else fb_content b)"
    by (rule formatInteger_ok [OF assms])
  then show ?thesis
    using parse_decimal [of i] length_decimal [OF assms(2,3)]
    by (intro exI [of _ b'] exI [of _ "decimal i"]) (simp add: kMaxNumberSize_def)
qed

definition example_fb :: FixedBuffer where
  "example_fb = FixedBuffer_new (replicate 64 (CHR 0x00))"

lemma example_fb_ok: "fb_ok example_fb"
  by (simp add: example_fb_def FixedBuffer_new_def fb_ok_def)

theorem format_integer_round_trip_witness:
  "\<exists>b' s. formatInteger example_fb (- (2 ^ 63)) = Inr b' \<and> fb_ok b' \<and> parse_int s = - (2 ^ 63) \<and>
    length s \<le> 20 \<and> fb_content b' =
      (if kMaxNumberSize \<le> FixedBuffer_avail example_fb then fb_content example_fb @ s else fb_content example_fb)"
  by (rule format_integer_round_trip [OF example_fb_ok]) simp_all

text \<open>A chain of \<open>operator<<\<close> on a log stream appends a subsequence of the items' texts in order,
  each whole or not at all, and all of them whenever their total length leaves 32 bytes free.\<close>

theorem log_stream_chain:
  assumes "fb_ok b" "\<forall>it \<in> set items. item_ok it"
  shows "\<exists>b' kept. put_all LogStream_shift b items = Inr b' \<and> fb_ok b' \<and>
    fb_content b' = fb_content b @ concat (map item_text kept) \<and> subseq kept items \<and>
    (length (fb_content b) + length (concat (map item_text items)) + 32 \<le> length (fdata b) \<longrightarrow> kept = items)"
  using lss.put_all_subseq [OF assms] by blast

theorem log_stream_chain_witness:
  "\<exists>b' kept. put_all LogStream_shift example_fb [ItCString ''fd='', ItInteger TInt 7, ItBool True] = Inr b' \<and> fb_ok b' \<and>
    fb_content b' = fb_content example_fb @ concat (map item_text kept) \<and>
    subseq kept [ItCString ''fd='', ItInteger TInt 7, ItBool True] \<and>
    (length (fb_content example_fb) +
       length (concat (map item_text [ItCString ''fd='', ItInteger TInt 7, ItBool True])) + 32 \<le> length (fdata example_fb)
     \<longrightarrow> kept = [ItCString ''fd='', ItInteger TInt 7, ItBool True])"
  by (rule log_stream_chain [OF example_fb_ok]) simp

end
