(* ===== verification/Logger.thy ===== *)
theory Logger
  imports LogStream
begin

text \<open>
  The logging front end (\<open>include/Logger.h\<close>, \<open>src/Logger.cc\<close>): one temporary \<open>Logger\<close> per log
  statement, whose constructor writes the time and the level, whose stream takes the message and
  whose destructor adds the source position and hands the line to the output function.

  \<open>localtime\<close> (which depends on the time zone of the machine) and \<open>strerror_r\<close> are parameters, the
  two readings of the clock are arguments. What a statement does to the outside is a list of effects.
\<close>

section \<open>Source position and level\<close>

text \<open>\<open>SourceFile\<close>: the part of the path behind the last slash.\<close>

definition SourceFile :: "string \<Rightarrow> string" where
  "SourceFile filename = rev (takeWhile (\<lambda>c. c \<noteq> CHR ''/'') (rev filename))"

datatype LogLevel = TRACE | DEBUG | INFO | WARN | ERROR | FATAL

fun getLevelName :: "LogLevel \<Rightarrow> string" where
  "getLevelName TRACE = ''TRACE ''"
| "getLevelName DEBUG = ''DEBUG ''"
| "getLevelName INFO = ''INFO  ''"
| "getLevelName WARN = ''WARN  ''"
| "getLevelName ERROR = ''ERROR ''"
| "getLevelName FATAL = ''FATAL ''"

section \<open>Formatting the time\<close>

record tm =
  tm_year :: int
  tm_mon :: int
  tm_mday :: int
  tm_hour :: int
  tm_min :: int
  tm_sec :: int

text \<open>The conversion \<open>%0<w>d\<close> (a sign counts in the width) and \<open>%4d\<close>.\<close>

definition pad_zero :: "nat \<Rightarrow> int \<Rightarrow> string" where
  "pad_zero w i =
     (if i < 0 then ''-'' @ replicate (w - 1 - length (decimal_nat (nat (- i)))) (CHR ''0'') @ decimal_nat (nat (- i))
      else replicate (w - length (decimal_nat (nat i))) (CHR ''0'') @ decimal_nat (nat i))"

definition pad_space :: "nat \<Rightarrow> int \<Rightarrow> string" where
  "pad_space w i = replicate (w - length (decimal i)) (CHR '' '') @ decimal i"

text \<open>The text of \<open>"%4d/%02d/%02d %02d:%02d:%02d"\<close>.\<close>

definition time_text :: "tm \<Rightarrow> string" where
  "time_text t =
     pad_space 4 (tm_year t + 1900) @ ''/'' @ pad_zero 2 (tm_mon t + 1) @ ''/'' @ pad_zero 2 (tm_mday t) @ '' '' @
     pad_zero 2 (tm_hour t) @ '':'' @ pad_zero 2 (tm_min t) @ '':'' @ pad_zero 2 (tm_sec t)"

text \<open>\<open>snprintf(dst, size, ...)\<close>: the text, cut to fit, and a terminator; the rest of \<open>dst\<close> is kept.\<close>

definition snprintf :: "char list \<Rightarrow> string \<Rightarrow> char list" where
  "snprintf dst s = (let s' = take (length dst - 1) s @ [CHR 0x00] in s' @ drop (length s') dst)"

text \<open>\<open>Timestamp::toString\<close> and \<open>Timestamp::toFormattedString\<close>, with the buffers they print into.\<close>

definition c_string :: "char list \<Rightarrow> string" where
  "c_string dst = takeWhile (\<lambda>c. c \<noteq> CHR 0x00) dst"

definition Timestamp_toString :: "(int \<Rightarrow> tm) \<Rightarrow> Timestamp \<Rightarrow> string" where
  "Timestamp_toString localtime t =
     c_string (snprintf (replicate 128 (CHR 0x00)) (time_text (localtime (microSecondsSinceEpoch t))))"

definition Timestamp_toFormattedString :: "(int \<Rightarrow> tm) \<Rightarrow> bool \<Rightarrow> Timestamp \<Rightarrow> string" where
  "Timestamp_toFormattedString localtime showMicroseconds t =
     (let seconds = tdiv (microSecondsSinceEpoch t) kMicroSecondsPerSecond;
          microseconds = tmod (microSecondsSinceEpoch t) kMicroSecondsPerSecond
      in c_string (snprintf (replicate 64 (CHR 0x00))
           (if showMicroseconds then time_text (localtime seconds) @ ''.'' @ pad_zero 6 microseconds
            else time_text (localtime seconds))))"

record Impl =
  stream :: LogStream
  level :: LogLevel
  line :: int
  basename :: string
  t_timer :: "char list"

definition formatTime :: "(int \<Rightarrow> tm) \<Rightarrow> Timestamp \<Rightarrow> Impl \<Rightarrow> Impl result" where
  "formatTime localtime now i =
     (let seconds = tdiv (microSecondsSinceEpoch now) kMicroSecondsPerSecond;
          microseconds = tmod (microSecondsSinceEpoch now) kMicroSecondsPerSecond;
          timer = snprintf (t_timer i) (time_text (localtime seconds));
          buf = snprintf (replicate 32 (CHR 0x00)) (pad_zero 6 microseconds @ '' '')
      in bind_r (vec_read timer 0 17) (\<lambda>a.
         bind_r (vec_read buf 0 7) (\<lambda>b.
         bind_r (LogStream_shift (stream i) (ItGeneral a)) (\<lambda>s1.
         bind_r (LogStream_shift s1 (ItGeneral b)) (\<lambda>s2.
           Inr (i\<lparr>stream := s2, t_timer := timer\<rparr>))))))"

definition Impl_new :: "(int \<Rightarrow> tm) \<Rightarrow> (int \<Rightarrow> string) \<Rightarrow> Timestamp \<Rightarrow> char list \<Rightarrow> char list \<Rightarrow>
    LogLevel \<Rightarrow> int \<Rightarrow> string \<Rightarrow> int \<Rightarrow> Impl result" where
  "Impl_new localtime strerror now junk timer lvl savedErrno filename ln =
     bind_r (formatTime localtime now
        \<lparr>stream = FixedBuffer_new junk, level = lvl, line = ln, basename = SourceFile filename, t_timer = timer\<rparr>)
       (\<lambda>i. bind_r (LogStream_shift (stream i) (ItGeneral (getLevelName lvl))) (\<lambda>s.
         if savedErrno \<noteq> 0
         then bind_r (put_all LogStream_shift s
                [ItCString (strerror savedErrno), ItCString '' (errno='', ItInteger TInt savedErrno, ItCString '') ''])
                (\<lambda>s'. Inr (i\<lparr>stream := s'\<rparr>))
         else Inr (i\<lparr>stream := s\<rparr>)))"

definition Logger_new :: "(int \<Rightarrow> tm) \<Rightarrow> Timestamp \<Rightarrow> char list \<Rightarrow> char list \<Rightarrow> string \<Rightarrow> int \<Rightarrow> LogLevel \<Rightarrow> Impl result" where
  "Logger_new localtime now junk timer filename ln lvl =
     Impl_new localtime (\<lambda>_. []) now junk timer lvl 0 filename ln"

definition Impl_finish :: "Impl \<Rightarrow> Impl result" where
  "Impl_finish i =
     bind_r (put_all LogStream_shift (stream i)
        [ItCString '' - '', ItGeneral (basename i), ItChar (CHR '':''), ItInteger TInt (line i),
         ItChar (CHR 0x0A)])
       (\<lambda>s. Inr (i\<lparr>stream := s\<rparr>))"

datatype log_effect = Output string | Flush | Abort

text \<open>The destructor: \<open>g_output\<close> gets the line; a \<open>FATAL\<close> record also flushes and aborts.\<close>

definition Logger_destroy :: "Impl \<Rightarrow> log_effect list result" where
  "Logger_destroy i =
     bind_r (Impl_finish i) (\<lambda>i1.
     bind_r (FixedBuffer_toString (stream i1)) (\<lambda>s.
       Inr (Output s # (if level i1 = FATAL then [Flush, Abort] else []))))"

text \<open>A statement \<open>Logger(file, line, level).stream() << ...\<close>.\<close>

definition Logger_statement :: "(int \<Rightarrow> tm) \<Rightarrow> Timestamp \<Rightarrow> char list \<Rightarrow> char list \<Rightarrow> string \<Rightarrow> int \<Rightarrow> LogLevel \<Rightarrow>
    log_item list \<Rightarrow> log_effect list result" where
  "Logger_statement localtime now junk timer filename ln lvl items =
     bind_r (Logger_new localtime now junk timer filename ln lvl) (\<lambda>i.
     bind_r (put_all LogStream_shift (stream i) items) (\<lambda>s.
       Logger_destroy (i\<lparr>stream := s\<rparr>)))"

text \<open>
  The macros \<open>LOG_DEBUG\<close>, ..., \<open>LOG_FATAL\<close> without \<open>OPEN_LOGGING\<close> (it is commented out in the
  header): all but \<open>LOG_DEBUG\<close> are a bare \<open>LogStream()\<close>, whose text goes nowhere.
\<close>

definition LOG :: "(int \<Rightarrow> tm) \<Rightarrow> Timestamp \<Rightarrow> char list \<Rightarrow> char list \<Rightarrow> string \<Rightarrow> int \<Rightarrow> LogLevel \<Rightarrow>
    log_item list \<Rightarrow> log_effect list result" where
  "LOG localtime now junk timer filename ln lvl items =
     (if lvl = DEBUG then Logger_statement localtime now junk timer filename ln DEBUG items
      else bind_r (put_all LogStream_shift (FixedBuffer_new junk) items) (\<lambda>_. Inr []))"

section \<open>The line of a statement\<close>

definition time_prefix :: "(int \<Rightarrow> tm) \<Rightarrow> Timestamp \<Rightarrow> char list \<Rightarrow> string" where
  "time_prefix localtime now timer =
     take 17 (snprintf timer (time_text (localtime (tdiv (microSecondsSinceEpoch now) kMicroSecondsPerSecond))))"

definition micros_text :: "Timestamp \<Rightarrow> string" where
  "micros_text now = pad_zero 6 (tmod (microSecondsSinceEpoch now) kMicroSecondsPerSecond) @ '' ''"

definition line_items :: "(int \<Rightarrow> tm) \<Rightarrow> Timestamp \<Rightarrow> char list \<Rightarrow> string \<Rightarrow> int \<Rightarrow> LogLevel \<Rightarrow> log_item list \<Rightarrow> log_item list" where
  "line_items localtime now timer filename ln lvl items =
     [ItGeneral (time_prefix localtime now timer), ItGeneral (micros_text now), ItGeneral (getLevelName lvl)] @ items @
     [ItCString '' - '', ItGeneral (SourceFile filename), ItChar (CHR '':''), ItInteger TInt ln, ItChar (CHR 0x0A)]"

lemma put_all_append: "put_all put s (xs @ ys) = bind_r (put_all put s xs) (\<lambda>s'. put_all put s' ys)"
  by (induction xs arbitrary: s) (auto simp: bind_r_def split: sum.splits)

lemma length_pad_zero6:
  assumes "0 \<le> i" "i < 1000000"
  shows "length (pad_zero 6 i) = 6"
proof -
  have "nat i < 10 ^ Suc 5" using assms by simp
  from length_decimal_nat [OF this] assms show ?thesis by (simp add: pad_zero_def)
qed

lemma length_micros_text: "0 \<le> microSecondsSinceEpoch now \<Longrightarrow> length (micros_text now) = 7"
proof -
  assume "0 \<le> microSecondsSinceEpoch now"
  then have "tmod (microSecondsSinceEpoch now) kMicroSecondsPerSecond
      = microSecondsSinceEpoch now mod 1000000"
    by (simp add: tmod_nonneg kMicroSecondsPerSecond_def)
  then show ?thesis by (simp add: micros_text_def length_pad_zero6)
qed

lemma length_snprintf: "dst \<noteq> [] \<Longrightarrow> length (snprintf dst s) = length dst"
  by (cases dst) (auto simp: snprintf_def Let_def)

lemma formatTime_eq:
  assumes "length (t_timer i) = 64" "0 \<le> microSecondsSinceEpoch now"
  shows "formatTime localtime now i =
    bind_r (put_all LogStream_shift (stream i)
        [ItGeneral (time_prefix localtime now (t_timer i)), ItGeneral (micros_text now)])
      (\<lambda>s. Inr (i\<lparr>stream := s, t_timer := snprintf (t_timer i)
         (time_text (localtime (tdiv (microSecondsSinceEpoch now) kMicroSecondsPerSecond)))\<rparr>))"
proof -
  let ?t = "time_text (localtime (tdiv (microSecondsSinceEpoch now) kMicroSecondsPerSecond))"
  have "t_timer i \<noteq> []" using assms(1) by auto
  then have "vec_read (snprintf (t_timer i) ?t) 0 17 = Inr (time_prefix localtime now (t_timer i))"
    using assms(1) length_snprintf [of "t_timer i" ?t] by (simp add: vec_read_def time_prefix_def)
  moreover have "take 7 (snprintf (replicate 32 (CHR 0x00)) (micros_text now)) = micros_text now"
    using length_micros_text [OF assms(2)] by (simp add: snprintf_def Let_def)
  then have "vec_read (snprintf (replicate 32 (CHR 0x00)) (micros_text now)) 0 7 = Inr (micros_text now)"
    using length_snprintf [of "replicate 32 (CHR 0x00)" "micros_text now"] by (simp add: vec_read_def)
  ultimately show ?thesis
    by (simp add: formatTime_def Let_def micros_text_def [symmetric] bind_r_assoc del: LogStream_shift.simps)
qed

lemma Logger_statement_eq:
  assumes "length timer = 64" "0 \<le> microSecondsSinceEpoch now"
  shows "Logger_statement localtime now junk timer filename ln lvl items =
    bind_r (put_all LogStream_shift (FixedBuffer_new junk) (line_items localtime now timer filename ln lvl items))
      (\<lambda>s. bind_r (FixedBuffer_toString s) (\<lambda>s'. Inr (Output s' # (if lvl = FATAL then [Flush, Abort] else []))))"
  using assms
  by (simp add: Logger_statement_def Logger_new_def Impl_new_def formatTime_eq line_items_def put_all_append
      Logger_destroy_def Impl_finish_def bind_r_assoc del: LogStream_shift.simps)

section \<open>Properties\<close>

lemma log_line:
  assumes "length timer = 64" "0 \<le> microSecondsSinceEpoch now" "length junk = kSmallBufferSize"
    "\<forall>it \<in> set items. item_ok it" "int_range TInt ln"
    "length (concat (map item_text (line_items localtime now timer filename ln lvl items))) + 32 \<le> kSmallBufferSize"
  shows "Logger_statement localtime now junk timer filename ln lvl items =
    Inr (Output (time_prefix localtime now timer @ micros_text now @ getLevelName lvl @
           concat (map item_text items) @ '' - '' @ SourceFile filename @ '':'' @ decimal ln @ [CHR 0x0A])
         # (if lvl = FATAL then [Flush, Abort] else []))"
proof -
  let ?its = "line_items localtime now timer filename ln lvl items"
  have fb: "fb_ok (FixedBuffer_new junk)" "fb_content (FixedBuffer_new junk) = []"
    using FixedBuffer_new_ok [of junk] assms(3) by (simp_all add: kSmallBufferSize_def)
  have "\<forall>it \<in> set ?its. item_ok it" using assms(4,5) by (auto simp: line_items_def)
  from lss.put_all_subseq [OF fb(1) this] fb(2) assms(3,6) obtain s where
    s: "put_all LogStream_shift (FixedBuffer_new junk) ?its = Inr s" "fb_ok s"
      "fb_content s = concat (map item_text ?its)"
    by (auto simp: FixedBuffer_new_def)
  then show ?thesis
    using assms(1,2) by (simp add: Logger_statement_eq FixedBuffer_toString_ok line_items_def strlen_prefix_def)
qed

text \<open>C32: The line of a log statement: when time, level, message and source position fit into the 4096
  bytes with 32 to spare, the output function receives exactly the time prefix, the microseconds, the
  level, the texts of the items in order, and \<open>" - file:line\n"\<close>; only a \<open>FATAL\<close> record flushes and aborts.\<close>

theorem log_line_format:
  assumes "length timer = 64" "0 \<le> microSecondsSinceEpoch now" "length junk = kSmallBufferSize"
    "\<forall>it \<in> set items. item_ok it" "int_range TInt ln"
    "length (concat (map item_text (line_items localtime now timer filename ln lvl items))) + 32 \<le> kSmallBufferSize"
  shows "Logger_statement localtime now junk timer filename ln lvl items =
    Inr (Output (time_prefix localtime now timer @ micros_text now @ getLevelName lvl @
           concat (map item_text items) @ '' - '' @ SourceFile filename @ '':'' @ decimal ln @ [CHR 0x0A])
         # (if lvl = FATAL then [Flush, Abort] else []))"
  by (rule log_line [OF assms])

definition example_tm :: "int \<Rightarrow> tm" where
  "example_tm s = \<lparr>tm_year = 125, tm_mon = 0, tm_mday = 2, tm_hour = 3, tm_min = 4, tm_sec = s mod 60\<rparr>"

lemma example_line_fits:
  "length (concat (map item_text (line_items example_tm (Timestamp 65000007) (replicate 64 (CHR 0x00)) ''src/main.cc'' 12
     WARN [ItCString ''fd='', ItInteger TInt 7]))) + 32 \<le> kSmallBufferSize"
proof -
  have "length (micros_text (Timestamp 65000007)) = 7" by (rule length_micros_text) simp
  moreover have "length (time_prefix example_tm (Timestamp 65000007) (replicate 64 (CHR 0x00))) \<le> 17"
    by (simp add: time_prefix_def)
  moreover have "length (decimal 7) \<le> 20" "length (decimal 12) \<le> 20" by (simp_all add: length_decimal)
  ultimately show ?thesis
    by (simp add: line_items_def kSmallBufferSize_def strlen_prefix_def SourceFile_def)
qed

theorem log_line_format_witness:
  "Logger_statement example_tm (Timestamp 65000007) (replicate kSmallBufferSize (CHR 0x00)) (replicate 64 (CHR 0x00))
     ''src/main.cc'' 12 WARN [ItCString ''fd='', ItInteger TInt 7] =
    Inr (Output (time_prefix example_tm (Timestamp 65000007) (replicate 64 (CHR 0x00)) @ micros_text (Timestamp 65000007)
           @ getLevelName WARN @ concat (map item_text [ItCString ''fd='', ItInteger TInt 7]) @ '' - '' @
           SourceFile ''src/main.cc'' @ '':'' @ decimal 12 @ [CHR 0x0A])
         # (if WARN = FATAL then [Flush, Abort] else []))"
  by (rule log_line_format [OF _ _ _ _ _ example_line_fits]) simp_all

text \<open>The printed time does not show the seconds: two records of the same minute and the same
  microseconds have the same time prefix, whatever their seconds.\<close>

theorem log_time_omits_seconds:
  assumes "length timer = 64" "length (pad_space 4 (tm_year t + 1900)) = 4"
    "length (pad_zero 2 (tm_mon t + 1)) = 2" "length (pad_zero 2 (tm_mday t)) = 2"
    "length (pad_zero 2 (tm_hour t)) = 2" "length (pad_zero 2 (tm_min t)) = 2"
  shows "take 17 (snprintf timer (time_text t)) = take 17 (snprintf timer (time_text (t\<lparr>tm_sec := s\<rparr>)))"
proof -
  define p where "p = pad_space 4 (tm_year t + 1900) @ ''/'' @ pad_zero 2 (tm_mon t + 1) @ ''/'' @ pad_zero 2 (tm_mday t) @ '' '' @
     pad_zero 2 (tm_hour t) @ '':'' @ pad_zero 2 (tm_min t) @ '':''"
  have p: "length p = 17" using assms(2-6) by (simp add: p_def)
  have "time_text (t\<lparr>tm_sec := x\<rparr>) = p @ pad_zero 2 x" for x by (simp add: time_text_def p_def)
  moreover have "time_text t = p @ pad_zero 2 (tm_sec t)" by (simp add: time_text_def p_def)
  moreover have "take 17 (snprintf timer (p @ q)) = p" for q
    using p assms(1) by (simp add: snprintf_def Let_def)
  ultimately show ?thesis by simp
qed

theorem log_time_omits_seconds_witness:
  "take 17 (snprintf (replicate 64 (CHR 0x00)) (time_text (example_tm 5))) =
   take 17 (snprintf (replicate 64 (CHR 0x00)) (time_text ((example_tm 5)\<lparr>tm_sec := 59\<rparr>)))"
  by (rule log_time_omits_seconds)
    (simp_all add: example_tm_def pad_space_def pad_zero_def decimal_def decimal_nat.simps)

text \<open>As the header is shipped (\<open>OPEN_LOGGING\<close> commented out) a \<open>LOG_FATAL\<close> statement has no effect
  at all: nothing is output and the program is not aborted.\<close>

theorem log_fatal_has_no_effect:
  assumes "length junk = kSmallBufferSize" "\<forall>it \<in> set items. item_ok it"
  shows "LOG localtime now junk timer filename ln FATAL items = Inr []"
proof -
  have "fb_ok (FixedBuffer_new junk)"
    using FixedBuffer_new_ok [of junk] assms(1) by (simp add: kSmallBufferSize_def)
  from lss.put_all_subseq [OF this assms(2)] show ?thesis by (auto simp: LOG_def)
qed

theorem log_fatal_has_no_effect_witness:
  "LOG example_tm (Timestamp 0) (replicate kSmallBufferSize (CHR 0x00)) (replicate 64 (CHR 0x00)) ''src/Socket.cc'' 20
     FATAL [ItCString ''bind fail''] = Inr []"
  by (rule log_fatal_has_no_effect) simp_all

text \<open>\<open>Timestamp::toString\<close> hands the microseconds to \<open>localtime\<close> as if they were seconds: it prints
  the date that lies a million times further from the epoch, the one \<open>toFormattedString\<close> prints for
  the timestamp scaled by a million.\<close>

theorem toString_takes_microseconds_for_seconds:
  assumes "length (time_text (localtime (microSecondsSinceEpoch t))) < 64" "0 \<le> microSecondsSinceEpoch t"
  shows "Timestamp_toString localtime t =
    Timestamp_toFormattedString localtime False (Timestamp (microSecondsSinceEpoch t * 1000000))"
proof -
  let ?s = "time_text (localtime (microSecondsSinceEpoch t))"
  have z: "c_string (s @ CHR 0x00 # replicate n (CHR 0x00)) = c_string s" for s n
    by (induction s) (simp_all add: c_string_def)
  have "snprintf (replicate 128 (CHR 0x00)) ?s = ?s @ CHR 0x00 # replicate (127 - length ?s) (CHR 0x00)"
    "snprintf (replicate 64 (CHR 0x00)) ?s = ?s @ CHR 0x00 # replicate (63 - length ?s) (CHR 0x00)"
    using assms(1) by (simp_all add: snprintf_def Let_def)
  moreover have "tdiv (microSecondsSinceEpoch t * 1000000) kMicroSecondsPerSecond = microSecondsSinceEpoch t"
    using assms(2) by (simp add: tdiv_nonneg kMicroSecondsPerSecond_def)
  ultimately show ?thesis
    by (simp add: Timestamp_toString_def Timestamp_toFormattedString_def z)
qed

theorem toString_takes_microseconds_for_seconds_witness:
  "Timestamp_toString example_tm (Timestamp 1700000000000000) =
    Timestamp_toFormattedString example_tm False (Timestamp (microSecondsSinceEpoch (Timestamp 1700000000000000) * 1000000))"
  by (rule toString_takes_microseconds_for_seconds)
    (simp_all add: example_tm_def time_text_def pad_space_def pad_zero_def decimal_def decimal_nat.simps)

end
