(* ===== verification/LogFile.thy ===== *)
theory LogFile
  imports Logger
begin

text \<open>
  The log files (\<open>include/FileUtil.h\<close>, \<open>log/FileUtil.cc\<close>, \<open>include/LogFile.h\<close>, \<open>log/LogFile.cc\<close>).

  A \<open>FileUtil\<close> is its file name, the bytes handed to the stream so far, how many of them have been
  flushed, and \<open>writtenBytes_\<close>. Every call of \<open>fwrite_unlocked\<close> is answered by a reply: the number of
  bytes taken and the error indicator of the stream afterwards. A \<open>LogFile\<close> keeps the files it has
  closed, in order, so that the whole log can be stated.
\<close>

section \<open>FileUtil\<close>

record FileUtil =
  file_name :: string
  fbytes :: "char list"
  fflushed :: nat
  writtenBytes :: nat

definition FileUtil_new :: "bool \<Rightarrow> string \<Rightarrow> FileUtil result" where
  "FileUtil_new fopen_ok name =
     (if fopen_ok then Inr \<lparr>file_name = name, fbytes = [], fflushed = 0, writtenBytes = 0\<rparr>
      else Inl NullDeref)"

record fwrite_reply =
  taken :: nat
  ferror :: bool

text \<open>One call of \<open>write\<close>: at most the bytes offered are taken.\<close>

definition FileUtil_write :: "FileUtil \<Rightarrow> char list \<Rightarrow> fwrite_reply \<Rightarrow> FileUtil \<times> nat" where
  "FileUtil_write f bytes r =
     (let n = min (taken r) (length bytes) in (f\<lparr>fbytes := fbytes f @ take n bytes\<rparr>, n))"

text \<open>
  The loop of \<open>append\<close>: \<open>None\<close> when the replies run out before the loop is left. The second component
  is \<open>writen\<close>.
\<close>

fun append_loop :: "FileUtil \<Rightarrow> char list \<Rightarrow> nat \<Rightarrow> fwrite_reply list \<Rightarrow> (FileUtil \<times> nat) option" where
  "append_loop f bytes writen rs =
     (if writen = length bytes then Some (f, writen)
      else case rs of
             [] \<Rightarrow> None
           | r # rs' \<Rightarrow>
              (let remain = length bytes - writen;
                   (f1, n) = FileUtil_write f (drop writen bytes) r
               in if n \<noteq> remain \<and> ferror r then Some (f1, writen)
                  else append_loop f1 bytes (writen + n) rs'))"

declare append_loop.simps [simp del]

definition FileUtil_append :: "FileUtil \<Rightarrow> char list \<Rightarrow> fwrite_reply list \<Rightarrow> FileUtil option" where
  "FileUtil_append f bytes rs =
     map_option (\<lambda>(f1, writen). f1\<lparr>writtenBytes := writtenBytes f1 + writen\<rparr>) (append_loop f bytes 0 rs)"

definition FileUtil_flush :: "FileUtil \<Rightarrow> FileUtil" where
  "FileUtil_flush f = f\<lparr>fflushed := length (fbytes f)\<rparr>"

text \<open>The destructor: \<open>fclose\<close> flushes what is still buffered.\<close>

definition FileUtil_destroy :: "FileUtil \<Rightarrow> FileUtil" where
  "FileUtil_destroy f = FileUtil_flush f"

declare FileUtil_destroy_def [simp]

text \<open>
  The C library promises that \<open>fwrite\<close> comes back short only with the error indicator set.
\<close>

definition fwrite_contract :: "char list \<Rightarrow> fwrite_reply \<Rightarrow> bool" where
  "fwrite_contract bytes r \<longleftrightarrow> taken r = length bytes \<or> (taken r < length bytes \<and> ferror r)"

lemma FileUtil_append_once:
  assumes "fwrite_contract bytes r"
  shows "FileUtil_append f bytes [r] = Some (f\<lparr>fbytes := fbytes f @ take (taken r) bytes,
      writtenBytes := writtenBytes f + (if taken r = length bytes then length bytes else 0)\<rparr>)"
  using assms
  by (auto simp: FileUtil_append_def append_loop.simps [of _ _ 0] append_loop.simps [of _ _ "length bytes"]
      FileUtil_write_def fwrite_contract_def Let_def)

section \<open>LogFile\<close>

record LogFile =
  lbasename :: string
  rollsize :: nat
  flushInterval :: int
  checkEveryN :: int
  count :: int
  startOfPeriod :: int
  lastRoll :: int
  lastFlush :: int
  lfile :: "FileUtil option"
  closed :: "FileUtil list"

definition kRollPerSeconds :: int where "kRollPerSeconds = 60 * 60 * 24"

text \<open>
  What one operation takes from the environment: the clock (\<open>append\<close> reads it, and \<open>rollFile\<close> again),
  the local time, the replies to \<open>fwrite\<close>, whether \<open>fopen\<close> succeeds.
\<close>

record lf_env =
  now_append :: int
  now_roll :: int
  local_tm :: "int \<Rightarrow> tm"
  replies :: "fwrite_reply list"
  fopen_ok :: bool

text \<open>\<open>strftime(timebuf, 32, ".%Y%m%d-%H%M%S", &tm)\<close>.\<close>

definition roll_time_text :: "tm \<Rightarrow> string" where
  "roll_time_text t =
     ''.'' @ decimal (tm_year t + 1900) @ pad_zero 2 (tm_mon t + 1) @ pad_zero 2 (tm_mday t) @ ''-'' @
     pad_zero 2 (tm_hour t) @ pad_zero 2 (tm_min t) @ pad_zero 2 (tm_sec t)"

definition getLogFileName :: "lf_env \<Rightarrow> string \<Rightarrow> string" where
  "getLogFileName e base = base @ roll_time_text (local_tm e (now_roll e)) @ ''.log''"

definition rollFile :: "lf_env \<Rightarrow> LogFile \<Rightarrow> (bool \<times> LogFile) result" where
  "rollFile e l =
     (let now = now_roll e;
          filename = getLogFileName e (lbasename l);
          start = tdiv now kRollPerSeconds * kRollPerSeconds
      in if lastRoll l < now
         then bind_r (FileUtil_new (fopen_ok e) filename) (\<lambda>f.
                Inr (True, l\<lparr>lastFlush := now, lastRoll := now, startOfPeriod := start, lfile := Some f,
                  closed := closed l @ (case lfile l of None \<Rightarrow> [] | Some old \<Rightarrow> [FileUtil_destroy old])\<rparr>))
         else Inr (False, l))"

text \<open>The constructor does not initialise \<open>count_\<close>: its value is an argument.\<close>

definition LogFile_new :: "lf_env \<Rightarrow> int \<Rightarrow> string \<Rightarrow> nat \<Rightarrow> int \<Rightarrow> int \<Rightarrow> LogFile result" where
  "LogFile_new e count0 base rs fi ce =
     bind_r (rollFile e \<lparr>lbasename = base, rollsize = rs, flushInterval = fi, checkEveryN = ce,
        count = count0, startOfPeriod = 0, lastRoll = 0, lastFlush = 0, lfile = None, closed = []\<rparr>)
       (\<lambda>(_, l). Inr l)"

definition LogFile_flush :: "LogFile \<Rightarrow> LogFile result" where
  "LogFile_flush l =
     (case lfile l of None \<Rightarrow> Inl NullDeref | Some f \<Rightarrow> Inr (l\<lparr>lfile := Some (FileUtil_flush f)\<rparr>))"

text \<open>
  \<open>appendInlock\<close>; \<open>append\<close> is the same under the mutex. The outer \<open>None\<close> is a \<open>fwrite\<close> loop that the
  given replies do not end.
\<close>

definition appendInlock :: "lf_env \<Rightarrow> LogFile \<Rightarrow> char list \<Rightarrow> LogFile result option" where
  "appendInlock e l bytes =
     (case lfile l of
        None \<Rightarrow> Some (Inl NullDeref)
      | Some f \<Rightarrow>
          (case FileUtil_append f bytes (replies e) of
             None \<Rightarrow> None
           | Some f1 \<Rightarrow> Some (
               let now = now_append e;
                   l1 = l\<lparr>lfile := Some f1, count := count l + 1\<rparr>
               in bind_r
                    (if rollsize l1 < writtenBytes f1 then bind_r (rollFile e l1) (\<lambda>(_, l2). Inr l2)
                     else if checkEveryN l1 \<le> count l1
                     then (let l2 = l1\<lparr>count := 0\<rparr>;
                               thisPeriod = tdiv now kRollPerSeconds * kRollPerSeconds
                           in if thisPeriod \<noteq> startOfPeriod l2
                              then bind_r (rollFile e l2) (\<lambda>(_, l3). Inr l3) else Inr l2)
                     else Inr l1) (\<lambda>l4.
                    if flushInterval l4 < now - lastFlush l4
                    then LogFile_flush (l4\<lparr>lastFlush := now\<rparr>) else Inr l4))))"

section \<open>The whole log\<close>

definition log_ok :: "LogFile \<Rightarrow> bool" where
  "log_ok l \<longleftrightarrow> lfile l \<noteq> None"

definition log_bytes :: "LogFile \<Rightarrow> char list" where
  "log_bytes l = concat (map fbytes (closed l)) @ (case lfile l of None \<Rightarrow> [] | Some f \<Rightarrow> fbytes f)"

text \<open>The environment of an append that goes well: one \<open>fwrite\<close> that takes everything, \<open>fopen\<close> succeeds.\<close>

definition env_ok :: "lf_env \<Rightarrow> char list \<Rightarrow> bool" where
  "env_ok e bytes \<longleftrightarrow> fopen_ok e \<and> (\<exists>r. replies e = [r] \<and> taken r = length bytes)"

lemma FileUtil_flush_bytes [simp]: "fbytes (FileUtil_flush f) = fbytes f"
  by (simp add: FileUtil_flush_def)

lemma rollFile_ok:
  assumes "fopen_ok e" "log_ok l"
  obtains b l' where "rollFile e l = Inr (b, l')" "log_ok l'" "log_bytes l' = log_bytes l"
    "b \<longleftrightarrow> lastRoll l < now_roll e" "\<not> b \<longrightarrow> l' = l"
    "b \<longrightarrow> (\<exists>f. lfile l' = Some f \<and> fbytes f = [] \<and> writtenBytes f = 0)"
  using assms
  by (cases "lastRoll l < now_roll e") (auto simp: rollFile_def FileUtil_new_def log_ok_def log_bytes_def Let_def)

lemma LogFile_flush_ok:
  assumes "log_ok l"
  obtains l' f where "LogFile_flush l = Inr l'" "log_ok l'" "log_bytes l' = log_bytes l"
    "lfile l' = Some f" "fflushed f = length (fbytes f)"
proof -
  from assms obtain f where f: "lfile l = Some f" by (auto simp: log_ok_def)
  show thesis
    by (rule that [of "l\<lparr>lfile := Some (FileUtil_flush f)\<rparr>" "FileUtil_flush f"])
      (simp_all add: LogFile_flush_def f log_ok_def log_bytes_def FileUtil_flush_def)
qed

lemma LogFile_new_ok:
  assumes "fopen_ok e" "0 < now_roll e"
  obtains l where "LogFile_new e cnt base rs fi ce = Inr l" "log_ok l" "log_bytes l = []"
  using assms by (auto simp: LogFile_new_def rollFile_def FileUtil_new_def log_ok_def log_bytes_def Let_def)

lemma appendInlock_ok:
  assumes ok: "log_ok l" and e: "env_ok e bytes"
  obtains l' where "appendInlock e l bytes = Some (Inr l')" "log_ok l'" "log_bytes l' = log_bytes l @ bytes"
proof -
  obtain f where f: "lfile l = Some f" using ok by (auto simp: log_ok_def)
  from e obtain r where r: "replies e = [r]" "taken r = length bytes" and fo: "fopen_ok e" by (auto simp: env_ok_def)
  define f1 where "f1 = f\<lparr>fbytes := fbytes f @ bytes, writtenBytes := writtenBytes f + length bytes\<rparr>"
  have f1: "FileUtil_append f bytes (replies e) = Some f1"
    using FileUtil_append_once [of bytes r f] r by (simp add: fwrite_contract_def f1_def)
  define l1 where "l1 = l\<lparr>lfile := Some f1, count := count l + 1\<rparr>"
  define l1' where "l1' = l1\<lparr>count := 0\<rparr>"
  have ok1: "log_ok l1" "log_bytes l1 = log_bytes l @ bytes" "log_ok l1'" "log_bytes l1' = log_bytes l @ bytes"
    by (simp_all add: l1_def l1'_def log_ok_def log_bytes_def f f1_def)
  define m where "m = (if rollsize l1 < writtenBytes f1 then bind_r (rollFile e l1) (\<lambda>(_, l2). Inr l2)
     else if checkEveryN l1 \<le> count l1
     then (if tdiv (now_append e) kRollPerSeconds * kRollPerSeconds \<noteq> startOfPeriod l1'
           then bind_r (rollFile e l1') (\<lambda>(_, l3). Inr l3) else Inr l1')
     else Inr l1)"
  have "\<exists>l4. m = Inr l4 \<and> log_ok l4 \<and> log_bytes l4 = log_bytes l @ bytes"
    using rollFile_ok [OF fo ok1(1)] rollFile_ok [OF fo ok1(3)] ok1 unfolding m_def by fastforce
  then obtain l4 where l4: "m = Inr l4" "log_ok l4" "log_bytes l4 = log_bytes l @ bytes" by blast
  define l5 where "l5 = l4\<lparr>lastFlush := now_append e\<rparr>"
  have ok5: "log_ok l5" "log_bytes l5 = log_bytes l @ bytes" using l4 by (simp_all add: l5_def log_ok_def log_bytes_def)
  have "appendInlock e l bytes = Some (bind_r m (\<lambda>l4. if flushInterval l4 < now_append e - lastFlush l4
       then LogFile_flush (l4\<lparr>lastFlush := now_append e\<rparr>) else Inr l4))"
    by (simp add: appendInlock_def f f1 Let_def m_def l1'_def l1_def)
  then have "appendInlock e l bytes = Some (if flushInterval l4 < now_append e - lastFlush l4
       then LogFile_flush l5 else Inr l4)" by (simp add: l4(1) l5_def)
  then show thesis using that l4 ok5 LogFile_flush_ok [OF ok5(1)] by metis
qed

section \<open>Append-only outputs\<close>

text \<open>
  What the back end of the asynchronous logger relies on: an output to which a chunk can be appended,
  under an environment in which that goes well, adding exactly the chunk to what it holds.
\<close>

fun app_all :: "('e \<Rightarrow> 's \<Rightarrow> char list \<Rightarrow> 's result option) \<Rightarrow> 's \<Rightarrow> ('e \<times> char list) list \<Rightarrow> 's result option" where
  "app_all app s [] = Some (Inr s)"
| "app_all app s ((e, x) # xs) =
     (case app e s x of
        None \<Rightarrow> None
      | Some (Inl x1) \<Rightarrow> Some (Inl x1)
      | Some (Inr s1) \<Rightarrow> app_all app s1 xs)"

locale append_only =
  fixes app :: "'e \<Rightarrow> 's \<Rightarrow> char list \<Rightarrow> 's result option"
    and good :: "'e \<Rightarrow> char list \<Rightarrow> bool"
    and out :: "'s \<Rightarrow> char list"
    and ok :: "'s \<Rightarrow> bool"
  assumes app_law: "ok s \<Longrightarrow> good e x \<Longrightarrow>
      \<exists>s'. app e s x = Some (Inr s') \<and> ok s' \<and> out s' = out s @ x"
begin

lemma app_all_concat:
  assumes "ok s" "\<forall>(e, x) \<in> set xs. good e x"
  shows "\<exists>s'. app_all app s xs = Some (Inr s') \<and> ok s' \<and> out s' = out s @ concat (map snd xs)"
  using assms
proof (induction xs arbitrary: s)
  case (Cons ex xs)
  obtain e x where ex: "ex = (e, x)" by (cases ex)
  with Cons.prems have "good e x" by simp
  from app_law [OF Cons.prems(1) this] obtain s1 where
    s1: "app e s x = Some (Inr s1)" "ok s1" "out s1 = out s @ x" by blast
  from Cons.IH [OF s1(2)] Cons.prems(2) s1 ex show ?case by auto
qed simp

end

interpretation logf: append_only appendInlock env_ok log_bytes log_ok
proof (unfold_locales, goal_cases)
  case (1 l e x)
  show ?case by (rule appendInlock_ok [OF 1]) blast
qed

section \<open>Properties\<close>

definition example_env :: "int \<Rightarrow> nat \<Rightarrow> lf_env" where
  "example_env t n = \<lparr>now_append = t, now_roll = t, local_tm = example_tm,
     replies = [\<lparr>taken = n, ferror = False\<rparr>], fopen_ok = True\<rparr>"

text \<open>C31: The log files together hold exactly the appended data, in order, whatever rolling and
  flushing happened in between, as long as \<open>fopen\<close> and \<open>fwrite\<close> succeed.\<close>

theorem log_files_hold_everything:
  assumes "LogFile_new e cnt base rs fi ce = Inr l" "fopen_ok e" "0 < now_roll e" "\<forall>(e, x) \<in> set xs. env_ok e x"
  shows "\<exists>l'. app_all appendInlock l xs = Some (Inr l') \<and>
    concat (map fbytes (closed l')) @ fbytes (the (lfile l')) = concat (map snd xs)"
proof -
  from LogFile_new_ok [OF assms(2,3), of cnt base rs fi ce] assms(1) have l: "log_ok l" "log_bytes l = []" by auto
  from logf.app_all_concat [OF l(1) assms(4)] l(2) obtain l' where
    "app_all appendInlock l xs = Some (Inr l')" "log_ok l'" "log_bytes l' = concat (map snd xs)" by auto
  then show ?thesis by (auto simp: log_ok_def log_bytes_def)
qed

theorem log_files_hold_everything_witness:
  "\<exists>l'. app_all appendInlock
      \<lparr>lbasename = ''srv'', rollsize = 4, flushInterval = 3, checkEveryN = 1024, count = 7, startOfPeriod = 0,
       lastRoll = 100, lastFlush = 100, lfile = Some \<lparr>file_name = getLogFileName (example_env 100 0) ''srv'',
         fbytes = [], fflushed = 0, writtenBytes = 0\<rparr>, closed = []\<rparr>
      [(example_env 101 5, ''hello''), (example_env 102 5, ''world'')] = Some (Inr l') \<and>
    concat (map fbytes (closed l')) @ fbytes (the (lfile l')) =
      concat (map snd [(example_env 101 5, ''hello''), (example_env 102 5, ''world'')])"
  by (rule log_files_hold_everything [where e = "example_env 100 0" and cnt = 7 and base = "''srv''" and rs = 4
        and fi = 3 and ce = 1024])
    (simp_all add: LogFile_new_def rollFile_def FileUtil_new_def Let_def example_env_def env_ok_def
      kRollPerSeconds_def tdiv_nonneg)

text \<open>An append that makes the file larger than \<open>rollsize_\<close> starts a new, empty file, unless the
  clock still shows the second of the last roll, in which case the file keeps growing.\<close>

theorem log_file_rolls:
  assumes "lfile l = Some f" "env_ok e bytes" "rollsize l < writtenBytes f + length bytes"
    "now_append e = now_roll e" "0 \<le> flushInterval l"
  shows "\<exists>l' f'. appendInlock e l bytes = Some (Inr l') \<and> lfile l' = Some f' \<and>
    (if lastRoll l < now_roll e
     then fbytes f' = [] \<and> writtenBytes f' = 0 \<and> closed l' = closed l @ [FileUtil_flush
       (f\<lparr>fbytes := fbytes f @ bytes, writtenBytes := writtenBytes f + length bytes\<rparr>)]
     else fbytes f' = fbytes f @ bytes \<and> closed l' = closed l)"
proof -
  from assms(2) obtain r where r: "replies e = [r]" "taken r = length bytes" and fo: "fopen_ok e" by (auto simp: env_ok_def)
  have f1: "FileUtil_append f bytes (replies e) =
      Some (f\<lparr>fbytes := fbytes f @ bytes, writtenBytes := writtenBytes f + length bytes\<rparr>)"
    using FileUtil_append_once [of bytes r f] r by (simp add: fwrite_contract_def)
  show ?thesis
    using assms fo
    by (auto simp: appendInlock_def f1 Let_def rollFile_def FileUtil_new_def LogFile_flush_def)
qed

definition example_log :: LogFile where
  "example_log = \<lparr>lbasename = ''srv'', rollsize = 4, flushInterval = 3, checkEveryN = 1024, count = 7,
     startOfPeriod = 0, lastRoll = 100, lastFlush = 100,
     lfile = Some \<lparr>file_name = ''a'', fbytes = ''xy'', fflushed = 0, writtenBytes = 2\<rparr>, closed = []\<rparr>"

theorem log_file_rolls_witness:
  "\<exists>l' f'. appendInlock (example_env 101 5) example_log ''hello'' = Some (Inr l') \<and> lfile l' = Some f' \<and>
    (if lastRoll example_log < now_roll (example_env 101 5)
     then fbytes f' = [] \<and> writtenBytes f' = 0 \<and> closed l' = closed example_log @ [FileUtil_flush
       (\<lparr>file_name = ''a'', fbytes = ''xy'', fflushed = 0, writtenBytes = 2\<rparr>
          \<lparr>fbytes := ''xy'' @ ''hello'', writtenBytes := 2 + length ''hello''\<rparr>)]
     else fbytes f' = ''xy'' @ ''hello'' \<and> closed l' = closed example_log)"
  using log_file_rolls [of example_log "\<lparr>file_name = ''a'', fbytes = ''xy'', fflushed = 0, writtenBytes = 2\<rparr>"
      "example_env 101 5" "''hello''"]
  by (simp add: example_log_def example_env_def env_ok_def)

text \<open>When \<open>fwrite\<close> fails after taking part of the data, the loop ends after that one call; the part
  taken is in the file but is not added to \<open>writtenBytes_\<close>, and the rest of the data is dropped.\<close>

theorem failed_append_is_not_counted:
  assumes "taken r < length bytes" "ferror r"
  shows "\<exists>f'. FileUtil_append f bytes [r] = Some f' \<and> fbytes f' = fbytes f @ take (taken r) bytes \<and>
    writtenBytes f' = writtenBytes f"
  using FileUtil_append_once [of bytes r f] assms by (simp add: fwrite_contract_def)

theorem failed_append_is_not_counted_witness:
  "\<exists>f'. FileUtil_append \<lparr>file_name = ''a'', fbytes = [], fflushed = 0, writtenBytes = 0\<rparr> ''hello''
      [\<lparr>taken = 3, ferror = True\<rparr>] = Some f' \<and>
    fbytes f' = fbytes \<lparr>file_name = ''a'', fbytes = [], fflushed = 0, writtenBytes = 0\<rparr>
      @ take (taken \<lparr>taken = 3, ferror = True\<rparr>) ''hello'' \<and>
    writtenBytes f' = writtenBytes \<lparr>file_name = ''a'', fbytes = [], fflushed = 0, writtenBytes = 0\<rparr>"
  by (rule failed_append_is_not_counted) simp_all

end
