(* ===== verification/AsyncLogging.thy ===== *)
theory AsyncLogging
  imports LogFile
begin

text \<open>
  The asynchronous logger (\<open>include/AsyncLogging.h\<close>, \<open>log/AsyncLogging.cc\<close>): the front end appends
  lines to \<open>currentBuffer_\<close> under the mutex, the back-end thread collects the buffers under the mutex,
  writes them to the log file without it, and recycles two of them.

  The state holds the shared members and the local variables of \<open>threadFunc\<close>; a \<open>unique_ptr\<close> that
  has been moved from is \<open>None\<close>, and dereferencing one is \<open>NullDeref\<close>. One event is one critical
  section of a thread or one stretch of \<open>threadFunc\<close> that touches only its local variables, so a
  sequence of events is an interleaving of the front-end threads with the back end. The storage that
  \<open>new LargeBuffer\<close> finds is an argument. The test of \<open>while (running_)\<close> is an event of its own: between
  it and the collecting the back end waits for the mutex or on the condition variable, and other
  threads may append or stop. The wait ends by notification or by timeout, and the code after it is the
  same, so it leaves no other trace in the state.
\<close>

section \<open>State\<close>

datatype backend_pc = NotStarted | Started | Top | Collecting | Writing | Recycle | Finished

record AsyncLogging =
  running :: bool
  alog_basename :: string
  rollSize :: nat
  currentBuffer :: "FixedBuffer option"
  nextBuffer :: "FixedBuffer option"
  buffers :: "FixedBuffer option list"
  pc :: backend_pc
  outfile :: "LogFile option"
  newbuffer1 :: "FixedBuffer option"
  newbuffer2 :: "FixedBuffer option"
  buffersToWrite :: "FixedBuffer option list"
  unwritten :: "FixedBuffer option list"

text \<open>
  \<open>unwritten\<close> is the part of \<open>buffersToWrite\<close> that the range-based \<open>for\<close> loop has not reached yet.
\<close>

definition new_zeroed :: "char list \<Rightarrow> FixedBuffer" where
  "new_zeroed junk = FixedBuffer_bzero (FixedBuffer_new junk)"

definition AsyncLogging_new :: "char list \<Rightarrow> char list \<Rightarrow> string \<Rightarrow> nat \<Rightarrow> AsyncLogging" where
  "AsyncLogging_new junk1 junk2 base rs =
     \<lparr>running = False, alog_basename = base, rollSize = rs,
      currentBuffer = Some (new_zeroed junk1), nextBuffer = Some (new_zeroed junk2), buffers = [],
      pc = NotStarted, outfile = None, newbuffer1 = None, newbuffer2 = None, buffersToWrite = [], unwritten = []\<rparr>"

section \<open>Front end\<close>

definition on_buffer :: "FixedBuffer option \<Rightarrow> (FixedBuffer \<Rightarrow> 'a result) \<Rightarrow> 'a result" where
  "on_buffer p g = (case p of None \<Rightarrow> Inl NullDeref | Some b \<Rightarrow> g b)"

definition AsyncLogging_append :: "char list \<Rightarrow> AsyncLogging \<Rightarrow> char list \<Rightarrow> AsyncLogging result" where
  "AsyncLogging_append junk a logline =
     on_buffer (currentBuffer a) (\<lambda>b.
       if length logline < FixedBuffer_avail b
       then bind_r (FixedBuffer_append b logline) (\<lambda>b'. Inr (a\<lparr>currentBuffer := Some b'\<rparr>))
       else
         (let a1 = a\<lparr>buffers := buffers a @ [currentBuffer a], currentBuffer := None\<rparr>;
              a2 = (if nextBuffer a1 \<noteq> None then a1\<lparr>currentBuffer := nextBuffer a1, nextBuffer := None\<rparr>
                    else a1\<lparr>currentBuffer := Some (FixedBuffer_new junk)\<rparr>)
          in on_buffer (currentBuffer a2) (\<lambda>b2.
               bind_r (FixedBuffer_append b2 logline) (\<lambda>b'. Inr (a2\<lparr>currentBuffer := Some b'\<rparr>)))))"

text \<open>\<open>start\<close> creates the back-end thread, which then enters \<open>threadFunc\<close> whatever becomes of \<open>running_\<close>.\<close>

definition AsyncLogging_start :: "AsyncLogging \<Rightarrow> AsyncLogging" where
  "AsyncLogging_start a = a\<lparr>running := True, pc := Started\<rparr>"

definition AsyncLogging_stop :: "AsyncLogging \<Rightarrow> AsyncLogging" where
  "AsyncLogging_stop a = a\<lparr>running := False\<rparr>"

definition AsyncLogging_destroy :: "AsyncLogging \<Rightarrow> AsyncLogging" where
  "AsyncLogging_destroy a = (if running a then AsyncLogging_stop a else a)"

section \<open>Back end\<close>

text \<open>The code of \<open>threadFunc\<close> in front of the loop.\<close>

definition threadFunc_enter :: "lf_env \<Rightarrow> int \<Rightarrow> char list \<Rightarrow> char list \<Rightarrow> AsyncLogging \<Rightarrow> AsyncLogging result" where
  "threadFunc_enter e count0 junk1 junk2 a =
     bind_r (LogFile_new e count0 (alog_basename a) (rollSize a) 3 1024) (\<lambda>l.
       Inr (a\<lparr>outfile := Some l, newbuffer1 := Some (new_zeroed junk1), newbuffer2 := Some (new_zeroed junk2),
              buffersToWrite := [], unwritten := [], pc := Top\<rparr>))"

text \<open>The test of the loop that goes on.\<close>

definition threadFunc_test :: "AsyncLogging \<Rightarrow> AsyncLogging" where
  "threadFunc_test a = a\<lparr>pc := Collecting\<rparr>"

text \<open>The first phase, under the mutex.\<close>

definition threadFunc_collect :: "AsyncLogging \<Rightarrow> AsyncLogging" where
  "threadFunc_collect a =
     (let a1 = a\<lparr>buffers := buffers a @ [currentBuffer a], currentBuffer := newbuffer1 a, newbuffer1 := None\<rparr>;
          a2 = (if nextBuffer a1 = None then a1\<lparr>nextBuffer := newbuffer2 a1, newbuffer2 := None\<rparr> else a1);
          a3 = a2\<lparr>buffersToWrite := buffers a2, buffers := buffersToWrite a2\<rparr>
      in a3\<lparr>unwritten := buffersToWrite a3, pc := Writing\<rparr>)"

text \<open>One turn of the \<open>for\<close> loop of the second phase.\<close>

definition threadFunc_write :: "lf_env \<Rightarrow> AsyncLogging \<Rightarrow> AsyncLogging result option" where
  "threadFunc_write e a =
     (case unwritten a of
        [] \<Rightarrow> Some (Inr (a\<lparr>pc := Recycle\<rparr>))
      | p # ps \<Rightarrow>
          (case p of
             None \<Rightarrow> Some (Inl NullDeref)
           | Some b \<Rightarrow>
               (case (outfile a, FixedBuffer_toString b) of
                  (Some l, Inr bytes) \<Rightarrow>
                    (case appendInlock e l bytes of
                       None \<Rightarrow> None
                     | Some (Inl x) \<Rightarrow> Some (Inl x)
                     | Some (Inr l') \<Rightarrow> Some (Inr (a\<lparr>outfile := Some l', unwritten := ps\<rparr>)))
                | (Some l, Inl x) \<Rightarrow> Some (Inl x)
                | (None, _) \<Rightarrow> Some (Inl NullDeref))))"

text \<open>
  \<open>newbuffer = std::move(buffersToWrite.back()); buffersToWrite.pop_back(); newbuffer->reset();\<close>
  \<open>back()\<close> of an empty vector is out of bounds.
\<close>

definition take_back :: "FixedBuffer option list \<Rightarrow> (FixedBuffer \<times> FixedBuffer option list) result" where
  "take_back ps =
     (if ps = [] then Inl OutOfBounds
      else on_buffer (List.last ps) (\<lambda>b. Inr (FixedBuffer_reset b, butlast ps)))"

definition threadFunc_recycle :: "AsyncLogging \<Rightarrow> AsyncLogging result" where
  "threadFunc_recycle a =
     (let w = (if 2 < length (buffersToWrite a) then take 2 (buffersToWrite a) else buffersToWrite a) in
      bind_r (if newbuffer1 a = None then bind_r (take_back w) (\<lambda>(b, w'). Inr (Some b, w')) else Inr (newbuffer1 a, w))
        (\<lambda>(n1, w1).
      bind_r (if newbuffer2 a = None then bind_r (take_back w1) (\<lambda>(b, w'). Inr (Some b, w')) else Inr (newbuffer2 a, w1))
        (\<lambda>(n2, w2).
      bind_r (case outfile a of None \<Rightarrow> Inl NullDeref | Some l \<Rightarrow> LogFile_flush l) (\<lambda>l.
        Inr (a\<lparr>newbuffer1 := n1, newbuffer2 := n2, buffersToWrite := [], outfile := Some l, pc := Top\<rparr>)))))"

definition threadFunc_exit :: "AsyncLogging \<Rightarrow> AsyncLogging result" where
  "threadFunc_exit a =
     bind_r (case outfile a of None \<Rightarrow> Inl NullDeref | Some l \<Rightarrow> LogFile_flush l) (\<lambda>l.
       Inr (a\<lparr>outfile := Some l, pc := Finished\<rparr>))"

section \<open>Interleavings\<close>

datatype aevent =
    EvStart
  | EvStop
  | EvAppend "char list" "char list"
  | EvEnter lf_env int "char list" "char list"
  | EvTest
  | EvCollect
  | EvWrite lf_env
  | EvRecycle
  | EvExit

text \<open>One event, with the guard of the thread it belongs to; \<open>None\<close> when the event cannot happen. \<open>start\<close> is
  called once.\<close>

fun astep :: "AsyncLogging \<Rightarrow> aevent \<Rightarrow> AsyncLogging result option" where
  "astep a EvStart = (if pc a \<noteq> NotStarted then None else Some (Inr (AsyncLogging_start a)))"
| "astep a EvStop = Some (Inr (AsyncLogging_stop a))"
| "astep a (EvAppend junk s) = Some (AsyncLogging_append junk a s)"
| "astep a (EvEnter e c j1 j2) =
     (if pc a = Started then Some (threadFunc_enter e c j1 j2 a) else None)"
| "astep a EvTest = (if pc a = Top \<and> running a then Some (Inr (threadFunc_test a)) else None)"
| "astep a EvCollect = (if pc a = Collecting then Some (Inr (threadFunc_collect a)) else None)"
| "astep a (EvWrite e) = (if pc a = Writing then threadFunc_write e a else None)"
| "astep a EvRecycle = (if pc a = Recycle then Some (threadFunc_recycle a) else None)"
| "astep a EvExit = (if pc a = Top \<and> \<not> running a then Some (threadFunc_exit a) else None)"

fun arun :: "AsyncLogging \<Rightarrow> aevent list \<Rightarrow> AsyncLogging result option" where
  "arun a [] = Some (Inr a)"
| "arun a (ev # evs) =
     (case astep a ev of
        None \<Rightarrow> None
      | Some (Inl x) \<Rightarrow> Some (Inl x)
      | Some (Inr a1) \<Rightarrow> arun a1 evs)"

section \<open>Invariant and the stream of lines\<close>

definition pcontent :: "FixedBuffer option \<Rightarrow> char list" where
  "pcontent p = (case p of None \<Rightarrow> [] | Some b \<Rightarrow> fb_content b)"

definition pok :: "FixedBuffer option \<Rightarrow> bool" where
  "pok p \<longleftrightarrow> (\<exists>b. p = Some b \<and> fb_ok b \<and> length (fdata b) = kLargeBufferSize)"

definition pempty :: "FixedBuffer option \<Rightarrow> bool" where
  "pempty p \<longleftrightarrow> pok p \<and> pcontent p = []"

text \<open>
  Everything accepted so far, oldest first: the log files, the buffers being written, the full
  buffers, the current buffer.
\<close>

definition written :: "AsyncLogging \<Rightarrow> char list" where
  "written a = (case outfile a of None \<Rightarrow> [] | Some l \<Rightarrow> log_bytes l)"

definition pending :: "AsyncLogging \<Rightarrow> char list" where
  "pending a = concat (map pcontent (unwritten a @ buffers a)) @ pcontent (currentBuffer a)"

definition async_ok :: "AsyncLogging \<Rightarrow> bool" where
  "async_ok a \<longleftrightarrow>
     pok (currentBuffer a) \<and> (\<forall>p \<in> set (buffers a) \<union> set (buffersToWrite a) \<union> set (unwritten a). pok p) \<and>
     (nextBuffer a \<noteq> None \<longrightarrow> pempty (nextBuffer a)) \<and>
     (nextBuffer a = None \<longrightarrow> buffers a \<noteq> []) \<and>
     (pc a \<in> {NotStarted, Started} \<longrightarrow> outfile a = None) \<and>
     (pc a \<notin> {NotStarted, Started} \<longrightarrow> (\<exists>l. outfile a = Some l \<and> log_ok l)) \<and>
     (newbuffer1 a \<noteq> None \<longrightarrow> pempty (newbuffer1 a)) \<and> (newbuffer2 a \<noteq> None \<longrightarrow> pempty (newbuffer2 a)) \<and>
     (pc a \<in> {Top, Collecting, Finished} \<longrightarrow> newbuffer1 a \<noteq> None \<and> newbuffer2 a \<noteq> None \<and> buffersToWrite a = []) \<and>
     (pc a \<in> {Writing, Recycle} \<longrightarrow> (newbuffer1 a = None \<longrightarrow> buffersToWrite a \<noteq> []) \<and>
        (newbuffer2 a = None \<longrightarrow> newbuffer1 a = None \<and> 2 \<le> length (buffersToWrite a))) \<and>
     (pc a \<noteq> Writing \<longrightarrow> unwritten a = [])"

text \<open>What an event may find: storage of the right size, a log file that can be written.\<close>

fun event_ok :: "AsyncLogging \<Rightarrow> aevent \<Rightarrow> bool" where
  "event_ok a (EvAppend junk s) = (length junk = kLargeBufferSize \<and> length s < kLargeBufferSize)"
| "event_ok a (EvEnter e c j1 j2) =
     (length j1 = kLargeBufferSize \<and> length j2 = kLargeBufferSize \<and> fopen_ok e \<and> 0 < now_roll e)"
| "event_ok a (EvWrite e) = (unwritten a \<noteq> [] \<longrightarrow> env_ok e (pcontent (hd (unwritten a))))"
| "event_ok a _ = True"

fun accepted :: "aevent \<Rightarrow> char list" where
  "accepted (EvAppend junk s) = s"
| "accepted _ = []"

lemma kLarge_bounds: "0 < kLargeBufferSize" "kLargeBufferSize < 2 ^ 31"
  by (simp_all add: kLargeBufferSize_def)

lemma pempty_new: "length junk = kLargeBufferSize \<Longrightarrow> pempty (Some (FixedBuffer_new junk))"
  using FixedBuffer_new_ok [of junk] kLarge_bounds by (simp add: pempty_def pok_def pcontent_def FixedBuffer_new_def)

lemma pempty_new_zeroed: "length junk = kLargeBufferSize \<Longrightarrow> pempty (Some (new_zeroed junk))"
  using kLarge_bounds
  by (simp add: pempty_def pok_def pcontent_def new_zeroed_def FixedBuffer_new_def FixedBuffer_bzero_def fb_ok_def
      fb_content_def)

lemma pempty_reset: "pok (Some b) \<Longrightarrow> pempty (Some (FixedBuffer_reset b))"
  using FixedBuffer_reset_ok [of b] by (auto simp: pempty_def pok_def pcontent_def)

lemma pempty_pok: "pempty p \<Longrightarrow> pok p" "pempty p \<Longrightarrow> pcontent p = []"
  by (simp_all add: pempty_def)

lemmas pdefs = pok_def pempty_def pcontent_def

text \<open>A line goes into a buffer that has room for it.\<close>

lemma append_into:
  assumes "pok (Some b)" "length s < FixedBuffer_avail b"
  obtains b' where "FixedBuffer_append b s = Inr b'" "pok (Some b')" "pcontent (Some b') = pcontent (Some b) @ s"
  using assms FixedBuffer_append_ok [of b s] by (auto simp: pdefs)

lemma append_into_empty:
  assumes "pempty (Some b)" "length s < kLargeBufferSize"
  obtains b' where "FixedBuffer_append b s = Inr b'" "pok (Some b')" "pcontent (Some b') = s"
proof -
  have "length s < FixedBuffer_avail b" using assms avail_eq [of b] by (auto simp: pdefs)
  from append_into [OF pempty_pok(1) [OF assms(1)] this] show thesis
    using that pempty_pok(2) [OF assms(1)] by auto
qed

lemma async_okD:
  assumes "async_ok a"
  shows "pok (currentBuffer a)"
    "p \<in> set (buffers a) \<union> set (buffersToWrite a) \<union> set (unwritten a) \<Longrightarrow> pok p"
    "nextBuffer a \<noteq> None \<Longrightarrow> pempty (nextBuffer a)" "nextBuffer a = None \<Longrightarrow> buffers a \<noteq> []"
    "pc a \<notin> {NotStarted, Started} \<Longrightarrow> \<exists>l. outfile a = Some l \<and> log_ok l"
    "newbuffer1 a \<noteq> None \<Longrightarrow> pempty (newbuffer1 a)" "newbuffer2 a \<noteq> None \<Longrightarrow> pempty (newbuffer2 a)"
    "pc a \<in> {Writing, Recycle} \<Longrightarrow> newbuffer1 a = None \<Longrightarrow> buffersToWrite a \<noteq> []"
    "pc a \<in> {Writing, Recycle} \<Longrightarrow> newbuffer2 a = None \<Longrightarrow> newbuffer1 a = None \<and> 2 \<le> length (buffersToWrite a)"
  using assms unfolding async_ok_def by blast+

section \<open>Every event keeps the invariant and the stream\<close>

lemma AsyncLogging_append_ok:
  assumes ok: "async_ok a" and s: "length s < kLargeBufferSize" and j: "length junk = kLargeBufferSize"
  shows "\<exists>a'. AsyncLogging_append junk a s = Inr a' \<and> async_ok a' \<and> written a' = written a \<and>
    pending a' = pending a @ s"
proof -
  obtain b where b: "currentBuffer a = Some b" "pok (Some b)"
    using async_okD(1) [OF ok] by (cases "currentBuffer a") (auto simp: pok_def)
  show ?thesis
  proof (cases "length s < FixedBuffer_avail b")
    case True
    obtain b' where b': "FixedBuffer_append b s = Inr b'" "pok (Some b')" "pcontent (Some b') = pcontent (Some b) @ s"
      by (rule append_into [OF b(2) True])
    let ?a' = "a\<lparr>currentBuffer := Some b'\<rparr>"
    have "AsyncLogging_append junk a s = Inr ?a'"
      using True b b' by (simp add: AsyncLogging_append_def on_buffer_def)
    moreover have "async_ok ?a'" using ok b' by (auto simp: async_ok_def)
    ultimately show ?thesis using b b' by (simp add: written_def pending_def)
  next
    case False
    define c where "c = (case nextBuffer a of None \<Rightarrow> FixedBuffer_new junk | Some n \<Rightarrow> n)"
    have "pempty (Some c)"
      using async_okD(3) [OF ok] pempty_new [OF j] by (cases "nextBuffer a") (simp_all add: c_def)
    then obtain b' where b': "FixedBuffer_append c s = Inr b'" "pok (Some b')" "pcontent (Some b') = s"
      using s by (rule append_into_empty)
    let ?a' = "a\<lparr>buffers := buffers a @ [Some b], nextBuffer := None, currentBuffer := Some b'\<rparr>"
    have "AsyncLogging_append junk a s = Inr ?a'"
      using False b b'(1)
      by (cases "nextBuffer a") (simp_all add: AsyncLogging_append_def on_buffer_def Let_def c_def)
    moreover have "async_ok ?a'" using ok b b' by (auto simp: async_ok_def)
    ultimately show ?thesis using b b' by (simp add: written_def pending_def)
  qed
qed

lemma threadFunc_enter_ok:
  assumes ok: "async_ok a" "pc a = Started" and e: "fopen_ok e" "0 < now_roll e"
    and j: "length j1 = kLargeBufferSize" "length j2 = kLargeBufferSize"
  shows "\<exists>a'. threadFunc_enter e c j1 j2 a = Inr a' \<and> async_ok a' \<and> written a' = written a \<and> pending a' = pending a"
proof -
  obtain l where l: "LogFile_new e c (alog_basename a) (rollSize a) 3 1024 = Inr l" "log_ok l" "log_bytes l = []"
    by (rule LogFile_new_ok [OF e])
  then show ?thesis
    using ok pempty_new_zeroed [OF j(1)] pempty_new_zeroed [OF j(2)]
    by (simp add: threadFunc_enter_def async_ok_def written_def pending_def)
qed

lemma threadFunc_test_ok:
  assumes "async_ok a" "pc a = Top"
  shows "async_ok (threadFunc_test a) \<and> written (threadFunc_test a) = written a \<and>
    pending (threadFunc_test a) = pending a"
  using assms by (simp add: threadFunc_test_def async_ok_def written_def pending_def)

lemma threadFunc_collect_ok:
  assumes ok: "async_ok a" "pc a = Collecting"
  shows "async_ok (threadFunc_collect a) \<and> written (threadFunc_collect a) = written a \<and>
    pending (threadFunc_collect a) = pending a"
proof -
  have e: "pempty (newbuffer1 a)" "pempty (newbuffer2 a)" "buffersToWrite a = []" "unwritten a = []"
    using ok by (auto simp: async_ok_def)
  have "async_ok (threadFunc_collect a)"
  proof (cases "nextBuffer a = None")
    case True
    then have "buffers a \<noteq> []" using ok by (simp add: async_ok_def)
    then have "2 \<le> length (buffers a @ [currentBuffer a])" by (cases "buffers a") simp_all
    with True ok e show ?thesis
      by (auto simp: async_ok_def threadFunc_collect_def Let_def pempty_pok)
  next
    case False
    with ok e show ?thesis by (auto simp: async_ok_def threadFunc_collect_def Let_def pempty_pok)
  qed
  then show ?thesis
    using e by (simp add: threadFunc_collect_def Let_def written_def pending_def pempty_pok)
qed

lemma threadFunc_write_ok:
  assumes ok: "async_ok a" "pc a = Writing" and e: "unwritten a \<noteq> [] \<longrightarrow> env_ok e (pcontent (hd (unwritten a)))"
  shows "\<exists>a'. threadFunc_write e a = Some (Inr a') \<and> async_ok a' \<and> written a' @ pending a' = written a @ pending a"
proof (cases "unwritten a")
  case Nil
  then have "threadFunc_write e a = Some (Inr (a\<lparr>pc := Recycle\<rparr>))" by (simp add: threadFunc_write_def)
  moreover have "async_ok (a\<lparr>pc := Recycle\<rparr>)" using ok Nil by (simp add: async_ok_def)
  ultimately show ?thesis by (simp add: written_def pending_def)
next
  case (Cons p ps)
  with ok have "pok p" by (simp add: async_ok_def)
  then obtain b where b: "p = Some b" "fb_ok b" by (auto simp: pok_def)
  obtain l where l: "outfile a = Some l" "log_ok l" using ok by (auto simp: async_ok_def)
  have "env_ok e (fb_content b)" using e Cons b by (simp add: pcontent_def)
  with l(2) obtain l' where l': "appendInlock e l (fb_content b) = Some (Inr l')" "log_ok l'"
    "log_bytes l' = log_bytes l @ fb_content b" by (rule appendInlock_ok)
  let ?a' = "a\<lparr>outfile := Some l', unwritten := ps\<rparr>"
  have "threadFunc_write e a = Some (Inr ?a')"
    using Cons b l l' by (simp add: threadFunc_write_def FixedBuffer_toString_ok)
  moreover have "async_ok ?a'" using ok Cons l' by (simp add: async_ok_def)
  moreover have "written ?a' @ pending ?a' = written a @ pending a"
    using Cons b l l' by (simp add: written_def pending_def pcontent_def)
  ultimately show ?thesis by blast
qed

lemma take_back_ok:
  assumes "ps \<noteq> []" "\<forall>p \<in> set ps. pok p"
  obtains b where "take_back ps = Inr (b, butlast ps)" "pempty (Some b)"
proof -
  have "pok (List.last ps)" using assms by simp
  then obtain b where b: "List.last ps = Some b" "pok (Some b)" by (auto simp: pok_def)
  then show thesis using that assms(1) pempty_reset [OF b(2)] by (simp add: take_back_def on_buffer_def)
qed

lemma threadFunc_recycle_ok:
  assumes ok: "async_ok a" "pc a = Recycle"
  shows "\<exists>a'. threadFunc_recycle a = Inr a' \<and> async_ok a' \<and> written a' = written a \<and> pending a' = pending a"
proof -
  obtain l where l: "outfile a = Some l" "log_ok l" using ok by (auto simp: async_ok_def)
  obtain l' where l': "LogFile_flush l = Inr l'" "log_ok l'" "log_bytes l' = log_bytes l"
    by (rule LogFile_flush_ok [OF l(2)])
  define w where "w = (if 2 < length (buffersToWrite a) then take 2 (buffersToWrite a) else buffersToWrite a)"
  have w: "\<forall>p \<in> set w. pok p" "length w = min 2 (length (buffersToWrite a))"
    using ok by (auto simp: w_def async_ok_def dest: in_set_takeD)
  have nb: "newbuffer1 a = None \<Longrightarrow> w \<noteq> []" "newbuffer2 a = None \<Longrightarrow> newbuffer1 a = None \<and> length w = 2"
  proof -
    assume n: "newbuffer1 a = None"
    then have "0 < length (buffersToWrite a)" using async_okD(8) [OF ok(1)] ok(2) by simp
    then have "0 < length w" using w(2) by simp
    then show "w \<noteq> []" by simp
  next
    assume "newbuffer2 a = None"
    then show "newbuffer1 a = None \<and> length w = 2" using async_okD(9) [OF ok(1)] ok(2) w(2) by simp
  qed
  obtain n1 w1 where n1: "(if newbuffer1 a = None then bind_r (take_back w) (\<lambda>(b, w'). Inr (Some b, w'))
      else Inr (newbuffer1 a, w)) = Inr (n1, w1)" "pempty n1" "\<forall>p \<in> set w1. pok p"
      "newbuffer1 a = None \<Longrightarrow> length w1 = length w - 1"
  proof (cases "newbuffer1 a = None")
    case True
    obtain b where "take_back w = Inr (b, butlast w)" "pempty (Some b)" by (rule take_back_ok [OF nb(1) [OF True] w(1)])
    then show thesis using that [of "Some b" "butlast w"] True w(1) by (auto dest: in_set_butlastD)
  next
    case False
    then show thesis using that [of "newbuffer1 a" w] ok w(1) by (auto simp: async_ok_def)
  qed
  obtain n2 w2 where n2: "(if newbuffer2 a = None then bind_r (take_back w1) (\<lambda>(b, w'). Inr (Some b, w'))
      else Inr (newbuffer2 a, w1)) = Inr (n2, w2)" "pempty n2"
  proof (cases "newbuffer2 a = None")
    case True
    then have "w1 \<noteq> []" using nb(2) n1(4) by auto
    then obtain b where "take_back w1 = Inr (b, butlast w1)" "pempty (Some b)" using n1(3) by (rule take_back_ok)
    then show thesis using that [of "Some b" "butlast w1"] True by simp
  next
    case False
    then show thesis using that [of "newbuffer2 a" w1] ok by (auto simp: async_ok_def)
  qed
  let ?a' = "a\<lparr>newbuffer1 := n1, newbuffer2 := n2, buffersToWrite := [], outfile := Some l', pc := Top\<rparr>"
  have "threadFunc_recycle a = Inr ?a'"
    unfolding threadFunc_recycle_def Let_def w_def [symmetric] n1(1) bind_r_simps case_prod_conv n2(1)
    by (simp add: l l')
  moreover have "async_ok ?a'"
    using ok n1(2) n2(2) l' by (auto simp: async_ok_def pempty_def pok_def)
  ultimately show ?thesis using l l' by (simp add: written_def pending_def)
qed

lemma threadFunc_exit_ok:
  assumes ok: "async_ok a" "pc a = Top"
  shows "\<exists>a'. threadFunc_exit a = Inr a' \<and> async_ok a' \<and> written a' = written a \<and> pending a' = pending a"
proof -
  obtain l where l: "outfile a = Some l" "log_ok l" using ok by (auto simp: async_ok_def)
  obtain l' where "LogFile_flush l = Inr l'" "log_ok l'" "log_bytes l' = log_bytes l"
    by (rule LogFile_flush_ok [OF l(2)])
  then show ?thesis using ok l by (simp add: threadFunc_exit_def async_ok_def written_def pending_def)
qed

lemma start_stop_ok:
  assumes "async_ok a"
  shows "pc a = NotStarted \<Longrightarrow> async_ok (AsyncLogging_start a)" "async_ok (AsyncLogging_stop a)"
    "written (AsyncLogging_start a) = written a" "written (AsyncLogging_stop a) = written a"
    "pending (AsyncLogging_start a) = pending a" "pending (AsyncLogging_stop a) = pending a"
  using assms by (simp_all add: AsyncLogging_start_def AsyncLogging_stop_def async_ok_def written_def pending_def)

lemma astep_ok:
  assumes ok: "async_ok a" and ev: "event_ok a ev" and st: "astep a ev = Some r"
  shows "\<exists>a'. r = Inr a' \<and> async_ok a' \<and> written a' @ pending a' = written a @ pending a @ accepted ev"
proof (cases ev)
  case EvStart
  then show ?thesis using st start_stop_ok [OF ok] by (auto split: if_splits)
next
  case EvStop
  then show ?thesis using st start_stop_ok [OF ok] by auto
next
  case (EvAppend junk s)
  then show ?thesis using st ev AsyncLogging_append_ok [OF ok, of s junk] by auto
next
  case (EvEnter e c j1 j2)
  then show ?thesis using st ev threadFunc_enter_ok [OF ok, of e j1 j2 c] by (auto split: if_splits)
next
  case EvTest
  then show ?thesis using st threadFunc_test_ok [OF ok] by (auto split: if_splits)
next
  case EvCollect
  then show ?thesis using st threadFunc_collect_ok [OF ok] by (auto split: if_splits)
next
  case (EvWrite e)
  then show ?thesis using st ev threadFunc_write_ok [OF ok, of e] by (auto split: if_splits)
next
  case EvRecycle
  then show ?thesis using st threadFunc_recycle_ok [OF ok] by (auto split: if_splits)
next
  case EvExit
  then show ?thesis using st threadFunc_exit_ok [OF ok] by (auto split: if_splits)
qed

lemma AsyncLogging_new_ok:
  assumes "length junk1 = kLargeBufferSize" "length junk2 = kLargeBufferSize"
  shows "async_ok (AsyncLogging_new junk1 junk2 base rs)"
    "written (AsyncLogging_new junk1 junk2 base rs) = []" "pending (AsyncLogging_new junk1 junk2 base rs) = []"
  using pempty_new_zeroed [OF assms(1)] pempty_new_zeroed [OF assms(2)]
  by (simp_all add: AsyncLogging_new_def async_ok_def written_def pending_def pempty_def)

text \<open>The reachable states of the logger, as a transition system.\<close>

definition async_initial :: "AsyncLogging \<Rightarrow> bool" where
  "async_initial a \<longleftrightarrow> (\<exists>junk1 junk2 base rs. length junk1 = kLargeBufferSize \<and> length junk2 = kLargeBufferSize \<and>
     a = AsyncLogging_new junk1 junk2 base rs)"

definition async_next :: "AsyncLogging \<Rightarrow> AsyncLogging \<Rightarrow> bool" where
  "async_next a a' \<longleftrightarrow> (\<exists>ev. event_ok a ev \<and> astep a ev = Some (Inr a'))"

interpretation async: invariant_system async_initial async_next async_ok
proof (unfold_locales, goal_cases)
  case (1 a)
  then show ?case by (auto simp: async_initial_def AsyncLogging_new_ok)
next
  case (2 a a')
  then show ?case using astep_ok by (fastforce simp: async_next_def)
qed

text \<open>Runs in which every event finds what it needs.\<close>

fun run_ok :: "AsyncLogging \<Rightarrow> aevent list \<Rightarrow> bool" where
  "run_ok a [] \<longleftrightarrow> True"
| "run_ok a (ev # evs) \<longleftrightarrow> event_ok a ev \<and>
     (case astep a ev of Some (Inr a1) \<Rightarrow> run_ok a1 evs | Some (Inl x) \<Rightarrow> True | None \<Rightarrow> False)"

lemma arun_ok:
  assumes "async_ok a" "run_ok a evs"
  shows "\<exists>a'. arun a evs = Some (Inr a') \<and> async_ok a' \<and>
    written a' @ pending a' = written a @ pending a @ concat (map accepted evs)"
  using assms
proof (induction evs arbitrary: a)
  case (Cons ev evs)
  then obtain r where r: "astep a ev = Some r" by (auto split: option.splits)
  from astep_ok [OF Cons.prems(1) _ r] Cons.prems(2) obtain a1 where
    a1: "r = Inr a1" "async_ok a1" "written a1 @ pending a1 = written a @ pending a @ accepted ev" by auto
  from Cons.IH [OF a1(2)] Cons.prems(2) r a1(1) obtain a' where
    "arun a1 evs = Some (Inr a')" "async_ok a'"
    "written a' @ pending a' = written a1 @ pending a1 @ concat (map accepted evs)" by auto
  moreover have "written a1 @ pending a1 @ x = written a @ pending a @ accepted ev @ x" for x
    using a1(3) by (metis append_assoc)
  ultimately show ?case using r a1(1) by auto
qed simp

section \<open>Properties\<close>

definition zeros :: "char list" where
  "zeros = replicate kLargeBufferSize (CHR 0x00)"

definition example_events :: "aevent list" where
  "example_events =
     [EvStart, EvEnter (example_env 100 0) 0 zeros zeros, EvTest, EvCollect, EvAppend zeros ''first'', EvAppend zeros ''second'']"

lemma example_events_ok: "run_ok (AsyncLogging_new zeros zeros ''srv'' 100) example_events"
  by (simp add: example_events_def zeros_def AsyncLogging_new_def AsyncLogging_start_def threadFunc_enter_def
      LogFile_new_def rollFile_def FileUtil_new_def example_env_def Let_def threadFunc_test_def threadFunc_collect_def
      kLargeBufferSize_def split: sum.splits)

text \<open>C10: For every interleaving of front-end appends with the steps of the back-end thread, no null
  buffer is dereferenced, no empty vector is popped, and the bytes in the log files followed by the
  bytes still in the buffers are exactly the appended lines, in the order they were appended.\<close>

theorem async_log_no_loss:
  assumes "length junk1 = kLargeBufferSize" "length junk2 = kLargeBufferSize"
    "run_ok (AsyncLogging_new junk1 junk2 base rs) evs"
  shows "\<exists>a'. arun (AsyncLogging_new junk1 junk2 base rs) evs = Some (Inr a') \<and>
    written a' @ pending a' = concat (map accepted evs)"
  using arun_ok [OF AsyncLogging_new_ok(1) [OF assms(1,2)] assms(3)] AsyncLogging_new_ok(2,3) [OF assms(1,2)] by auto

theorem async_log_no_loss_witness:
  "\<exists>a'. arun (AsyncLogging_new zeros zeros ''srv'' 100) example_events = Some (Inr a') \<and>
    written a' @ pending a' = concat (map accepted example_events)"
  by (rule async_log_no_loss) (simp_all add: example_events_ok, simp_all add: zeros_def)

text \<open>In every reachable state the recycling phase finds the buffers it pops: it never calls \<open>back()\<close>
  on an empty vector, and afterwards both spare buffers of the back end are there and empty.\<close>

theorem async_recycle_always_possible:
  assumes "reachable async_initial async_next a" "pc a = Recycle"
  shows "\<exists>a'. threadFunc_recycle a = Inr a' \<and> pempty (newbuffer1 a') \<and> pempty (newbuffer2 a')"
proof -
  have ok: "async_ok a" using assms(1) by (rule async.reachable_inv)
  from threadFunc_recycle_ok [OF ok assms(2)] obtain a' where
    a': "threadFunc_recycle a = Inr a'" "async_ok a'" by blast
  then have "pc a' = Top" by (auto simp: threadFunc_recycle_def Let_def bind_r_Inr_iff split: prod.splits)
  then have "newbuffer1 a' \<noteq> None" "newbuffer2 a' \<noteq> None" using a'(2) unfolding async_ok_def by simp_all
  with async_okD(6,7) [OF a'(2)] a'(1) show ?thesis by blast
qed

definition example_top :: AsyncLogging where
  "example_top = \<lparr>running = True, alog_basename = ''srv'', rollSize = 100,
      currentBuffer = Some (new_zeroed zeros), nextBuffer = Some (new_zeroed zeros), buffers = [],
      pc = Top, outfile = Some \<lparr>lbasename = ''srv'', rollsize = 100, flushInterval = 3, checkEveryN = 1024,
        count = 0, startOfPeriod = 0, lastRoll = 100, lastFlush = 100, lfile = Some
          \<lparr>file_name = getLogFileName (example_env 100 0) ''srv'', fbytes = [], fflushed = 0, writtenBytes = 0\<rparr>,
        closed = []\<rparr>,
      newbuffer1 = Some (new_zeroed zeros), newbuffer2 = Some (new_zeroed zeros), buffersToWrite = [], unwritten = []\<rparr>"

lemma length_zeros: "length zeros = kLargeBufferSize"
  by (simp add: zeros_def)

lemma example_top_reachable: "reachable async_initial async_next example_top"
proof -
  let ?a0 = "AsyncLogging_new zeros zeros ''srv'' 100"
  have r0: "reachable async_initial async_next ?a0"
    unfolding async_initial_def using length_zeros by (intro reachable_init) blast
  have "astep ?a0 EvStart = Some (Inr (AsyncLogging_start ?a0))" by (simp add: AsyncLogging_new_def)
  then have r1: "reachable async_initial async_next (AsyncLogging_start ?a0)"
    by (intro reachable_step [OF r0]) (auto simp: async_next_def intro: exI [of _ EvStart])
  let ?ev = "EvEnter (example_env 100 0) 0 zeros zeros"
  have "astep (AsyncLogging_start ?a0) ?ev = Some (Inr example_top)"
    by (simp add: AsyncLogging_new_def AsyncLogging_start_def threadFunc_enter_def LogFile_new_def rollFile_def
        FileUtil_new_def Let_def example_top_def kRollPerSeconds_def tdiv_nonneg, simp add: example_env_def)
  moreover have "event_ok (AsyncLogging_start ?a0) ?ev" by (simp add: length_zeros example_env_def)
  ultimately show ?thesis by (intro reachable_step [OF r1]) (auto simp: async_next_def intro: exI [of _ ?ev])
qed

lemma reachable_arun:
  assumes "reachable async_initial async_next a" "run_ok a evs" "arun a evs = Some (Inr a')"
  shows "reachable async_initial async_next a'"
  using assms
proof (induction evs arbitrary: a)
  case (Cons ev evs)
  then obtain a1 where a1: "astep a ev = Some (Inr a1)" "arun a1 evs = Some (Inr a')"
    by (auto split: option.splits sum.splits)
  then have "async_next a a1" using Cons.prems(2) by (auto simp: async_next_def)
  with Cons.prems(1) have "reachable async_initial async_next a1" by (rule reachable_step)
  from Cons.IH [OF this] Cons.prems(2) a1 show ?case by simp
qed simp

definition example_recycle :: AsyncLogging where
  "example_recycle = (threadFunc_collect example_top)\<lparr>pc := Recycle, unwritten := [],
     outfile := map_option (\<lambda>l. l\<lparr>count := 1\<rparr>) (outfile example_top)\<rparr>"

lemma example_recycle_reachable: "reachable async_initial async_next example_recycle"
proof (rule reachable_arun [OF example_top_reachable])
  let ?evs = "[EvTest, EvCollect, EvWrite (example_env 100 0), EvWrite (example_env 100 0)]"
  have fs: "FixedBuffer_toString (new_zeroed zeros) = Inr []" "pcontent (Some (new_zeroed zeros)) = []"
    by (simp_all add: FixedBuffer_toString_def FixedBuffer_length_def new_zeroed_def FixedBuffer_new_def
        FixedBuffer_bzero_def vec_read_def pcontent_def fb_content_def)
  have fa: "FileUtil_append f [] (replies (example_env 100 0)) = Some f" for f
    by (simp add: FileUtil_append_def append_loop.simps)
  have e: "env_ok (example_env 100 0) []" "now_append (example_env 100 0) = 100"
    by (simp_all add: env_ok_def example_env_def)
  show "run_ok example_top ?evs" "arun example_top ?evs = Some (Inr example_recycle)"
    by (simp_all add: example_top_def threadFunc_test_def threadFunc_collect_def Let_def threadFunc_write_def fs appendInlock_def fa e
        example_recycle_def)
qed

theorem async_recycle_always_possible_witness:
  "\<exists>a'. threadFunc_recycle example_recycle = Inr a' \<and> pempty (newbuffer1 a') \<and> pempty (newbuffer2 a')"
  by (rule async_recycle_always_possible [OF example_recycle_reachable]) (simp add: example_recycle_def)

text \<open>
  A \<open>stop\<close> that finds the back end between the test of its loop and the collecting is followed by one
  more collecting, which takes everything that is pending then.
\<close>

lemma stop_while_waiting_collects:
  assumes "reachable async_initial async_next a" "pc a = Collecting"
  shows "\<exists>a'. astep (AsyncLogging_stop a) EvCollect = Some (Inr a') \<and> pc a' = Writing \<and>
    concat (map pcontent (unwritten a')) = pending a"
proof -
  have "async_ok (AsyncLogging_stop a)" using start_stop_ok(2) async.reachable_inv [OF assms(1)] by blast
  moreover have "pc (AsyncLogging_stop a) = Collecting" using assms(2) by (simp add: AsyncLogging_stop_def)
  ultimately show ?thesis by (auto simp: async_ok_def threadFunc_collect_def Let_def pending_def AsyncLogging_stop_def)
qed

text \<open>The bytes in the files and those the back end has taken out to write.\<close>

definition taken_out :: "AsyncLogging \<Rightarrow> char list" where
  "taken_out a = written a @ concat (map pcontent (unwritten a))"

lemma stopped_step:
  assumes ok: "async_ok a" and ev: "event_ok a ev" and st: "astep a ev = Some (Inr a')"
    and s: "\<not> running a" "pc a \<notin> {NotStarted, Collecting}"
  shows "\<not> running a' \<and> pc a' \<notin> {NotStarted, Collecting} \<and> taken_out a' = taken_out a"
proof (cases ev)
  case (EvAppend junk s)
  then show ?thesis
    using st s by (auto simp: AsyncLogging_append_def on_buffer_def Let_def bind_r_Inr_iff taken_out_def written_def
        split: option.splits if_splits)
next
  case (EvEnter e c j1 j2)
  then have "pc a = Started" and e: "threadFunc_enter e c j1 j2 a = Inr a'" using st by (auto split: if_splits)
  with threadFunc_enter_ok [OF ok, of e j1 j2 c] EvEnter ev have "written a' = written a" by simp
  then show ?thesis
    using e s ok \<open>pc a = Started\<close> by (auto simp: threadFunc_enter_def bind_r_Inr_iff taken_out_def async_ok_def)
next
  case (EvWrite e)
  then have w: "pc a = Writing" "threadFunc_write e a = Some (Inr a')" using st by (auto split: if_splits)
  from threadFunc_write_ok [OF ok w(1), of e] EvWrite ev w(2)
  have "written a' @ pending a' = written a @ pending a" by simp
  moreover have "buffers a' = buffers a \<and> currentBuffer a' = currentBuffer a \<and> running a' = running a \<and> pc a' \<in> {Writing, Recycle}"
    using w by (auto simp: threadFunc_write_def split: list.splits option.splits sum.splits)
  ultimately show ?thesis using s by (auto simp: taken_out_def pending_def)
next
  case EvRecycle
  then have w: "pc a = Recycle" "threadFunc_recycle a = Inr a'" using st by (auto split: if_splits)
  from threadFunc_recycle_ok [OF ok w(1)] w(2) have "written a' = written a" by simp
  moreover have "unwritten a' = unwritten a \<and> running a' = running a \<and> pc a' = Top"
    using w(2) by (auto simp: threadFunc_recycle_def Let_def bind_r_Inr_iff)
  ultimately show ?thesis using s by (simp add: taken_out_def)
next
  case EvExit
  then have w: "pc a = Top" "threadFunc_exit a = Inr a'" using st by (auto split: if_splits)
  from threadFunc_exit_ok [OF ok w(1)] w(2) have "written a' = written a" by simp
  moreover have "unwritten a' = unwritten a \<and> running a' = running a \<and> pc a' = Finished"
    using w(2) by (auto simp: threadFunc_exit_def bind_r_Inr_iff)
  ultimately show ?thesis using s by (simp add: taken_out_def)
qed (use st s in \<open>auto simp: AsyncLogging_stop_def taken_out_def written_def split: if_splits\<close>)

lemma stopped_run:
  assumes "async_ok a" "run_ok a evs" "\<not> running a" "pc a \<notin> {NotStarted, Collecting}"
  shows "\<exists>a'. arun a evs = Some (Inr a') \<and> async_ok a' \<and> taken_out a' = taken_out a"
  using assms
proof (induction evs arbitrary: a)
  case (Cons ev evs)
  then obtain x where x: "astep a ev = Some x" by (auto split: option.splits)
  from astep_ok [OF Cons.prems(1) _ x] Cons.prems(2) obtain a1 where a1: "x = Inr a1" "async_ok a1" by auto
  have "event_ok a ev" using Cons.prems(2) by simp
  from stopped_step [OF Cons.prems(1) this x [unfolded a1(1)] Cons.prems(3,4)] Cons.IH [OF a1(2)] Cons.prems(2) x a1(1)
  show ?case by auto
qed simp

text \<open>C40: After \<open>stop\<close> buffered lines are lost: from the moment \<open>running_\<close> is false and the back end does
  not stand between the test of its loop and the collecting, whatever the threads do, the log files
  never get more than the back end had already taken out to write; what is then in the front end's
  buffers, and every line appended later, is never written. (A stop during the wait is followed by one
  more collecting, after which the same holds.)\<close>

theorem async_stop_drops_pending:
  assumes "reachable async_initial async_next a" "\<not> running a" "pc a \<notin> {NotStarted, Collecting}" "run_ok a evs"
  shows "\<exists>a' rest. arun a evs = Some (Inr a') \<and>
    written a' @ rest = written a @ concat (map pcontent (unwritten a)) \<and> (pc a' = Finished \<longrightarrow> rest = [])"
proof -
  obtain a' where a': "arun a evs = Some (Inr a')" "async_ok a'" "taken_out a' = taken_out a"
    using stopped_run [OF async.reachable_inv [OF assms(1)] assms(4,2,3)] by blast
  then show ?thesis
    by (intro exI [of _ a'] exI [of _ "concat (map pcontent (unwritten a'))"]) (auto simp: taken_out_def async_ok_def)
qed

theorem async_stop_drops_pending_witness:
  "\<exists>a'. arun (AsyncLogging_stop example_top) [EvAppend zeros ''last line'', EvExit] = Some (Inr a') \<and> written a' = []"
proof -
  let ?a = "AsyncLogging_stop example_top" and ?evs = "[EvAppend zeros ''last line'', EvExit]"
  have "async_next example_top ?a" by (auto simp: async_next_def intro: exI [of _ EvStop])
  with example_top_reachable have r: "reachable async_initial async_next ?a" by (rule reachable_step)
  have s: "\<not> running ?a" "pc ?a = Top" "written ?a = []" "unwritten ?a = []"
    by (simp_all add: AsyncLogging_stop_def example_top_def written_def log_bytes_def)
  from AsyncLogging_append_ok [OF async.reachable_inv [OF r], of "''last line''" zeros] obtain a1 where
    a1: "AsyncLogging_append zeros ?a ''last line'' = Inr a1" "async_ok a1"
    by (auto simp: length_zeros kLargeBufferSize_def)
  have s1: "pc a1 = Top" "\<not> running a1"
    using a1(1) s by (auto simp: AsyncLogging_append_def on_buffer_def Let_def bind_r_Inr_iff split: option.splits if_splits)
  from threadFunc_exit_ok [OF a1(2) s1(1)] obtain a2 where "threadFunc_exit a1 = Inr a2" by blast
  with a1 s1 have "run_ok ?a ?evs" by (simp add: length_zeros kLargeBufferSize_def)
  from async_stop_drops_pending [OF r s(1) _ this] s show ?thesis by auto
qed

end
