(* ===== verification/Poller.thy ===== *)
theory Poller
  imports Timestamp
begin

unbundle bit_operations_syntax

text \<open>
  Channels and the epoll poller (\<open>include/Channel.h\<close>, \<open>src/Channel.cc\<close>, \<open>include/Poller.h\<close>,
  \<open>src/Poller.cc\<close>, \<open>include/EPollPoller.h\<close>, \<open>src/EPollPoller.cc\<close>, \<open>src/DefaultPoller.cc\<close>).

  The poller and the kernel hold pointers to channels, so channels live in a store, indexed by their
  identity. Event masks are words of 32 bits with the values of \<open><sys/epoll.h>\<close>. The kernel is a
  parameter: its state, the system call \<open>epoll_ctl\<close>, and the interest list read off its state; what
  \<open>epoll_ctl(2)\<close> documents is the hypothesis \<open>epoll_spec\<close>. Calls that fail are recorded with their
  errno, since the code only logs them. A callback is named, and handling an event yields the
  callbacks in the order they are called.
\<close>

section \<open>Event masks\<close>

type_synonym mask = "32 word"

definition EPOLLIN :: mask where "EPOLLIN = 0x001"
definition EPOLLPRI :: mask where "EPOLLPRI = 0x002"
definition EPOLLOUT :: mask where "EPOLLOUT = 0x004"
definition EPOLLERR :: mask where "EPOLLERR = 0x008"
definition EPOLLHUP :: mask where "EPOLLHUP = 0x010"
definition EPOLLET :: mask where "EPOLLET = 0x80000000"

lemmas epoll_defs = EPOLLIN_def EPOLLPRI_def EPOLLOUT_def EPOLLERR_def EPOLLHUP_def EPOLLET_def

definition kNoneEvent :: mask where "kNoneEvent = 0"
definition kReadEvent :: mask where "kReadEvent = EPOLLIN OR EPOLLPRI"
definition kWriteEvent :: mask where "kWriteEvent = EPOLLOUT"

lemmas event_defs = kNoneEvent_def kReadEvent_def kWriteEvent_def

section \<open>Channel\<close>

datatype callback = ReadCallback | WriteCallback | CloseCallback | ErrorCallback

text \<open>
  \<open>tied\<close> is \<open>tied_\<close>; whether the tied object is still alive is known when an event is handled and is an
  argument there. \<open>callbacks\<close> are the callbacks that have been set.
\<close>

record Channel =
  cfd :: int
  events :: mask
  revents :: mask
  index :: int
  tied :: bool
  callbacks :: "callback list"

definition kNew :: int where "kNew = -1"
definition kAdded :: int where "kAdded = 1"
definition kDeleted :: int where "kDeleted = 2"

lemmas index_defs = kNew_def kAdded_def kDeleted_def

lemma index_distinct [simp]: "kNew \<noteq> kAdded" "kNew \<noteq> kDeleted" "kAdded \<noteq> kDeleted"
  "kAdded \<noteq> kNew" "kDeleted \<noteq> kNew" "kDeleted \<noteq> kAdded"
  by (simp_all add: index_defs)

definition Channel_new :: "int \<Rightarrow> Channel" where
  "Channel_new fd = \<lparr>cfd = fd, events = 0, revents = 0, index = kNew, tied = False, callbacks = []\<rparr>"

definition Channel_setCallback :: "callback \<Rightarrow> Channel \<Rightarrow> Channel" where
  "Channel_setCallback cb ch = ch\<lparr>callbacks := cb # callbacks ch\<rparr>"

definition Channel_tie :: "Channel \<Rightarrow> Channel" where
  "Channel_tie ch = ch\<lparr>tied := True\<rparr>"

definition set_revents :: "mask \<Rightarrow> Channel \<Rightarrow> Channel" where
  "set_revents r ch = ch\<lparr>revents := r\<rparr>"

definition enableET :: "Channel \<Rightarrow> Channel" where
  "enableET ch = ch\<lparr>events := events ch OR EPOLLET\<rparr>"

definition isNoneEvent :: "Channel \<Rightarrow> bool" where
  "isNoneEvent ch \<longleftrightarrow> events ch = kNoneEvent"

definition isWriting :: "Channel \<Rightarrow> bool" where
  "isWriting ch \<longleftrightarrow> events ch AND kWriteEvent \<noteq> 0"

definition isReading :: "Channel \<Rightarrow> bool" where
  "isReading ch \<longleftrightarrow> events ch AND kReadEvent \<noteq> 0"

text \<open>The callbacks \<open>handleEventWithGuard\<close> calls, in order.\<close>

definition handleEventWithGuard :: "Channel \<Rightarrow> callback list" where
  "handleEventWithGuard ch =
     (let r = revents ch; call = (\<lambda>cond cb. if cond \<and> cb \<in> set (callbacks ch) then [cb] else [])
      in call (r AND EPOLLHUP \<noteq> 0 \<and> r AND EPOLLIN = 0) CloseCallback @
         call (r AND EPOLLERR \<noteq> 0) ErrorCallback @
         call (r AND (EPOLLIN OR EPOLLPRI) \<noteq> 0) ReadCallback @
         call (r AND EPOLLOUT \<noteq> 0) WriteCallback)"

definition handleEvent :: "bool \<Rightarrow> Channel \<Rightarrow> callback list" where
  "handleEvent alive ch =
     (if tied ch then (if alive then handleEventWithGuard ch else []) else handleEventWithGuard ch)"

section \<open>The poller\<close>

datatype ctl_op = CtlAdd | CtlMod | CtlDel

type_synonym chan_id = nat

definition EEXIST :: errno where "EEXIST = 17"
definition ENOENT :: errno where "ENOENT = 2"

record 'k EPollPoller =
  chans :: "chan_id \<Rightarrow> Channel option"
  channels :: "int \<Rightarrow> chan_id option"
  kernel :: 'k
  list_size :: nat
  ctl_errors :: "(ctl_op \<times> errno) list"

type_synonym 'k epoll_ctl = "ctl_op \<Rightarrow> int \<Rightarrow> mask \<times> chan_id \<Rightarrow> 'k \<Rightarrow> 'k \<times> errno option"

definition kInitEventListSize :: nat where "kInitEventListSize = 16"

definition EPollPoller_new :: "'k \<Rightarrow> 'k EPollPoller" where
  "EPollPoller_new k = \<lparr>chans = Map.empty, channels = Map.empty, kernel = k,
     list_size = kInitEventListSize, ctl_errors = []\<rparr>"

definition hasChannel :: "'k EPollPoller \<Rightarrow> chan_id \<Rightarrow> bool" where
  "hasChannel p c = (case chans p c of None \<Rightarrow> False | Some ch \<Rightarrow> channels p (cfd ch) = Some c)"

definition EPollPoller_update :: "'k epoll_ctl \<Rightarrow> ctl_op \<Rightarrow> chan_id \<Rightarrow> Channel \<Rightarrow> 'k EPollPoller \<Rightarrow> 'k EPollPoller" where
  "EPollPoller_update ctl operation c ch p =
     (let (k, r) = ctl operation (cfd ch) (events ch, c) (kernel p)
      in p\<lparr>kernel := k, ctl_errors := ctl_errors p @ (case r of None \<Rightarrow> [] | Some e \<Rightarrow> [(operation, e)])\<rparr>)"

definition updateChannel :: "'k epoll_ctl \<Rightarrow> chan_id \<Rightarrow> Channel \<Rightarrow> 'k EPollPoller \<Rightarrow> 'k EPollPoller" where
  "updateChannel ctl c ch p =
     (if index ch = kNew \<or> index ch = kDeleted
      then (let p1 = (if index ch = kNew then p\<lparr>channels := (channels p)(cfd ch \<mapsto> c)\<rparr> else p);
                ch1 = ch\<lparr>index := kAdded\<rparr>
            in EPollPoller_update ctl CtlAdd c ch1 (p1\<lparr>chans := (chans p1)(c \<mapsto> ch1)\<rparr>))
      else if isNoneEvent ch
      then (EPollPoller_update ctl CtlDel c ch p)\<lparr>chans := (chans p)(c \<mapsto> ch\<lparr>index := kDeleted\<rparr>)\<rparr>
      else EPollPoller_update ctl CtlMod c ch (p\<lparr>chans := (chans p)(c \<mapsto> ch)\<rparr>))"

definition removeChannel :: "'k epoll_ctl \<Rightarrow> chan_id \<Rightarrow> Channel \<Rightarrow> 'k EPollPoller \<Rightarrow> 'k EPollPoller" where
  "removeChannel ctl c ch p =
     (let p1 = p\<lparr>channels := (channels p)(cfd ch := None)\<rparr>;
          p2 = (if index ch = kAdded then EPollPoller_update ctl CtlDel c ch p1 else p1)
      in p2\<lparr>chans := (chans p2)(c \<mapsto> ch\<lparr>index := kNew\<rparr>)\<rparr>)"

text \<open>The methods of \<open>Channel\<close> that reach the poller through the loop.\<close>

datatype chan_op = EnableET | EnableReading | DisableReading | EnableWriting | DisableWriting | DisableAll | Remove

fun new_events :: "chan_op \<Rightarrow> mask \<Rightarrow> mask" where
  "new_events EnableET ev = ev OR EPOLLET"
| "new_events EnableReading ev = ev OR kReadEvent"
| "new_events DisableReading ev = ev AND NOT kReadEvent"
| "new_events EnableWriting ev = ev OR kWriteEvent"
| "new_events DisableWriting ev = ev AND NOT kWriteEvent"
| "new_events DisableAll ev = kNoneEvent"
| "new_events Remove ev = ev"

definition chan_do :: "'k epoll_ctl \<Rightarrow> chan_op \<Rightarrow> chan_id \<Rightarrow> 'k EPollPoller \<Rightarrow> 'k EPollPoller result" where
  "chan_do ctl oper c p =
     (case chans p c of
        None \<Rightarrow> Inl NullDeref
      | Some ch \<Rightarrow>
          (let ch1 = ch\<lparr>events := new_events oper (events ch)\<rparr> in
           Inr (case oper of
                  EnableET \<Rightarrow> p\<lparr>chans := (chans p)(c \<mapsto> enableET ch)\<rparr>
                | Remove \<Rightarrow> removeChannel ctl c ch p
                | _ \<Rightarrow> updateChannel ctl c ch1 p)))"

text \<open>
  \<open>poll\<close>: the answer of \<open>epoll_wait\<close> is the list of reported events, or an errno. The channels that the
  reports point at get their \<open>revents_\<close> and are returned in order; a full list is doubled.
\<close>

fun fillActiveChannels :: "(mask \<times> chan_id) list \<Rightarrow> 'k EPollPoller \<Rightarrow> (chan_id list \<times> 'k EPollPoller) result" where
  "fillActiveChannels [] p = Inr ([], p)"
| "fillActiveChannels ((r, c) # es) p =
     (case chans p c of
        None \<Rightarrow> Inl NullDeref
      | Some ch \<Rightarrow>
          bind_r (fillActiveChannels es (p\<lparr>chans := (chans p)(c \<mapsto> set_revents r ch)\<rparr>)) (\<lambda>(cs, p').
            Inr (c # cs, p')))"

definition EPollPoller_poll :: "errno + (mask \<times> chan_id) list \<Rightarrow> 'k EPollPoller \<Rightarrow> (chan_id list \<times> 'k EPollPoller) result" where
  "EPollPoller_poll reply p =
     (case reply of
        Inl e \<Rightarrow> Inr ([], p)
      | Inr es \<Rightarrow>
          if es = [] then Inr ([], p)
          else bind_r (fillActiveChannels es p) (\<lambda>(cs, p').
            Inr (cs, if length es = list_size p' then p'\<lparr>list_size := list_size p' * 2\<rparr> else p')))"

text \<open>\<open>Poller::newDefaultPoller\<close>: with \<open>MUDUO_USE_POLL\<close> set there is no implementation, a null pointer.\<close>

definition newDefaultPoller :: "bool \<Rightarrow> 'k \<Rightarrow> 'k EPollPoller option" where
  "newDefaultPoller muduo_use_poll k = (if muduo_use_poll then None else Some (EPollPoller_new k))"

section \<open>The kernel\<close>

text \<open>
  \<open>epoll_ctl(2)\<close>: a descriptor is registered at most once; adding a registered one fails with
  \<open>EEXIST\<close>, changing or deleting an unregistered one with \<open>ENOENT\<close>, and a failing call changes nothing.
  The hypothesis says more than what a successful call does: every other call succeeds, so the descriptors the
  program registers are open and can be watched, and the kernel has memory and watches left (no \<open>EBADF\<close>,
  \<open>EPERM\<close>, \<open>ENOMEM\<close> or \<open>ENOSPC\<close>).
\<close>

definition epoll_spec :: "'k epoll_ctl \<Rightarrow> ('k \<Rightarrow> int \<Rightarrow> (mask \<times> chan_id) option) \<Rightarrow> bool" where
  "epoll_spec ctl interest \<longleftrightarrow>
     (\<forall>k fd x. interest k fd = None \<longrightarrow>
        (\<exists>k'. ctl CtlAdd fd x k = (k', None) \<and> interest k' = (interest k)(fd \<mapsto> x)) \<and>
        ctl CtlMod fd x k = (k, Some ENOENT) \<and> ctl CtlDel fd x k = (k, Some ENOENT)) \<and>
     (\<forall>k fd x y. interest k fd = Some y \<longrightarrow>
        ctl CtlAdd fd x k = (k, Some EEXIST) \<and>
        (\<exists>k'. ctl CtlMod fd x k = (k', None) \<and> interest k' = (interest k)(fd \<mapsto> x)) \<and>
        (\<exists>k'. ctl CtlDel fd x k = (k', None) \<and> interest k' = (interest k)(fd := None)))"

lemma epoll_specD:
  assumes "epoll_spec ctl interest"
  shows "interest k fd = None \<Longrightarrow> \<exists>k'. ctl CtlAdd fd x k = (k', None) \<and> interest k' = (interest k)(fd \<mapsto> x)"
    "interest k fd = Some y \<Longrightarrow> \<exists>k'. ctl CtlMod fd x k = (k', None) \<and> interest k' = (interest k)(fd \<mapsto> x)"
    "interest k fd = Some y \<Longrightarrow> \<exists>k'. ctl CtlDel fd x k = (k', None) \<and> interest k' = (interest k)(fd := None)"
  using assms unfolding epoll_spec_def by blast+

text \<open>An interest list that satisfies it.\<close>

definition list_ctl :: "(int \<Rightarrow> (mask \<times> chan_id) option) epoll_ctl" where
  "list_ctl operation fd x k =
     (case operation of
        CtlAdd \<Rightarrow> (if k fd = None then (k(fd \<mapsto> x), None) else (k, Some EEXIST))
      | CtlMod \<Rightarrow> (if k fd = None then (k, Some ENOENT) else (k(fd \<mapsto> x), None))
      | CtlDel \<Rightarrow> (if k fd = None then (k, Some ENOENT) else (k(fd := None), None)))"

lemma list_ctl_spec: "epoll_spec list_ctl (\<lambda>k. k)"
  by (auto simp: epoll_spec_def list_ctl_def)

section \<open>Invariant\<close>

text \<open>
  The poller's table holds exactly the channels that are not new, under their descriptor; the
  kernel's interest list holds exactly the added ones, and points back at them. No call has failed.
\<close>

definition poller_ok :: "('k \<Rightarrow> int \<Rightarrow> (mask \<times> chan_id) option) \<Rightarrow> 'k EPollPoller \<Rightarrow> bool" where
  "poller_ok interest p \<longleftrightarrow>
     (\<forall>fd c. channels p fd = Some c \<longleftrightarrow> (\<exists>ch. chans p c = Some ch \<and> cfd ch = fd \<and> index ch \<noteq> kNew)) \<and>
     (\<forall>fd c. (\<exists>ev. interest (kernel p) fd = Some (ev, c)) \<longleftrightarrow>
        (\<exists>ch. chans p c = Some ch \<and> cfd ch = fd \<and> index ch = kAdded)) \<and>
     (\<forall>c ch. chans p c = Some ch \<longrightarrow> index ch \<in> {kNew, kAdded, kDeleted}) \<and>
     ctl_errors p = []"

text \<open>A new channel may be registered only when its descriptor is not in the table already.\<close>

definition op_allowed :: "chan_op \<Rightarrow> chan_id \<Rightarrow> 'k EPollPoller \<Rightarrow> bool" where
  "op_allowed oper c p \<longleftrightarrow>
     (\<exists>ch. chans p c = Some ch \<and> (index ch = kNew \<longrightarrow> oper \<noteq> EnableET \<longrightarrow> channels p (cfd ch) = None))"

lemma poller_okD:
  assumes "poller_ok interest p"
  shows "channels p fd = Some c \<longleftrightarrow> (\<exists>ch. chans p c = Some ch \<and> cfd ch = fd \<and> index ch \<noteq> kNew)"
    "(\<exists>ev. interest (kernel p) fd = Some (ev, c)) \<longleftrightarrow> (\<exists>ch. chans p c = Some ch \<and> cfd ch = fd \<and> index ch = kAdded)"
    "chans p c = Some ch \<Longrightarrow> index ch \<in> {kNew, kAdded, kDeleted}" "ctl_errors p = []"
  using assms unfolding poller_ok_def by blast+

lemma poller_at_fd:
  assumes ok: "poller_ok interest p" and c: "chans p c = Some ch"
    and new: "index ch = kNew \<Longrightarrow> channels p (cfd ch) = None"
  shows "channels p (cfd ch) = (if index ch = kNew then None else Some c)"
    "interest (kernel p) (cfd ch) = None \<longleftrightarrow> index ch \<noteq> kAdded"
    "interest (kernel p) (cfd ch) = Some (ev, d) \<Longrightarrow> d = c"
proof -
  show ch: "channels p (cfd ch) = (if index ch = kNew then None else Some c)"
    using new poller_okD(1) [OF ok, of "cfd ch" c] c by auto
  have d: "d = c" if "interest (kernel p) (cfd ch) = Some (ev, d)" for ev d
  proof -
    from that poller_okD(2) [OF ok, of "cfd ch" d] obtain ch' where
      "chans p d = Some ch'" "cfd ch' = cfd ch" "index ch' = kAdded" by blast
    with poller_okD(1) [OF ok, of "cfd ch" d] have "channels p (cfd ch) = Some d" by auto
    with ch show "d = c" by (auto split: if_splits)
  qed
  then show "interest (kernel p) (cfd ch) = Some (ev, d) \<Longrightarrow> d = c" .
  show "interest (kernel p) (cfd ch) = None \<longleftrightarrow> index ch \<noteq> kAdded"
    using poller_okD(2) [OF ok, of "cfd ch" c] c d by (cases "interest (kernel p) (cfd ch)") auto
qed

text \<open>Changing one channel together with its entries in the table and in the interest list.\<close>

lemma poller_ok_change:
  assumes ok: "poller_ok interest p" and c: "chans p c = Some ch"
    and new: "index ch = kNew \<Longrightarrow> channels p (cfd ch) = None"
    and ch': "cfd ch' = cfd ch" "index ch' \<in> {kNew, kAdded, kDeleted}"
    and p': "chans p' = (chans p)(c \<mapsto> ch')"
      "channels p' = (channels p)(cfd ch := if index ch' = kNew then None else Some c)"
      "interest (kernel p') = (interest (kernel p))(cfd ch := if index ch' = kAdded then Some (ev, c) else None)"
      "ctl_errors p' = []"
  shows "poller_ok interest p'"
proof -
  note at = poller_at_fd [OF ok c new]
  have A: "channels p' fd = Some d \<longleftrightarrow> (\<exists>x. chans p' d = Some x \<and> cfd x = fd \<and> index x \<noteq> kNew)" for fd d
  proof (cases "d = c")
    case True
    show ?thesis
      using poller_okD(1) [OF ok, of fd c] c ch'(1) by (auto simp: True p')
  next
    case False
    then show ?thesis
      using poller_okD(1) [OF ok, of fd d] at(1) by (auto simp: p' split: if_splits)
  qed
  have B: "(\<exists>e. interest (kernel p') fd = Some (e, d)) \<longleftrightarrow> (\<exists>x. chans p' d = Some x \<and> cfd x = fd \<and> index x = kAdded)" for fd d
  proof (cases "d = c")
    case True
    show ?thesis using poller_okD(2) [OF ok, of fd c] c ch'(1) by (auto simp: True p')
  next
    case False
    then show ?thesis
      using poller_okD(2) [OF ok, of fd d] at(3) by (cases "fd = cfd ch") (auto simp: p' split: if_splits)
  qed
  have C: "index x \<in> {kNew, kAdded, kDeleted}" if "chans p' d = Some x" for d x
    using that poller_okD(3) [OF ok, of d x] ch'(2) by (auto simp: p' split: if_splits)
  show ?thesis unfolding poller_ok_def using A B C p'(4) by blast
qed

lemma updateChannel_ok:
  assumes sp: "epoll_spec ctl interest" and ok: "poller_ok interest p" and c: "chans p c = Some ch0"
    and ch: "cfd ch = cfd ch0" "index ch = index ch0"
    and new: "index ch0 = kNew \<Longrightarrow> channels p (cfd ch0) = None"
  shows "poller_ok interest (updateChannel ctl c ch p) \<and>
    chans (updateChannel ctl c ch p) =
      (chans p)(c \<mapsto> ch\<lparr>index := if index ch = kAdded \<and> isNoneEvent ch then kDeleted else kAdded\<rparr>) \<and>
    interest (kernel (updateChannel ctl c ch p)) =
      (interest (kernel p))(cfd ch := if index ch = kAdded \<and> isNoneEvent ch then None else Some (events ch, c))"
proof -
  note at = poller_at_fd [OF ok c new]
  define ch' where "ch' = ch\<lparr>index := if index ch = kAdded \<and> isNoneEvent ch then kDeleted else kAdded\<rparr>"
  have ch': "cfd ch' = cfd ch0" "index ch' \<in> {kNew, kAdded, kDeleted}" "index ch' \<noteq> kNew"
    using ch by (auto simp: ch'_def)
  have tab: "index ch0 \<noteq> kNew \<Longrightarrow> (channels p)(cfd ch0 \<mapsto> c) = channels p" using at(1) by (simp add: fun_upd_idem)
  obtain p' where p': "updateChannel ctl c ch p = p'" "chans p' = (chans p)(c \<mapsto> ch')"
    "channels p' = (channels p)(cfd ch0 := if index ch' = kNew then None else Some c)"
    "interest (kernel p') = (interest (kernel p))(cfd ch0 := if index ch' = kAdded then Some (events ch, c) else None)"
    "ctl_errors p' = []"
  proof (cases "index ch = kAdded")
    case False
    then have "index ch = kNew \<or> index ch = kDeleted" using ch poller_okD(3) [OF ok c] by auto
    moreover have "interest (kernel p) (cfd ch0) = None" using at(2) False ch by simp
    then obtain k' where k': "ctl CtlAdd (cfd ch0) (events ch, c) (kernel p) = (k', None)"
      "interest k' = (interest (kernel p))(cfd ch0 \<mapsto> (events ch, c))" using epoll_specD(1) [OF sp] by blast
    ultimately show thesis
      using that [OF refl] False ch tab poller_okD(4) [OF ok]
      by (auto simp: updateChannel_def EPollPoller_update_def Let_def ch'_def)
  next
    case True
    then obtain y where y: "interest (kernel p) (cfd ch0) = Some y" using at(2) ch by fastforce
    show thesis
    proof (cases "isNoneEvent ch")
      case none: True
      obtain k' where "ctl CtlDel (cfd ch0) (events ch, c) (kernel p) = (k', None)"
        "interest k' = (interest (kernel p))(cfd ch0 := None)" using epoll_specD(3) [OF sp y] by blast
      then show thesis
        using that [OF refl] True none ch tab poller_okD(4) [OF ok]
        by (auto simp: updateChannel_def EPollPoller_update_def Let_def ch'_def)
    next
      case some: False
      obtain k' where "ctl CtlMod (cfd ch0) (events ch, c) (kernel p) = (k', None)"
        "interest k' = (interest (kernel p))(cfd ch0 \<mapsto> (events ch, c))" using epoll_specD(2) [OF sp y] by blast
      moreover have "ch' = ch" using True some by (cases ch) (simp add: ch'_def)
      ultimately show thesis
        using that [OF refl] True some ch tab poller_okD(4) [OF ok]
        by (auto simp: updateChannel_def EPollPoller_update_def Let_def)
    qed
  qed
  have "poller_ok interest p'" by (rule poller_ok_change [OF ok c new ch'(1,2) p'(2-5)])
  then show ?thesis using p' ch by (auto simp: ch'_def)
qed

lemma removeChannel_ok:
  assumes sp: "epoll_spec ctl interest" and ok: "poller_ok interest p" and c: "chans p c = Some ch"
    and new: "index ch = kNew \<Longrightarrow> channels p (cfd ch) = None"
  shows "poller_ok interest (removeChannel ctl c ch p) \<and>
    chans (removeChannel ctl c ch p) = (chans p)(c \<mapsto> ch\<lparr>index := kNew\<rparr>) \<and>
    interest (kernel (removeChannel ctl c ch p)) = (interest (kernel p))(cfd ch := None)"
proof -
  note at = poller_at_fd [OF ok c new]
  let ?ch' = "ch\<lparr>index := kNew\<rparr>"
  obtain p' where p': "removeChannel ctl c ch p = p'" "chans p' = (chans p)(c \<mapsto> ?ch')"
    "channels p' = (channels p)(cfd ch := None)"
    "interest (kernel p') = (interest (kernel p))(cfd ch := None)" "ctl_errors p' = []"
  proof (cases "index ch = kAdded")
    case True
    then obtain y where y: "interest (kernel p) (cfd ch) = Some y" using at(2) by fastforce
    obtain k' where "ctl CtlDel (cfd ch) (events ch, c) (kernel p) = (k', None)"
      "interest k' = (interest (kernel p))(cfd ch := None)" using epoll_specD(3) [OF sp y] by blast
    then show thesis
      using that [OF refl] True poller_okD(4) [OF ok]
      by (auto simp: removeChannel_def EPollPoller_update_def Let_def)
  next
    case False
    then have "(interest (kernel p))(cfd ch := None) = interest (kernel p)" using at(2) by (simp add: fun_upd_idem)
    then show thesis
      using that [OF refl] False poller_okD(4) [OF ok] by (auto simp: removeChannel_def Let_def)
  qed
  have "poller_ok interest p'"
    by (rule poller_ok_change [OF ok c new, where ch' = ?ch' and ev = 0]) (simp_all add: p')
  then show ?thesis using p' by auto
qed

lemma read_mask: "0 OR kReadEvent = kReadEvent" "kReadEvent AND EPOLLET = 0" "(kReadEvent OR EPOLLET) AND EPOLLET \<noteq> 0"
  by (simp_all add: event_defs epoll_defs)

text \<open>A new channel with a read callback that is enabled for reading: it is registered, and nothing else changes.\<close>

lemma enable_reading_new:
  assumes sp: "epoll_spec ctl interest" and ok: "poller_ok interest p" and fresh: "chans p c = None" "channels p fd = None"
  obtains p' where
    "chan_do ctl EnableReading c (p\<lparr>chans := (chans p)(c \<mapsto> Channel_setCallback ReadCallback (Channel_new fd))\<rparr>) = Inr p'"
    "poller_ok interest p'"
    "chans p' = (chans p)(c \<mapsto> (Channel_setCallback ReadCallback (Channel_new fd))\<lparr>events := kReadEvent, index := kAdded\<rparr>)"
    "interest (kernel p') = (interest (kernel p))(fd \<mapsto> (kReadEvent, c))"
proof -
  let ?ch0 = "Channel_setCallback ReadCallback (Channel_new fd)"
  let ?p1 = "p\<lparr>chans := (chans p)(c \<mapsto> ?ch0)\<rparr>"
  let ?ch1 = "?ch0\<lparr>events := kReadEvent\<rparr>"
  have ch0: "cfd ?ch0 = fd" "index ?ch0 = kNew" "events ?ch0 = 0" by (simp_all add: Channel_setCallback_def Channel_new_def)
  have ok1: "poller_ok interest ?p1" using ok fresh ch0 unfolding poller_ok_def by (auto split: if_splits)
  let ?p2 = "updateChannel ctl c ?ch1 ?p1"
  have e: "chan_do ctl EnableReading c ?p1 = Inr ?p2" using ch0 by (simp add: chan_do_def Let_def read_mask)
  have "poller_ok interest ?p2" "chans ?p2 = (chans p)(c \<mapsto> ?ch0\<lparr>events := kReadEvent, index := kAdded\<rparr>)"
    "interest (kernel ?p2) = (interest (kernel p))(fd \<mapsto> (kReadEvent, c))"
    using updateChannel_ok [OF sp ok1, of c ?ch0 ?ch1] ch0 fresh by simp_all
  then show thesis by (rule that [OF e])
qed

lemma chan_do_ok:
  assumes sp: "epoll_spec ctl interest" and ok: "poller_ok interest p" and al: "op_allowed oper c p"
  shows "\<exists>p'. chan_do ctl oper c p = Inr p' \<and> poller_ok interest p'"
proof -
  from al obtain ch where c: "chans p c = Some ch" and new: "index ch = kNew \<Longrightarrow> oper \<noteq> EnableET \<Longrightarrow> channels p (cfd ch) = None"
    by (auto simp: op_allowed_def)
  let ?ch1 = "ch\<lparr>events := new_events oper (events ch)\<rparr>"
  show ?thesis
  proof (cases "oper = EnableET")
    case True
    let ?p' = "p\<lparr>chans := (chans p)(c \<mapsto> enableET ch)\<rparr>"
    have "poller_ok interest ?p'"
      using ok c unfolding poller_ok_def by (auto simp: enableET_def)
    then show ?thesis using True c by (simp add: chan_do_def)
  next
    case False
    note u = updateChannel_ok [OF sp ok c, of ?ch1] removeChannel_ok [OF sp ok c]
    show ?thesis using u new False c by (cases oper) (simp_all add: chan_do_def Let_def)
  qed
qed

text \<open>The tear-down that every owner of a channel performs: \<open>disableAll\<close>, then \<open>remove\<close>.\<close>

lemma disable_remove_ok:
  assumes sp: "epoll_spec ctl interest" and ok: "poller_ok interest p" and c: "chans p c = Some ch" "index ch \<noteq> kNew"
  obtains p1 p2 where "chan_do ctl DisableAll c p = Inr p1" "chan_do ctl Remove c p1 = Inr p2" "poller_ok interest p2"
    "chans p2 = (chans p)(c \<mapsto> ch\<lparr>events := kNoneEvent, index := kNew\<rparr>)"
    "interest (kernel p2) = (interest (kernel p))(cfd ch := None)"
proof -
  let ?ch1 = "ch\<lparr>events := kNoneEvent\<rparr>"
  define p1 where "p1 = updateChannel ctl c ?ch1 p"
  define ch2 where "ch2 = ?ch1\<lparr>index := if index ?ch1 = kAdded \<and> isNoneEvent ?ch1 then kDeleted else kAdded\<rparr>"
  have d: "chan_do ctl DisableAll c p = Inr p1" using c by (simp add: chan_do_def Let_def p1_def)
  have u: "poller_ok interest p1" "chans p1 = (chans p)(c \<mapsto> ch2)"
    "(interest (kernel p1))(cfd ch := None) = (interest (kernel p))(cfd ch := None)"
    using updateChannel_ok [OF sp ok c(1), of ?ch1] c(2) by (simp_all add: p1_def ch2_def)
  have c2: "chans p1 c = Some ch2" "cfd ch2 = cfd ch" "index ch2 \<noteq> kNew" "ch2\<lparr>index := kNew\<rparr> = ch\<lparr>events := kNoneEvent, index := kNew\<rparr>"
    using u(2) by (simp_all add: ch2_def)
  note r = removeChannel_ok [OF sp u(1) c2(1)]
  show thesis
    by (rule that [OF d, of "removeChannel ctl c ch2 p1"]) (use r u c2 in \<open>simp_all add: chan_do_def\<close>)
qed

text \<open>Sequences of channel operations in which a descriptor is never registered twice.\<close>

fun chan_run :: "'k epoll_ctl \<Rightarrow> (chan_op \<times> chan_id) list \<Rightarrow> 'k EPollPoller \<Rightarrow> 'k EPollPoller result" where
  "chan_run ctl [] p = Inr p"
| "chan_run ctl ((oper, c) # ops) p = bind_r (chan_do ctl oper c p) (chan_run ctl ops)"

fun ops_allowed :: "'k epoll_ctl \<Rightarrow> (chan_op \<times> chan_id) list \<Rightarrow> 'k EPollPoller \<Rightarrow> bool" where
  "ops_allowed ctl [] p \<longleftrightarrow> True"
| "ops_allowed ctl ((oper, c) # ops) p \<longleftrightarrow> op_allowed oper c p \<and>
     (case chan_do ctl oper c p of Inl x \<Rightarrow> True | Inr p' \<Rightarrow> ops_allowed ctl ops p')"

lemma chan_run_ok:
  assumes sp: "epoll_spec ctl interest" and "poller_ok interest p" "ops_allowed ctl ops p"
  shows "\<exists>p'. chan_run ctl ops p = Inr p' \<and> poller_ok interest p'"
  using assms(2,3)
proof (induction ops arbitrary: p)
  case (Cons x ops)
  obtain oper c where x: "x = (oper, c)" by (cases x)
  with Cons.prems chan_do_ok [OF sp Cons.prems(1), of oper c] obtain p1 where
    "chan_do ctl oper c p = Inr p1" "poller_ok interest p1" by auto
  with Cons.IH [of p1] Cons.prems(2) x show ?case by auto
qed simp

lemma poller_ok_set_revents:
  assumes "poller_ok interest p" "chans p c = Some ch"
  shows "poller_ok interest (p\<lparr>chans := (chans p)(c \<mapsto> set_revents r ch)\<rparr>)"
  using assms unfolding poller_ok_def by (auto simp: set_revents_def)

lemma fillActiveChannels_ok:
  assumes "poller_ok interest p" "\<forall>c \<in> set (map snd es). chans p c \<noteq> None" "distinct (map snd es)"
  shows "\<exists>p'. fillActiveChannels es p = Inr (map snd es, p') \<and> poller_ok interest p' \<and> list_size p' = list_size p \<and>
    kernel p' = kernel p \<and> (\<forall>c. chans p' c = (case map_of (map prod.swap es) c of None \<Rightarrow> chans p c
        | Some r \<Rightarrow> map_option (set_revents r) (chans p c)))"
  using assms
proof (induction es arbitrary: p)
  case (Cons x es)
  obtain r c where x: "x = (r, c)" by (cases x)
  with Cons.prems obtain ch where ch: "chans p c = Some ch" by auto
  let ?p1 = "p\<lparr>chans := (chans p)(c \<mapsto> set_revents r ch)\<rparr>"
  have ok1: "poller_ok interest ?p1" by (rule poller_ok_set_revents [OF Cons.prems(1) ch])
  have "\<forall>d \<in> set (map snd es). chans ?p1 d \<noteq> None" "distinct (map snd es)" using Cons.prems(2,3) x by auto
  from Cons.IH [OF ok1 this] obtain p' where
    p': "fillActiveChannels es ?p1 = Inr (map snd es, p')" "poller_ok interest p'" "list_size p' = list_size p"
      "kernel p' = kernel p" "\<forall>d. chans p' d = (case map_of (map prod.swap es) d of None \<Rightarrow> chans ?p1 d
        | Some r \<Rightarrow> map_option (set_revents r) (chans ?p1 d))" by auto
  have "c \<notin> fst ` set (map prod.swap es)" using Cons.prems(3) x by (force simp: image_iff)
  then have "map_of (map prod.swap es) c = None" by (simp add: map_of_eq_None_iff)
  then have "\<forall>d. chans p' d = (case map_of (map prod.swap (x # es)) d of None \<Rightarrow> chans p d
        | Some r \<Rightarrow> map_option (set_revents r) (chans p d))"
    using p'(5) ch by (auto simp: x split: option.splits)
  then show ?case using p' ch by (simp add: x)
qed simp

section \<open>Properties\<close>

text \<open>A poller whose store holds the channels of the descriptors \<open>fds\<close>, none registered yet.\<close>

definition poller_with :: "'k \<Rightarrow> int list \<Rightarrow> 'k EPollPoller" where
  "poller_with k fds = (EPollPoller_new k)\<lparr>chans := (\<lambda>c. if c < length fds then Some (Channel_new (fds ! c)) else None)\<rparr>"

lemma poller_with_ok:
  assumes "\<forall>fd. interest k fd = None"
  shows "poller_ok interest (poller_with k fds)"
  using assms by (auto simp: poller_ok_def poller_with_def EPollPoller_new_def Channel_new_def)

text \<open>C19: For every sequence of channel operations in which no descriptor is registered by two
  channels, every \<open>epoll_ctl\<close> call succeeds and the kernel's interest list holds exactly the channels
  whose \<open>index_\<close> is \<open>kAdded\<close>, each pointing back at its channel, while the table holds exactly the
  channels that are not \<open>kNew\<close>.\<close>

theorem poller_matches_kernel:
  assumes "epoll_spec ctl interest" "\<forall>fd. interest k fd = None" "ops_allowed ctl ops (poller_with k fds)"
  shows "\<exists>p. chan_run ctl ops (poller_with k fds) = Inr p \<and> ctl_errors p = [] \<and>
    (\<forall>fd c. (\<exists>ev. interest (kernel p) fd = Some (ev, c)) \<longleftrightarrow>
        (\<exists>ch. chans p c = Some ch \<and> cfd ch = fd \<and> index ch = kAdded)) \<and>
    (\<forall>fd c. channels p fd = Some c \<longleftrightarrow> (\<exists>ch. chans p c = Some ch \<and> cfd ch = fd \<and> index ch \<noteq> kNew))"
proof -
  from chan_run_ok [OF assms(1) poller_with_ok [where interest = interest, OF assms(2)] assms(3)] obtain p where
    p: "chan_run ctl ops (poller_with k fds) = Inr p" "poller_ok interest p" by blast
  then show ?thesis using poller_okD(1,2,4) [OF p(2)] by (intro exI [of _ p]) simp
qed

definition example_chan_ops :: "(chan_op \<times> chan_id) list" where
  "example_chan_ops = [(EnableReading, 0), (EnableWriting, 0), (EnableReading, 1), (DisableAll, 0)]"

theorem poller_matches_kernel_witness:
  "\<exists>p. chan_run list_ctl example_chan_ops (poller_with Map.empty [7, 8]) = Inr p \<and> ctl_errors p = [] \<and>
    (\<forall>fd c. (\<exists>ev. kernel p fd = Some (ev, c)) \<longleftrightarrow>
        (\<exists>ch. chans p c = Some ch \<and> cfd ch = fd \<and> index ch = kAdded)) \<and>
    (\<forall>fd c. channels p fd = Some c \<longleftrightarrow> (\<exists>ch. chans p c = Some ch \<and> cfd ch = fd \<and> index ch \<noteq> kNew))"
  by (rule poller_matches_kernel [where interest = "\<lambda>k. k", OF list_ctl_spec])
    (simp_all add: example_chan_ops_def poller_with_def EPollPoller_new_def Channel_new_def op_allowed_def chan_do_def
      updateChannel_def EPollPoller_update_def list_ctl_def Let_def event_defs epoll_defs isNoneEvent_def)

text \<open>\<open>update\<close> keeps the kernel in step with the channel: after \<open>enableReading\<close>, \<open>enableWriting\<close>,
  \<open>disableReading\<close> or \<open>disableWriting\<close> of a registered channel the interest list has its new event
  mask, or no entry when the mask is empty; no other descriptor's entry changes.\<close>

theorem update_reaches_kernel:
  assumes "epoll_spec ctl interest" "poller_ok interest p" "chans p c = Some ch" "index ch = kAdded"
    "oper \<in> {EnableReading, EnableWriting, DisableReading, DisableWriting, DisableAll}"
  shows "\<exists>p'. chan_do ctl oper c p = Inr p' \<and>
    interest (kernel p') = (interest (kernel p))(cfd ch :=
      if new_events oper (events ch) = kNoneEvent then None else Some (new_events oper (events ch), c))"
proof -
  let ?ch1 = "ch\<lparr>events := new_events oper (events ch)\<rparr>"
  have "chan_do ctl oper c p = Inr (updateChannel ctl c ?ch1 p)"
    using assms(3,5) by (auto simp: chan_do_def Let_def)
  moreover have "interest (kernel (updateChannel ctl c ?ch1 p)) =
      (interest (kernel p))(cfd ch := if isNoneEvent ?ch1 then None else Some (events ?ch1, c))"
    using updateChannel_ok [OF assms(1-3), of ?ch1] assms(4) by simp
  ultimately show ?thesis by (simp add: isNoneEvent_def)
qed

definition example_chan :: Channel where
  "example_chan = (Channel_new 7)\<lparr>events := kReadEvent, index := kAdded\<rparr>"

definition example_poller :: "(int \<Rightarrow> (mask \<times> chan_id) option) EPollPoller" where
  "example_poller = \<lparr>chans = [0 \<mapsto> example_chan], channels = [7 \<mapsto> 0],
     kernel = [7 \<mapsto> (kReadEvent, 0)], list_size = 16, ctl_errors = []\<rparr>"

lemma example_poller_ok: "poller_ok (\<lambda>k. k) example_poller"
  by (auto simp: poller_ok_def example_poller_def example_chan_def Channel_new_def)

theorem update_reaches_kernel_witness:
  "\<exists>p'. chan_do list_ctl EnableWriting 0 example_poller = Inr p' \<and>
    kernel p' = (kernel example_poller)(cfd example_chan :=
      if new_events EnableWriting (events example_chan) = kNoneEvent then None
      else Some (new_events EnableWriting (events example_chan), 0))"
  by (rule update_reaches_kernel [OF list_ctl_spec example_poller_ok])
    (simp_all add: example_poller_def, simp add: example_chan_def)

text \<open>Calling \<open>disableAll\<close> a second time undoes the first: a channel that is \<open>kDeleted\<close> is added to
  the kernel again, with an empty mask, and counts as \<open>kAdded\<close>; the kernel reports hang-ups and errors
  for such a registration.\<close>

theorem disableAll_twice_registers_again:
  assumes "epoll_spec ctl interest" "poller_ok interest p" "chans p c = Some ch" "index ch = kDeleted"
  shows "\<exists>p' ch'. chan_do ctl DisableAll c p = Inr p' \<and> chans p' c = Some ch' \<and> index ch' = kAdded \<and>
    interest (kernel p') (cfd ch) = Some (kNoneEvent, c)"
proof -
  let ?ch1 = "ch\<lparr>events := kNoneEvent\<rparr>"
  have "chan_do ctl DisableAll c p = Inr (updateChannel ctl c ?ch1 p)"
    using assms(3) by (simp add: chan_do_def Let_def)
  with updateChannel_ok [OF assms(1-3), of ?ch1] assms(4) show ?thesis by simp
qed

theorem disableAll_twice_registers_again_witness:
  "\<exists>p' ch'. chan_do list_ctl DisableAll 0 (example_poller\<lparr>chans := [0 \<mapsto> (Channel_new 7)\<lparr>index := kDeleted\<rparr>],
        kernel := Map.empty\<rparr>) = Inr p' \<and> chans p' 0 = Some ch' \<and> index ch' = kAdded \<and>
    kernel p' (cfd (Channel_new 7)) = Some (kNoneEvent, 0)"
  using disableAll_twice_registers_again [OF list_ctl_spec, of "example_poller\<lparr>chans := [0 \<mapsto> (Channel_new 7)\<lparr>index := kDeleted\<rparr>],
        kernel := Map.empty\<rparr>" 0 "(Channel_new 7)\<lparr>index := kDeleted\<rparr>"]
  by (auto simp: poller_ok_def example_poller_def Channel_new_def)

text \<open>When \<open>epoll_wait\<close> reports registrations of the interest list, \<open>poll\<close> dereferences only live
  channels, returns exactly the reported ones in order with the reported events in \<open>revents_\<close>, keeps
  the poller's invariant, and doubles the event list exactly when the report filled it.\<close>

theorem poll_reports_registered_channels:
  assumes "poller_ok interest p" "es \<noteq> []" "distinct (map snd es)"
    "\<forall>c \<in> set (map snd es). \<exists>fd ev. interest (kernel p) fd = Some (ev, c)"
  shows "\<exists>p'. EPollPoller_poll (Inr es) p = Inr (map snd es, p') \<and> poller_ok interest p' \<and>
    (\<forall>(r, c) \<in> set es. \<exists>ch. chans p' c = Some ch \<and> revents ch = r) \<and>
    list_size p' = (if length es = list_size p then 2 * list_size p else list_size p)"
proof -
  have live: "\<forall>c \<in> set (map snd es). chans p c \<noteq> None"
    using assms(4) poller_okD(2) [OF assms(1)] by fastforce
  from fillActiveChannels_ok [OF assms(1) live assms(3)] obtain p1 where
    p1: "fillActiveChannels es p = Inr (map snd es, p1)" "poller_ok interest p1" "list_size p1 = list_size p"
      "\<forall>c. chans p1 c = (case map_of (map prod.swap es) c of None \<Rightarrow> chans p c
        | Some r \<Rightarrow> map_option (set_revents r) (chans p c))" by blast
  have rev: "\<exists>ch. chans p1 c = Some ch \<and> revents ch = r" if "(r, c) \<in> set es" for r c
  proof -
    have "distinct (map fst (map prod.swap es))" using assms(3) by (simp add: comp_def)
    moreover have "(c, r) \<in> set (map prod.swap es)" using that by force
    ultimately have "map_of (map prod.swap es) c = Some r" by simp
    moreover have "chans p c \<noteq> None" using live that by force
    ultimately show ?thesis using p1(4) by (auto simp: set_revents_def)
  qed
  let ?p' = "if length es = list_size p1 then p1\<lparr>list_size := list_size p1 * 2\<rparr> else p1"
  have "poller_ok interest ?p'" using p1(2) by (simp add: poller_ok_def)
  moreover have "EPollPoller_poll (Inr es) p = Inr (map snd es, ?p')"
    using assms(2) p1(1) by (simp add: EPollPoller_poll_def)
  ultimately show ?thesis using rev p1(3) by (intro exI [of _ ?p']) auto
qed

theorem poll_reports_registered_channels_witness:
  "\<exists>p'. EPollPoller_poll (Inr [(EPOLLIN, 0)]) example_poller = Inr (map snd [(EPOLLIN, 0 :: nat)], p') \<and>
    poller_ok (\<lambda>k. k) p' \<and>
    (\<forall>(r, c) \<in> set [(EPOLLIN, 0)]. \<exists>ch. chans p' c = Some ch \<and> revents ch = r) \<and>
    list_size p' = (if length [(EPOLLIN, 0 :: nat)] = list_size example_poller then 2 * list_size example_poller
      else list_size example_poller)"
  by (rule poll_reports_registered_channels [OF example_poller_ok]) (auto simp: example_poller_def)

end
