(* ===== verification/EventLoop.thy ===== *)
theory EventLoop
  imports Poller TimerQueue
begin

text \<open>
  The event loop and its task queue (\<open>include/EventLoop.h\<close>, \<open>src/EventLoop.cc\<close>).

  A functor is a value of type \<open>'f\<close>; what it does is an interleaving of further operations while it
  runs. The state holds the members of the loop, the local variable \<open>functors\<close> of
  \<open>doPendingFunctors\<close>, the place where the loop's own thread stands, and histories used to state
  the theorems: the functors queued, those run from the queue, those run directly, and whether the
  loop's thread has queued a functor outside of \<open>loop\<close> since functors were last taken out (\<open>early\<close>).
  \<open>efd\<close> is the counter of the eventfd. \<open>owed\<close> counts the calls of other threads that have stored their
  functor (or \<open>quit_\<close>) and have not yet written to the eventfd: between the two the loop's thread may
  move.
\<close>

section \<open>State\<close>

datatype loop_pc = Outside | Head | Polling | Handling "chan_id list" | Running

record ('f, 'k) EventLoop =
  looping :: bool
  quit :: bool
  callingPendingFunctors :: bool
  pendingFunctors :: "'f list"
  poller :: "'k EPollPoller"
  timerQueue :: "'f TimerQueue option"
  wakeupChannel :: chan_id
  efd :: nat
  lpc :: loop_pc
  functors :: "'f list"
  owed :: nat
  queued :: "'f list"
  executed :: "'f list"
  direct :: "'f list"
  early :: bool

text \<open>The timeout handed to \<open>epoll_wait\<close>: it never elapses.\<close>

definition kPollTimeMs :: int where "kPollTimeMs = -1"

text \<open>
  \<open>createEventfd\<close>: \<open>reply\<close> is what \<open>eventfd\<close> answers. On a failure the source has a \<open>LOG_FATAL\<close>, which is
  empty as the header is shipped (\<open>OPEN_LOGGING\<close> is commented out), and the \<open>-1\<close> is returned.
\<close>

definition createEventfd :: "errno + int \<Rightarrow> int" where
  "createEventfd reply = (case reply of Inl _ \<Rightarrow> -1 | Inr evtfd \<Rightarrow> evtfd)"

text \<open>
  The constructor: the wakeup channel is registered for reading; \<open>timerQueue_\<close> is not in the
  initialiser list and stays null. (A second loop in one thread is only logged; the \<open>LOG_DEBUG\<close> line of the
  constructor is in theory \<open>MainProgram\<close>, which has the log.)
\<close>

definition EventLoop_new :: "'k epoll_ctl \<Rightarrow> 'k \<Rightarrow> int \<Rightarrow> ('f, 'k) EventLoop result" where
  "EventLoop_new ctl k wakeupFd =
     (let p = (EPollPoller_new k)\<lparr>chans := [0 \<mapsto> Channel_setCallback ReadCallback (Channel_new wakeupFd)]\<rparr>
      in bind_r (chan_do ctl EnableReading 0 p) (\<lambda>p'.
           Inr \<lparr>looping = False, quit = False, callingPendingFunctors = False, pendingFunctors = [],
                poller = p', timerQueue = None, wakeupChannel = 0, efd = 0, lpc = Outside, functors = [],
                owed = 0, queued = [], executed = [], direct = [], early = False\<rparr>))"

text \<open>The destructor: the wakeup channel is disabled and removed.\<close>

definition EventLoop_destroy :: "'k epoll_ctl \<Rightarrow> ('f, 'k) EventLoop \<Rightarrow> ('f, 'k) EventLoop result" where
  "EventLoop_destroy ctl l =
     bind_r (chan_do ctl DisableAll (wakeupChannel l) (poller l)) (\<lambda>p1.
     bind_r (chan_do ctl Remove (wakeupChannel l) p1) (\<lambda>p2. Inr (l\<lparr>poller := p2\<rparr>)))"

section \<open>Operations\<close>

text \<open>
  An eventfd counts up to \<open>2 ^ 64 - 2\<close>; a write beyond that fails on a non-blocking descriptor, a read
  takes the whole count.
\<close>

definition wakeup :: "('f, 'k) EventLoop \<Rightarrow> ('f, 'k) EventLoop" where
  "wakeup l = (if efd l < 2 ^ 64 - 2 then l\<lparr>efd := efd l + 1\<rparr> else l)"

definition EventLoop_handleRead :: "('f, 'k) EventLoop \<Rightarrow> ('f, 'k) EventLoop" where
  "EventLoop_handleRead l = l\<lparr>efd := 0\<rparr>"

text \<open>
  \<open>quit\<close> and \<open>queueInLoop\<close>, called in the loop's thread. From another thread they are two steps: the
  store, and later the wakeup.
\<close>

definition EventLoop_quit_local :: "('f, 'k) EventLoop \<Rightarrow> ('f, 'k) EventLoop" where
  "EventLoop_quit_local l = l\<lparr>quit := True\<rparr>"

definition EventLoop_quit_other :: "('f, 'k) EventLoop \<Rightarrow> ('f, 'k) EventLoop" where
  "EventLoop_quit_other l = l\<lparr>quit := True, owed := owed l + 1\<rparr>"

definition queueInLoop_local :: "('f, 'k) EventLoop \<Rightarrow> 'f \<Rightarrow> ('f, 'k) EventLoop" where
  "queueInLoop_local l cb =
     (let l1 = l\<lparr>pendingFunctors := pendingFunctors l @ [cb], queued := queued l @ [cb]\<rparr>
      in if callingPendingFunctors l1 then wakeup l1 else l1)"

definition queueInLoop_other :: "('f, 'k) EventLoop \<Rightarrow> 'f \<Rightarrow> ('f, 'k) EventLoop" where
  "queueInLoop_other l cb =
     l\<lparr>pendingFunctors := pendingFunctors l @ [cb], queued := queued l @ [cb], owed := owed l + 1\<rparr>"

definition wakeup_other :: "('f, 'k) EventLoop \<Rightarrow> ('f, 'k) EventLoop" where
  "wakeup_other l = wakeup (l\<lparr>owed := owed l - 1\<rparr>)"

definition runInLoop :: "bool \<Rightarrow> ('f, 'k) EventLoop \<Rightarrow> 'f \<Rightarrow> ('f, 'k) EventLoop" where
  "runInLoop isInLoopThread l cb =
     (if isInLoopThread then l\<lparr>direct := direct l @ [cb]\<rparr> else queueInLoop_other l cb)"

text \<open>The methods that hand a channel on to the loop's poller.\<close>

definition EventLoop_updateChannel :: "'k epoll_ctl \<Rightarrow> chan_id \<Rightarrow> ('f, 'k) EventLoop \<Rightarrow> ('f, 'k) EventLoop result" where
  "EventLoop_updateChannel ctl c l =
     (case chans (poller l) c of
        None \<Rightarrow> Inl NullDeref
      | Some ch \<Rightarrow> Inr (l\<lparr>poller := updateChannel ctl c ch (poller l)\<rparr>))"

definition EventLoop_removeChannel :: "'k epoll_ctl \<Rightarrow> chan_id \<Rightarrow> ('f, 'k) EventLoop \<Rightarrow> ('f, 'k) EventLoop result" where
  "EventLoop_removeChannel ctl c l =
     (case chans (poller l) c of
        None \<Rightarrow> Inl NullDeref
      | Some ch \<Rightarrow> Inr (l\<lparr>poller := removeChannel ctl c ch (poller l)\<rparr>))"

definition EventLoop_hasChannel :: "('f, 'k) EventLoop \<Rightarrow> chan_id \<Rightarrow> bool" where
  "EventLoop_hasChannel l c = hasChannel (poller l) c"

text \<open>\<open>doPendingFunctors\<close>: entering with the swap, one call, leaving.\<close>

definition doPendingFunctors_enter :: "('f, 'k) EventLoop \<Rightarrow> ('f, 'k) EventLoop" where
  "doPendingFunctors_enter l =
     l\<lparr>callingPendingFunctors := True, functors := pendingFunctors l, pendingFunctors := [], lpc := Running\<rparr>"

definition doPendingFunctors_call :: "('f, 'k) EventLoop \<Rightarrow> ('f, 'k) EventLoop" where
  "doPendingFunctors_call l =
     (case functors l of [] \<Rightarrow> l | f # fs \<Rightarrow> l\<lparr>functors := fs, executed := executed l @ [f]\<rparr>)"

definition doPendingFunctors_leave :: "('f, 'k) EventLoop \<Rightarrow> ('f, 'k) EventLoop" where
  "doPendingFunctors_leave l = l\<lparr>callingPendingFunctors := False, lpc := Head\<rparr>"

text \<open>\<open>loop\<close>: entering, the test of \<open>while (!quit_)\<close>, the return of \<open>poll\<close>, one channel of the \<open>for\<close> loop.\<close>

definition loop_enter :: "('f, 'k) EventLoop \<Rightarrow> ('f, 'k) EventLoop" where
  "loop_enter l = l\<lparr>looping := True, quit := False, lpc := Head\<rparr>"

definition loop_test :: "('f, 'k) EventLoop \<Rightarrow> ('f, 'k) EventLoop" where
  "loop_test l = (if quit l then l\<lparr>looping := False, lpc := Outside\<rparr> else l\<lparr>lpc := Polling\<rparr>)"

definition loop_poll :: "errno + (mask \<times> chan_id) list \<Rightarrow> ('f, 'k) EventLoop \<Rightarrow> ('f, 'k) EventLoop result" where
  "loop_poll reply l =
     bind_r (EPollPoller_poll reply (poller l)) (\<lambda>(cs, p). Inr (l\<lparr>poller := p, lpc := Handling cs\<rparr>))"

definition loop_handle :: "('f, 'k) EventLoop \<Rightarrow> ('f, 'k) EventLoop" where
  "loop_handle l =
     (case lpc l of
        Handling (c # cs) \<Rightarrow>
          (let l1 = l\<lparr>lpc := Handling cs\<rparr>
           in if c = wakeupChannel l1 then EventLoop_handleRead l1 else l1)
      | _ \<Rightarrow> l)"

text \<open>\<open>runAt\<close>, \<open>runAfter\<close> and \<open>runEvery\<close> go through \<open>timerQueue_\<close>.\<close>

definition runAt :: "((ptr \<Rightarrow> 'f Timer option) \<Rightarrow> ptr option) \<Rightarrow> (nat \<Rightarrow> Timestamp) \<Rightarrow> bool \<Rightarrow>
    ('f, 'k) EventLoop \<Rightarrow> Timestamp \<Rightarrow> 'f \<Rightarrow> ('f, 'k) EventLoop result" where
  "runAt new clk inLoop l due cb =
     (case timerQueue l of
        None \<Rightarrow> Inl NullDeref
      | Some q \<Rightarrow> bind_r (addTimer new clk inLoop q cb due (whole_seconds 0)) (\<lambda>(q', _).
                   Inr (l\<lparr>timerQueue := Some q'\<rparr>)))"

definition runAfter :: "((ptr \<Rightarrow> 'f Timer option) \<Rightarrow> ptr option) \<Rightarrow> (nat \<Rightarrow> Timestamp) \<Rightarrow> bool \<Rightarrow>
    ('f, 'k) EventLoop \<Rightarrow> Timestamp \<Rightarrow> double \<Rightarrow> 'f \<Rightarrow> ('f, 'k) EventLoop result" where
  "runAfter new clk inLoop l now waitTime cb = runAt new clk inLoop l (addTime now waitTime) cb"

definition runEvery :: "((ptr \<Rightarrow> 'f Timer option) \<Rightarrow> ptr option) \<Rightarrow> (nat \<Rightarrow> Timestamp) \<Rightarrow> bool \<Rightarrow>
    ('f, 'k) EventLoop \<Rightarrow> Timestamp \<Rightarrow> double \<Rightarrow> 'f \<Rightarrow> ('f, 'k) EventLoop result" where
  "runEvery new clk inLoop l now ivl cb =
     (case timerQueue l of
        None \<Rightarrow> Inl NullDeref
      | Some q \<Rightarrow> bind_r (addTimer new clk inLoop q cb (addTime now ivl) ivl) (\<lambda>(q', _).
                   Inr (l\<lparr>timerQueue := Some q'\<rparr>)))"

text \<open>\<open>createTimerfd\<close>: a failed \<open>timerfd_create\<close> is returned as \<open>-1\<close> after a \<open>LOG_ERROR\<close>.\<close>

definition createTimerfd :: "errno + int \<Rightarrow> int" where
  "createTimerfd reply = (case reply of Inl _ \<Rightarrow> -1 | Inr timerfd \<Rightarrow> timerfd)"

text \<open>
  The timer queue's own constructor and destructor, which register and remove its timerfd channel.
  \<open>callingExpiredTimers_\<close> is not initialised by the constructor.
\<close>

definition TimerQueue_new :: "'k epoll_ctl \<Rightarrow> 'k EPollPoller \<Rightarrow> chan_id \<Rightarrow> int \<Rightarrow> (ptr \<Rightarrow> 'f Timer option) \<Rightarrow> bool \<Rightarrow>
    ('k EPollPoller \<times> 'f TimerQueue) result" where
  "TimerQueue_new ctl p c timerfd h calling =
     (let p1 = p\<lparr>chans := (chans p)(c \<mapsto> Channel_setCallback ReadCallback (Channel_new timerfd))\<rparr>
      in bind_r (chan_do ctl EnableReading c p1) (\<lambda>p2.
           Inr (p2, \<lparr>timers = [], heap = h, ticks = 0, settimes = [], callingExpiredTimers = calling, fired = []\<rparr>)))"

definition TimerQueue_destroy :: "'k epoll_ctl \<Rightarrow> 'k EPollPoller \<Rightarrow> chan_id \<Rightarrow> 'f TimerQueue \<Rightarrow>
    ('k EPollPoller \<times> (ptr \<Rightarrow> 'f Timer option)) result" where
  "TimerQueue_destroy ctl p c q =
     bind_r (chan_do ctl DisableAll c p) (\<lambda>p1.
     bind_r (chan_do ctl Remove c p1) (\<lambda>p2.
       Inr (p2, fold (\<lambda>(_, a) h. h(a := None)) (timers q) (heap q))))"

section \<open>Interleavings\<close>

text \<open>
  \<open>epoll_wait\<close> reports the wakeup channel when its eventfd is readable and registered for reading.
\<close>

definition eventfd_watched :: "('k \<Rightarrow> int \<Rightarrow> (mask \<times> chan_id) option) \<Rightarrow> ('f, 'k) EventLoop \<Rightarrow> bool" where
  "eventfd_watched interest l \<longleftrightarrow>
     (\<exists>ch ev. chans (poller l) (wakeupChannel l) = Some ch \<and>
        interest (kernel (poller l)) (cfd ch) = Some (ev, wakeupChannel l) \<and> ev AND EPOLLIN \<noteq> 0)"

definition eventfd_ready :: "('k \<Rightarrow> int \<Rightarrow> (mask \<times> chan_id) option) \<Rightarrow> ('f, 'k) EventLoop \<Rightarrow> bool" where
  "eventfd_ready interest l \<longleftrightarrow> 0 < efd l \<and> eventfd_watched interest l"

text \<open>
  The steps of the loop's own thread. \<open>epoll_wait\<close> without a timeout returns at least one event, all of
  registered channels, the wakeup channel only when the eventfd is ready. A failing \<open>epoll_wait\<close>, by a
  signal, is a step of its own (\<open>interrupt_step\<close>).
\<close>

definition in_callback :: "('f, 'k) EventLoop \<Rightarrow> bool" where
  "in_callback l \<longleftrightarrow> (case lpc l of Handling _ \<Rightarrow> True | Running \<Rightarrow> True | _ \<Rightarrow> False)"

definition reports_ok :: "('k \<Rightarrow> int \<Rightarrow> (mask \<times> chan_id) option) \<Rightarrow> ('f, 'k) EventLoop \<Rightarrow> (mask \<times> chan_id) list \<Rightarrow> bool" where
  "reports_ok interest l es \<longleftrightarrow> es \<noteq> [] \<and>
     (\<forall>(m, c) \<in> set es. (\<exists>fd ev. interest (kernel (poller l)) fd = Some (ev, c)) \<and>
        (c = wakeupChannel l \<longrightarrow> m = EPOLLIN \<and> eventfd_ready interest l))"

inductive own_step :: "('k \<Rightarrow> int \<Rightarrow> (mask \<times> chan_id) option) \<Rightarrow> ('f, 'k) EventLoop \<Rightarrow> ('f, 'k) EventLoop \<Rightarrow> bool"
  for interest where
  enter: "lpc l = Outside \<Longrightarrow> own_step interest l (loop_enter l)"
| test: "lpc l = Head \<Longrightarrow> own_step interest l (loop_test l)"
| poll: "lpc l = Polling \<Longrightarrow> reports_ok interest l es \<Longrightarrow> loop_poll (Inr es) l = Inr l' \<Longrightarrow> own_step interest l l'"
| handle: "lpc l = Handling (c # cs) \<Longrightarrow> own_step interest l (loop_handle l)"
| swap: "lpc l = Handling [] \<Longrightarrow> own_step interest l ((doPendingFunctors_enter l)\<lparr>early := False\<rparr>)"
| call: "lpc l = Running \<Longrightarrow> functors l \<noteq> [] \<Longrightarrow> own_step interest l (doPendingFunctors_call l)"
| leave: "lpc l = Running \<Longrightarrow> functors l = [] \<Longrightarrow> own_step interest l (doPendingFunctors_leave l)"

inductive interrupt_step :: "('f, 'k) EventLoop \<Rightarrow> ('f, 'k) EventLoop \<Rightarrow> bool" where
  interrupt: "lpc l = Polling \<Longrightarrow> loop_poll (Inl e) l = Inr l' \<Longrightarrow> interrupt_step l l'"

text \<open>
  Functors and channel callbacks run in the phases \<open>Running\<close> and \<open>Handling\<close>, where they may queue
  functors, run them directly, quit, create and destroy channels and register them, on other
  descriptors than the eventfd. Outside of \<open>loop\<close> the thread may queue, run and quit too.
\<close>

inductive callback_step :: "'k epoll_ctl \<Rightarrow> ('f, 'k) EventLoop \<Rightarrow> ('f, 'k) EventLoop \<Rightarrow> bool" for ctl where
  queue_local: "in_callback l \<Longrightarrow> callback_step ctl l (queueInLoop_local l cb)"
| run_local: "in_callback l \<Longrightarrow> callback_step ctl l (runInLoop True l cb)"
| quit_local: "in_callback l \<Longrightarrow> callback_step ctl l (EventLoop_quit_local l)"
| channel_local: "in_callback l \<Longrightarrow> c \<noteq> wakeupChannel l \<Longrightarrow>
    callback_step ctl l (l\<lparr>poller := (poller l)\<lparr>chans := (chans (poller l))(c := x)\<rparr>\<rparr>)"
| register_local: "in_callback l \<Longrightarrow> c \<noteq> wakeupChannel l \<Longrightarrow> chans (poller l) c = Some ch \<Longrightarrow>
    (\<And>w. chans (poller l) (wakeupChannel l) = Some w \<Longrightarrow> cfd ch \<noteq> cfd w) \<Longrightarrow>
    chan_do ctl oper c (poller l) = Inr p \<Longrightarrow> callback_step ctl l (l\<lparr>poller := p\<rparr>)"

inductive outside_step :: "('f, 'k) EventLoop \<Rightarrow> ('f, 'k) EventLoop \<Rightarrow> bool" where
  queue_outside: "lpc l = Outside \<Longrightarrow> outside_step l ((queueInLoop_local l cb)\<lparr>early := True\<rparr>)"
| run_outside: "lpc l = Outside \<Longrightarrow> outside_step l (runInLoop True l cb)"
| quit_outside: "lpc l = Outside \<Longrightarrow> outside_step l (EventLoop_quit_local l)"

inductive other_step :: "('f, 'k) EventLoop \<Rightarrow> ('f, 'k) EventLoop \<Rightarrow> bool" where
  queue_other: "other_step l (queueInLoop_other l cb)"
| quit_other: "other_step l (EventLoop_quit_other l)"
| wake_other: "0 < owed l \<Longrightarrow> other_step l (wakeup_other l)"

definition loop_step :: "'k epoll_ctl \<Rightarrow> ('k \<Rightarrow> int \<Rightarrow> (mask \<times> chan_id) option) \<Rightarrow>
    ('f, 'k) EventLoop \<Rightarrow> ('f, 'k) EventLoop \<Rightarrow> bool" where
  "loop_step ctl interest l l' \<longleftrightarrow> own_step interest l l' \<or> interrupt_step l l' \<or> callback_step ctl l l' \<or>
     outside_step l l' \<or> other_step l l'"

inductive_cases own_stepE: "own_step interest l l'"
inductive_cases interrupt_stepE: "interrupt_step l l'"
inductive_cases callback_stepE: "callback_step ctl l l'"
inductive_cases outside_stepE: "outside_step l l'"
inductive_cases other_stepE: "other_step l l'"

lemmas loop_defs = wakeup_def EventLoop_handleRead_def EventLoop_quit_local_def EventLoop_quit_other_def
  queueInLoop_local_def queueInLoop_other_def wakeup_other_def runInLoop_def doPendingFunctors_enter_def
  doPendingFunctors_call_def doPendingFunctors_leave_def loop_enter_def loop_test_def loop_handle_def

section \<open>Invariant\<close>

text \<open>
  Nothing is lost or reordered; \<open>callingPendingFunctors_\<close> is set exactly while functors run; and a
  thread that waits in \<open>poll\<close> although there is work (or \<open>quit_\<close>) has been woken or is about to be,
  unless it has queued the work itself before it called \<open>loop\<close>.
  The wakeup channel is alive; no timer queue has been made.
\<close>

definition loop_ok :: "('f, 'k) EventLoop \<Rightarrow> bool" where
  "loop_ok l \<longleftrightarrow>
     executed l @ functors l @ pendingFunctors l = queued l \<and>
     (callingPendingFunctors l \<longleftrightarrow> lpc l = Running) \<and>
     (lpc l \<noteq> Running \<longrightarrow> functors l = []) \<and>
     (lpc l \<in> {Outside, Head, Polling} \<longrightarrow> (pendingFunctors l \<noteq> [] \<longrightarrow> 0 < efd l \<or> 0 < owed l \<or> early l)) \<and>
     (lpc l = Running \<longrightarrow> (pendingFunctors l \<noteq> [] \<longrightarrow> 0 < efd l \<or> 0 < owed l)) \<and>
     (lpc l = Polling \<longrightarrow> quit l \<longrightarrow> 0 < efd l \<or> 0 < owed l) \<and>
     chans (poller l) (wakeupChannel l) \<noteq> None \<and> timerQueue l = None"

lemma wakeup_simps [simp]:
  "executed (wakeup l) = executed l" "functors (wakeup l) = functors l" "pendingFunctors (wakeup l) = pendingFunctors l"
  "queued (wakeup l) = queued l" "callingPendingFunctors (wakeup l) = callingPendingFunctors l" "lpc (wakeup l) = lpc l"
  "quit (wakeup l) = quit l" "owed (wakeup l) = owed l" "poller (wakeup l) = poller l"
  "wakeupChannel (wakeup l) = wakeupChannel l" "timerQueue (wakeup l) = timerQueue l" "0 < efd (wakeup l)"
  "early (wakeup l) = early l"
  by (simp_all add: wakeup_def)

lemma fillActiveChannels_frame:
  "fillActiveChannels es p = Inr (cs, p') \<Longrightarrow>
   kernel p' = kernel p \<and> (\<forall>c ch. chans p c = Some ch \<longrightarrow> (\<exists>ch'. chans p' c = Some ch' \<and> cfd ch' = cfd ch))"
proof (induction es arbitrary: p cs)
  case (Cons x es)
  obtain r d where x: "x = (r, d)" by (cases x)
  with Cons.prems(1) obtain ch cs' where
    ch: "chans p d = Some ch" "fillActiveChannels es (p\<lparr>chans := (chans p)(d \<mapsto> set_revents r ch)\<rparr>) = Inr (cs', p')"
    by (auto simp: bind_r_Inr_iff split: option.splits)
  have "\<exists>ch'. chans p' c = Some ch' \<and> cfd ch' = cfd e" if e: "chans p c = Some e" for c e
  proof -
    let ?p1 = "p\<lparr>chans := (chans p)(d \<mapsto> set_revents r ch)\<rparr>"
    obtain e1 where "chans ?p1 c = Some e1" "cfd e1 = cfd e" using ch(1) e by (cases "c = d") (simp_all add: set_revents_def)
    then show ?thesis using Cons.IH [OF ch(2)] by metis
  qed
  then show ?case using Cons.IH [OF ch(2)] by simp
qed simp

lemma loop_poll_frame:
  assumes "loop_poll reply l = Inr l'"
  obtains cs p where "l' = l\<lparr>poller := p, lpc := Handling cs\<rparr>" "kernel p = kernel (poller l)"
    "\<forall>c ch. chans (poller l) c = Some ch \<longrightarrow> (\<exists>ch'. chans p c = Some ch' \<and> cfd ch' = cfd ch)"
proof -
  from assms obtain cs p where p: "EPollPoller_poll reply (poller l) = Inr (cs, p)"
    "l' = l\<lparr>poller := p, lpc := Handling cs\<rparr>" by (auto simp: loop_poll_def bind_r_Inr_iff)
  have "kernel p = kernel (poller l) \<and>
    (\<forall>c ch. chans (poller l) c = Some ch \<longrightarrow> (\<exists>ch'. chans p c = Some ch' \<and> cfd ch' = cfd ch))"
    using p(1) by (auto simp: EPollPoller_poll_def bind_r_Inr_iff split: sum.splits if_splits dest!: fillActiveChannels_frame)
  then show thesis using that [OF p(2)] by blast
qed

text \<open>A call of \<open>epoll_ctl\<close> on one descriptor leaves the others alone, and so do the channel operations.\<close>

lemma epoll_ctl_frame:
  assumes sp: "epoll_spec ctl interest" and e: "ctl oper fd x k = (k', r)" and fd: "fd' \<noteq> fd"
  shows "interest k' fd' = interest k fd'"
proof (cases "interest k fd")
  case None
  then show ?thesis using sp e fd unfolding epoll_spec_def by (cases oper) (metis fun_upd_other fst_conv)+
next
  case (Some y)
  then show ?thesis using sp e fd unfolding epoll_spec_def by (cases oper) (metis fun_upd_other fst_conv)+
qed

lemma EPollPoller_update_frame:
  assumes "epoll_spec ctl interest" "fd \<noteq> cfd ch"
  shows "interest (kernel (EPollPoller_update ctl oper c ch p)) fd = interest (kernel p) fd"
    "chans (EPollPoller_update ctl oper c ch p) = chans p"
  using epoll_ctl_frame [OF assms(1) _ assms(2)] by (auto simp: EPollPoller_update_def Let_def split: prod.split)

lemma chan_do_frame:
  assumes sp: "epoll_spec ctl interest" and e: "chan_do ctl oper c p = Inr p'" and c: "chans p c = Some ch"
    and fd: "fd \<noteq> cfd ch"
  shows "interest (kernel p') fd = interest (kernel p) fd"
proof -
  have u: "interest (kernel (updateChannel ctl c ch1 q)) fd = interest (kernel q) fd" if "cfd ch1 = cfd ch" for ch1 q
    using that fd EPollPoller_update_frame(1) [OF sp] by (simp add: updateChannel_def Let_def)
  have "interest (kernel (removeChannel ctl c ch p)) fd = interest (kernel p) fd"
    using fd EPollPoller_update_frame(1) [OF sp] by (simp add: removeChannel_def Let_def)
  with e c u show ?thesis by (auto simp: chan_do_def Let_def split: chan_op.splits)
qed

lemma chan_do_chans: "chan_do ctl oper c p = Inr p' \<Longrightarrow> d \<noteq> c \<Longrightarrow> chans p' d = chans p d"
  by (auto simp: chan_do_def updateChannel_def removeChannel_def EPollPoller_update_def Let_def
      split: option.splits chan_op.splits prod.splits if_splits)

lemma loop_okD: "loop_ok l \<Longrightarrow> \<exists>w. chans (poller l) (wakeupChannel l) = Some w"
  unfolding loop_ok_def by blast

lemma own_step_ok:
  assumes "loop_ok l" "own_step interest l l'"
  shows "loop_ok l'"
  using assms(2)
proof (cases rule: own_step.cases)
  case (poll es)
  from poll(3) obtain cs p where p: "l' = l\<lparr>poller := p, lpc := Handling cs\<rparr>" "kernel p = kernel (poller l)"
    "\<forall>c ch. chans (poller l) c = Some ch \<longrightarrow> (\<exists>ch'. chans p c = Some ch' \<and> cfd ch' = cfd ch)" by (rule loop_poll_frame)
  obtain w where "chans (poller l) (wakeupChannel l) = Some w" using loop_okD [OF assms(1)] by blast
  with p(3) have "chans p (wakeupChannel l) \<noteq> None" by blast
  with assms(1) poll(1) show ?thesis by (auto simp: loop_ok_def p(1))
qed (use assms(1) in \<open>auto simp: loop_ok_def loop_defs Let_def split: list.splits if_splits\<close>)

lemma interrupt_step_ok:
  assumes "loop_ok l" "interrupt_step l l'"
  shows "loop_ok l'"
  using assms(2)
proof (cases rule: interrupt_step.cases)
  case (interrupt e)
  then show ?thesis using assms(1) by (auto simp: loop_ok_def loop_poll_def EPollPoller_poll_def)
qed

lemma callback_step_ok:
  assumes "loop_ok l" "callback_step ctl l l'"
  shows "loop_ok l'"
  using assms(2)
proof (cases rule: callback_step.cases)
  case (queue_local cb)
  show ?thesis
  proof (cases "callingPendingFunctors l")
    case True
    then have e: "l' = wakeup (l\<lparr>pendingFunctors := pendingFunctors l @ [cb], queued := queued l @ [cb]\<rparr>)"
      using queue_local by (simp add: queueInLoop_local_def Let_def)
    show ?thesis unfolding e using assms(1) True by (simp add: loop_ok_def)
  next
    case False
    then have e: "l' = l\<lparr>pendingFunctors := pendingFunctors l @ [cb], queued := queued l @ [cb]\<rparr>"
      using queue_local by (simp add: queueInLoop_local_def Let_def)
    obtain cs where "lpc l = Handling cs"
      using queue_local False assms(1) by (auto simp: in_callback_def loop_ok_def split: loop_pc.splits)
    then show ?thesis unfolding e using assms(1) by (auto simp: loop_ok_def)
  qed
next
  case (run_local cb)
  then show ?thesis using assms(1) by (simp add: loop_ok_def runInLoop_def)
next
  case quit_local
  then show ?thesis
    using assms(1) by (auto simp: loop_ok_def EventLoop_quit_local_def in_callback_def split: loop_pc.splits)
next
  case (channel_local c x)
  then show ?thesis using assms(1) by (simp add: loop_ok_def)
next
  case (register_local c ch oper p)
  then have "chans p (wakeupChannel l) = chans (poller l) (wakeupChannel l)" using chan_do_chans by metis
  then show ?thesis using assms(1) register_local by (simp add: loop_ok_def)
qed

lemma outside_step_ok:
  assumes "loop_ok l" "outside_step l l'"
  shows "loop_ok l'"
  using assms(2)
  by (cases rule: outside_step.cases)
    (use assms(1) in \<open>auto simp: loop_ok_def queueInLoop_local_def runInLoop_def EventLoop_quit_local_def Let_def\<close>)

lemma other_step_ok:
  assumes "loop_ok l" "other_step l l'"
  shows "loop_ok l'"
  using assms(2)
proof (cases rule: other_step.cases)
  case wake_other
  then show ?thesis using assms(1) by (simp add: loop_ok_def wakeup_other_def)
qed (use assms(1) in \<open>auto simp: loop_ok_def queueInLoop_other_def EventLoop_quit_other_def\<close>)

lemmas step_ok = own_step_ok interrupt_step_ok callback_step_ok outside_step_ok other_step_ok

text \<open>
  A new loop, and a new loop whose \<open>eventfd\<close> could be made and whose epoll instance is new.
\<close>

definition loop_initial :: "'k epoll_ctl \<Rightarrow> ('f, 'k) EventLoop \<Rightarrow> bool" where
  "loop_initial ctl l \<longleftrightarrow> (\<exists>k fd. EventLoop_new ctl k fd = Inr l)"

definition loop_started :: "'k epoll_ctl \<Rightarrow> ('k \<Rightarrow> int \<Rightarrow> (mask \<times> chan_id) option) \<Rightarrow> ('f, 'k) EventLoop \<Rightarrow> bool" where
  "loop_started ctl interest l \<longleftrightarrow>
     (\<exists>k fd. interest k = Map.empty \<and> 0 \<le> fd \<and> EventLoop_new ctl k (createEventfd (Inr fd)) = Inr l)"

lemma loop_initial_shape:
  assumes "EventLoop_new ctl k fd = Inr l"
  obtains p' where "l = \<lparr>looping = False, quit = False, callingPendingFunctors = False,
      pendingFunctors = [], poller = p', timerQueue = None, wakeupChannel = 0, efd = 0, lpc = Outside, functors = [],
      owed = 0, queued = [], executed = [], direct = [], early = False\<rparr>"
    "p' = updateChannel ctl 0 ((Channel_setCallback ReadCallback (Channel_new fd))\<lparr>events := kReadEvent\<rparr>)
       ((EPollPoller_new k)\<lparr>chans := [0 \<mapsto> Channel_setCallback ReadCallback (Channel_new fd)]\<rparr>)"
  using assms by (auto simp: EventLoop_new_def Let_def bind_r_Inr_iff chan_do_def Channel_setCallback_def Channel_new_def event_defs)

lemma loop_initial_ok:
  assumes "loop_initial ctl l"
  shows "loop_ok l"
proof -
  from assms obtain k fd where "EventLoop_new ctl k fd = Inr l" by (auto simp: loop_initial_def)
  then obtain p' where p': "l = \<lparr>looping = False, quit = False, callingPendingFunctors = False,
      pendingFunctors = [], poller = p', timerQueue = None, wakeupChannel = 0, efd = 0, lpc = Outside, functors = [],
      owed = 0, queued = [], executed = [], direct = [], early = False\<rparr>"
    "p' = updateChannel ctl 0 ((Channel_setCallback ReadCallback (Channel_new fd))\<lparr>events := kReadEvent\<rparr>)
       ((EPollPoller_new k)\<lparr>chans := [0 \<mapsto> Channel_setCallback ReadCallback (Channel_new fd)]\<rparr>)" by (rule loop_initial_shape)
  have "chans p' 0 \<noteq> None"
    by (simp add: p'(2) updateChannel_def EPollPoller_update_def Let_def split: prod.splits)
  then show ?thesis by (simp add: loop_ok_def p'(1))
qed

interpretation eloop: invariant_system "loop_initial ctl" "loop_step ctl interest" loop_ok for ctl interest
  by unfold_locales (auto simp: loop_step_def intro: loop_initial_ok step_ok)

text \<open>The wakeup channel stays registered with the kernel.\<close>

lemma loop_started_watched:
  assumes sp: "epoll_spec ctl interest" and l: "loop_started ctl interest l"
  shows "eventfd_watched interest l"
proof -
  from l obtain k fd where k: "interest k = Map.empty" "EventLoop_new ctl k fd = Inr l"
    by (auto simp: loop_started_def createEventfd_def)
  from k(2) obtain p' where p': "l = \<lparr>looping = False, quit = False, callingPendingFunctors = False,
      pendingFunctors = [], poller = p', timerQueue = None, wakeupChannel = 0, efd = 0, lpc = Outside, functors = [],
      owed = 0, queued = [], executed = [], direct = [], early = False\<rparr>"
    "p' = updateChannel ctl 0 ((Channel_setCallback ReadCallback (Channel_new fd))\<lparr>events := kReadEvent\<rparr>)
       ((EPollPoller_new k)\<lparr>chans := [0 \<mapsto> Channel_setCallback ReadCallback (Channel_new fd)]\<rparr>)" by (rule loop_initial_shape)
  from epoll_specD(1) [OF sp, of k fd "(kReadEvent, 0)"] k(1) obtain k' where
    "ctl CtlAdd fd (kReadEvent, 0) k = (k', None)" "interest k' fd = Some (kReadEvent, 0)" by auto
  then have "chans p' 0 = Some ((Channel_setCallback ReadCallback (Channel_new fd))\<lparr>events := kReadEvent, index := kAdded\<rparr>)"
    "interest (kernel p') fd = Some (kReadEvent, 0)"
    by (simp_all add: p'(2) updateChannel_def EPollPoller_update_def EPollPoller_new_def Channel_setCallback_def Channel_new_def Let_def)
  then show ?thesis by (simp add: eventfd_watched_def p'(1) Channel_setCallback_def Channel_new_def event_defs epoll_defs)
qed

lemma eventfd_watched_poll:
  assumes "eventfd_watched interest l" "loop_poll reply l = Inr l'"
  shows "eventfd_watched interest l'"
proof -
  from assms(1) obtain ch ev where ch: "chans (poller l) (wakeupChannel l) = Some ch"
    "interest (kernel (poller l)) (cfd ch) = Some (ev, wakeupChannel l)" "ev AND EPOLLIN \<noteq> 0" by (auto simp: eventfd_watched_def)
  from assms(2) obtain cs p where p: "l' = l\<lparr>poller := p, lpc := Handling cs\<rparr>" "kernel p = kernel (poller l)"
    "\<forall>c ch. chans (poller l) c = Some ch \<longrightarrow> (\<exists>ch'. chans p c = Some ch' \<and> cfd ch' = cfd ch)" by (rule loop_poll_frame)
  from p(3) ch(1) obtain ch' where "chans p (wakeupChannel l) = Some ch'" "cfd ch' = cfd ch" by blast
  with ch show ?thesis by (auto simp: eventfd_watched_def p(1,2))
qed

lemma loop_step_watched:
  assumes sp: "epoll_spec ctl interest" and w: "eventfd_watched interest l" and st: "loop_step ctl interest l l'"
  shows "eventfd_watched interest l'"
proof -
  have same: ?thesis if "poller l' = poller l" "wakeupChannel l' = wakeupChannel l"
    using that w by (simp add: eventfd_watched_def)
  from st consider "own_step interest l l'" | "interrupt_step l l'" | "callback_step ctl l l'" | "outside_step l l'" | "other_step l l'"
    by (auto simp: loop_step_def)
  then show ?thesis
  proof cases
    case 1
    then show ?thesis
    proof (cases rule: own_step.cases)
      case (poll es)
      then show ?thesis using eventfd_watched_poll [OF w] by blast
    qed (rule same; auto simp: loop_defs Let_def split: list.splits loop_pc.splits)+
  next
    case 2
    then show ?thesis using eventfd_watched_poll [OF w] by (auto elim: interrupt_stepE)
  next
    case 3
    then show ?thesis
    proof (cases rule: callback_step.cases)
      case (channel_local c x)
      then show ?thesis using w by (simp add: eventfd_watched_def)
    next
      case (register_local c ch oper p)
      from w obtain wch ev where wch: "chans (poller l) (wakeupChannel l) = Some wch"
        "interest (kernel (poller l)) (cfd wch) = Some (ev, wakeupChannel l)" "ev AND EPOLLIN \<noteq> 0" by (auto simp: eventfd_watched_def)
      have "chans p (wakeupChannel l) = Some wch" using chan_do_chans register_local wch(1) by metis
      moreover have "interest (kernel p) (cfd wch) = interest (kernel (poller l)) (cfd wch)"
        using chan_do_frame [OF sp register_local(6,4)] register_local(5) [OF wch(1)] by auto
      ultimately show ?thesis using wch register_local(1) by (simp add: eventfd_watched_def)
    qed (rule same; auto simp: loop_defs Let_def)+
  next
    case 4
    then show ?thesis by (cases rule: outside_step.cases) (rule same; auto simp: loop_defs Let_def)+
  next
    case 5
    then show ?thesis by (cases rule: other_step.cases) (rule same; auto simp: loop_defs Let_def)+
  qed
qed

interpretation wloop: invariant_system "\<lambda>l. epoll_spec ctl interest \<and> loop_started ctl interest l" "loop_step ctl interest"
  "\<lambda>l. epoll_spec ctl interest \<and> loop_ok l \<and> eventfd_watched interest l" for ctl interest
proof (unfold_locales, goal_cases)
  case (1 l)
  then have "loop_initial ctl l" by (auto simp: loop_started_def loop_initial_def)
  with 1 show ?case using loop_initial_ok loop_started_watched by blast
next
  case (2 l l')
  then have "loop_ok l'" by (auto simp: loop_step_def intro: step_ok)
  with 2 show ?case using loop_step_watched by blast
qed

lemma started_reachable:
  assumes sp: "epoll_spec ctl interest" and r: "reachable (loop_started ctl interest) (loop_step ctl interest) l"
  shows "loop_ok l" "eventfd_watched interest l"
proof -
  from r have "reachable (\<lambda>l. epoll_spec ctl interest \<and> loop_started ctl interest l) (loop_step ctl interest) l"
    by (induction rule: reachable.induct) (use sp in \<open>auto intro: reachable.intros\<close>)
  from wloop.reachable_inv [OF this] show "loop_ok l" "eventfd_watched interest l" by simp_all
qed

section \<open>Progress of the loop's thread\<close>

lemma call_all:
  assumes "lpc l = Running" "functors l = fs"
  shows "\<exists>l'. (own_step interest)\<^sup>*\<^sup>* l l' \<and> lpc l' = Running \<and> functors l' = [] \<and> executed l' = executed l @ fs \<and>
    pendingFunctors l' = pendingFunctors l \<and> quit l' = quit l"
  using assms
proof (induction fs arbitrary: l)
  case (Cons f fs)
  let ?l1 = "doPendingFunctors_call l"
  have "own_step interest l ?l1" using Cons.prems by (intro own_step.call) simp_all
  moreover have "lpc ?l1 = Running" "functors ?l1 = fs" "executed ?l1 = executed l @ [f]"
    "pendingFunctors ?l1 = pendingFunctors l" "quit ?l1 = quit l" using Cons.prems by (simp_all add: doPendingFunctors_call_def)
  moreover from Cons.IH [OF this(1,2)] obtain l' where "(own_step interest)\<^sup>*\<^sup>* ?l1 l'" "lpc l' = Running" "functors l' = []"
    "executed l' = executed ?l1 @ fs" "pendingFunctors l' = pendingFunctors ?l1" "quit l' = quit ?l1" by blast
  ultimately show ?case by (intro exI [of _ l']) (auto intro: converse_rtranclp_into_rtranclp)
qed auto

text \<open>A thread waiting in \<open>poll\<close> with a ready eventfd is woken by it and goes on to run everything that is queued.\<close>

lemma poll_drains:
  assumes pc: "lpc l = Polling" and rdy: "eventfd_ready interest l"
  shows "\<exists>l1 l'. loop_poll (Inr [(EPOLLIN, wakeupChannel l)]) l = Inr l1 \<and> own_step interest l l1 \<and>
    (own_step interest)\<^sup>*\<^sup>* l1 l' \<and> lpc l' = Running \<and> functors l' = [] \<and> pendingFunctors l' = [] \<and>
    executed l' = executed l @ pendingFunctors l \<and> quit l' = quit l"
proof -
  let ?w = "wakeupChannel l"
  have ch: "chans (poller l) ?w \<noteq> None" using rdy by (auto simp: eventfd_ready_def eventfd_watched_def)
  obtain p cs where poll: "loop_poll (Inr [(EPOLLIN, ?w)]) l = Inr (l\<lparr>poller := p, lpc := Handling [?w]\<rparr>)"
    using ch by (auto simp: loop_poll_def EPollPoller_poll_def)
  let ?l1 = "l\<lparr>poller := p, lpc := Handling [?w]\<rparr>"
  let ?l2 = "loop_handle ?l1"
  let ?l3 = "(doPendingFunctors_enter ?l2)\<lparr>early := False\<rparr>"
  have "reports_ok interest l [(EPOLLIN, ?w)]"
    using rdy by (auto simp: reports_ok_def eventfd_ready_def eventfd_watched_def)
  then have 1: "own_step interest l ?l1" using pc poll by (intro own_step.poll)
  have "own_step interest ?l1 ?l2" by (rule own_step.handle) simp
  moreover have l2: "lpc ?l2 = Handling []" "pendingFunctors ?l2 = pendingFunctors l" "executed ?l2 = executed l"
    "quit ?l2 = quit l"
    by (simp_all add: loop_handle_def Let_def EventLoop_handleRead_def)
  moreover have "own_step interest ?l2 ?l3" using l2(1) by (rule own_step.swap)
  ultimately have "(own_step interest)\<^sup>*\<^sup>* ?l1 ?l3" by (meson converse_rtranclp_into_rtranclp rtranclp.rtrancl_refl)
  moreover have "lpc ?l3 = Running" "functors ?l3 = pendingFunctors l" "executed ?l3 = executed l" "pendingFunctors ?l3 = []"
    "quit ?l3 = quit l"
    using l2 by (simp_all add: doPendingFunctors_enter_def)
  moreover from call_all [OF this(1,2)] obtain l' where "(own_step interest)\<^sup>*\<^sup>* ?l3 l'" "lpc l' = Running" "functors l' = []"
    "executed l' = executed ?l3 @ pendingFunctors l" "pendingFunctors l' = pendingFunctors ?l3" "quit l' = quit ?l3" by blast
  ultimately show ?thesis using 1 poll by (intro exI [of _ ?l1] exI [of _ l']) auto
qed

section \<open>Properties\<close>

definition example_loop :: "(nat, int \<Rightarrow> (mask \<times> chan_id) option) EventLoop" where
  "example_loop = \<lparr>looping = False, quit = False, callingPendingFunctors = False, pendingFunctors = [],
     poller = \<lparr>chans = [0 \<mapsto> \<lparr>cfd = 5, events = kReadEvent, revents = 0, index = kAdded, tied = False,
         callbacks = [ReadCallback]\<rparr>], channels = [5 \<mapsto> 0], kernel = [5 \<mapsto> (kReadEvent, 0)],
       list_size = kInitEventListSize, ctl_errors = []\<rparr>,
     timerQueue = None, wakeupChannel = 0, efd = 0, lpc = Outside, functors = [],
     owed = 0, queued = [], executed = [], direct = [], early = False\<rparr>"

lemma example_loop_new: "EventLoop_new list_ctl Map.empty 5 = Inr example_loop"
  by (simp add: EventLoop_new_def Let_def chan_do_def updateChannel_def EPollPoller_update_def EPollPoller_new_def
      Channel_setCallback_def Channel_new_def list_ctl_def example_loop_def event_defs)

abbreviation ex_step :: "(nat, int \<Rightarrow> (mask \<times> chan_id) option) EventLoop \<Rightarrow> (nat, int \<Rightarrow> (mask \<times> chan_id) option) EventLoop \<Rightarrow> bool" where
  "ex_step \<equiv> loop_step list_ctl (\<lambda>k. k)"

lemma example_loop_started: "loop_started list_ctl (\<lambda>k. k) example_loop"
proof -
  have "(0 :: int) \<le> 5" "EventLoop_new list_ctl Map.empty (createEventfd (Inr 5)) = Inr example_loop"
    by (simp_all add: createEventfd_def example_loop_new)
  then show ?thesis unfolding loop_started_def by blast
qed

lemma example_loop_reachable:
  "reachable (loop_initial list_ctl) ex_step example_loop" "reachable (loop_started list_ctl (\<lambda>k. k)) ex_step example_loop"
  using example_loop_new example_loop_started by (intro reachable_init; auto simp: loop_initial_def)+

text \<open>C9: Every functor queued from any thread is run at most once and in the order of queueing: in every
  reachable state the functors run so far, those taken out by \<open>doPendingFunctors\<close> and those still
  queued are together exactly the ones ever queued.\<close>

theorem loop_runs_in_order_once:
  assumes "reachable (loop_initial ctl) (loop_step ctl interest) l"
  shows "executed l @ functors l @ pendingFunctors l = queued l"
  using eloop.reachable_inv [OF assms] by (simp add: loop_ok_def)

theorem loop_runs_in_order_once_witness:
  "executed (queueInLoop_other example_loop 3) @ functors (queueInLoop_other example_loop 3) @
     pendingFunctors (queueInLoop_other example_loop 3) = queued (queueInLoop_other example_loop 3)"
  by (rule loop_runs_in_order_once, rule reachable_step [OF example_loop_reachable(1)])
    (auto simp: loop_step_def intro: other_step.intros)

text \<open>C8: No wakeup is lost. Take any reachable state of a loop whose \<open>eventfd\<close> could be made, on a new epoll
  instance. When the loop's thread waits in \<open>poll\<close> while functors are queued, every caller in another
  thread has finished its call, and the loop's thread has not itself queued a functor outside of
  \<open>loop\<close> (that one would not wake it), then the eventfd is readable and registered for reading, so
  \<open>epoll_wait\<close> can report just it, and from there the steps of the loop's thread alone, without a
  signal or another event, run all the queued functors in order.\<close>

theorem loop_no_lost_wakeup:
  assumes "epoll_spec ctl interest" "reachable (loop_started ctl interest) (loop_step ctl interest) l"
    "lpc l = Polling" "owed l = 0" "\<not> early l" "pendingFunctors l \<noteq> []"
  shows "eventfd_ready interest l \<and> (\<exists>l1 l'. loop_poll (Inr [(EPOLLIN, wakeupChannel l)]) l = Inr l1 \<and> own_step interest l l1 \<and>
    (own_step interest)\<^sup>*\<^sup>* l1 l' \<and> pendingFunctors l' = [] \<and> functors l' = [] \<and> executed l' = executed l @ pendingFunctors l)"
proof -
  note inv = started_reachable [OF assms(1,2)]
  then have "eventfd_ready interest l" using assms(3-6) by (simp add: loop_ok_def eventfd_ready_def)
  then show ?thesis using poll_drains [OF assms(3)] by blast
qed

lemma example_loop_polls: "reachable (loop_started list_ctl (\<lambda>k. k)) ex_step (loop_test (loop_enter example_loop))"
proof -
  have "ex_step example_loop (loop_enter example_loop)" by (simp add: loop_step_def own_step.enter example_loop_def)
  with example_loop_reachable(2) have "reachable (loop_started list_ctl (\<lambda>k. k)) ex_step (loop_enter example_loop)"
    by (rule reachable_step)
  then show ?thesis by (rule reachable_step) (simp add: loop_step_def own_step.test loop_enter_def)
qed

definition example_polling :: "(nat, int \<Rightarrow> (mask \<times> chan_id) option) EventLoop" where
  "example_polling = wakeup_other (queueInLoop_other (loop_test (loop_enter example_loop)) 3)"

lemma example_polling_reachable: "reachable (loop_started list_ctl (\<lambda>k. k)) ex_step example_polling"
proof -
  let ?l1 = "queueInLoop_other (loop_test (loop_enter example_loop)) 3"
  have "reachable (loop_started list_ctl (\<lambda>k. k)) ex_step ?l1"
    by (rule reachable_step [OF example_loop_polls]) (simp add: loop_step_def other_step.queue_other)
  then show ?thesis
    by (rule reachable_step) (simp add: loop_step_def example_polling_def other_step.wake_other queueInLoop_other_def)
qed

theorem loop_no_lost_wakeup_witness:
  "eventfd_ready (\<lambda>k. k) example_polling \<and>
   (\<exists>l1 l'. loop_poll (Inr [(EPOLLIN, wakeupChannel example_polling)]) example_polling = Inr l1 \<and>
    own_step (\<lambda>k. k) example_polling l1 \<and> (own_step (\<lambda>k. k))\<^sup>*\<^sup>* l1 l' \<and> pendingFunctors l' = [] \<and> functors l' = [] \<and>
    executed l' = executed example_polling @ pendingFunctors example_polling)"
  by (rule loop_no_lost_wakeup [OF list_ctl_spec example_polling_reachable])
    (simp_all add: example_polling_def wakeup_other_def queueInLoop_other_def loop_test_def loop_enter_def example_loop_def wakeup_def)

text \<open>C24: A \<open>quit\<close> from another thread ends a waiting loop: in every reachable state of a loop whose
  \<open>eventfd\<close> could be made, when the thread waits in \<open>poll\<close> with \<open>quit_\<close> set and the call has finished,
  the eventfd is readable and registered for reading, so \<open>epoll_wait\<close> can report just it, and from
  there the loop's thread alone, without a signal or another event, runs what is queued and then leaves \<open>loop\<close>.\<close>

theorem loop_quit_from_other_thread:
  assumes "epoll_spec ctl interest" "reachable (loop_started ctl interest) (loop_step ctl interest) l"
    "lpc l = Polling" "owed l = 0" "quit l"
  shows "eventfd_ready interest l \<and> (\<exists>l1 l'. loop_poll (Inr [(EPOLLIN, wakeupChannel l)]) l = Inr l1 \<and> own_step interest l l1 \<and>
    (own_step interest)\<^sup>*\<^sup>* l1 l' \<and> lpc l' = Outside \<and> \<not> looping l' \<and> executed l' = executed l @ pendingFunctors l)"
proof -
  note inv = started_reachable [OF assms(1,2)]
  then have rdy: "eventfd_ready interest l" using assms(3-5) by (simp add: loop_ok_def eventfd_ready_def)
  from poll_drains [OF assms(3) this] obtain l1 l2 where l1: "loop_poll (Inr [(EPOLLIN, wakeupChannel l)]) l = Inr l1"
    "own_step interest l l1" "(own_step interest)\<^sup>*\<^sup>* l1 l2" "lpc l2 = Running" "functors l2 = []"
    "executed l2 = executed l @ pendingFunctors l" "quit l2 = quit l" by blast
  let ?l3 = "doPendingFunctors_leave l2"
  let ?l4 = "loop_test ?l3"
  have "own_step interest l2 ?l3" using l1(4,5) by (rule own_step.leave)
  moreover have "own_step interest ?l3 ?l4" by (rule own_step.test) (simp add: doPendingFunctors_leave_def)
  ultimately have "(own_step interest)\<^sup>*\<^sup>* l1 ?l4" using l1(3) by (meson rtranclp.rtrancl_into_rtrancl)
  moreover have "lpc ?l4 = Outside" "\<not> looping ?l4" "executed ?l4 = executed l2"
    using l1(7) assms(5) by (simp_all add: loop_test_def doPendingFunctors_leave_def)
  ultimately show ?thesis using rdy l1(1,2,6) by (intro conjI exI [of _ l1] exI [of _ ?l4]) simp_all
qed

definition example_quit :: "(nat, int \<Rightarrow> (mask \<times> chan_id) option) EventLoop" where
  "example_quit = wakeup_other (EventLoop_quit_other (loop_test (loop_enter example_loop)))"

theorem loop_quit_from_other_thread_witness:
  "eventfd_ready (\<lambda>k. k) example_quit \<and>
   (\<exists>l1 l'. loop_poll (Inr [(EPOLLIN, wakeupChannel example_quit)]) example_quit = Inr l1 \<and>
    own_step (\<lambda>k. k) example_quit l1 \<and> (own_step (\<lambda>k. k))\<^sup>*\<^sup>* l1 l' \<and> lpc l' = Outside \<and> \<not> looping l' \<and>
    executed l' = executed example_quit @ pendingFunctors example_quit)"
proof (rule loop_quit_from_other_thread [OF list_ctl_spec])
  let ?l1 = "EventLoop_quit_other (loop_test (loop_enter example_loop))"
  have "reachable (loop_started list_ctl (\<lambda>k. k)) ex_step ?l1"
    by (rule reachable_step [OF example_loop_polls]) (simp add: loop_step_def other_step.quit_other)
  then show "reachable (loop_started list_ctl (\<lambda>k. k)) ex_step example_quit"
    by (rule reachable_step) (simp add: loop_step_def example_quit_def other_step.wake_other EventLoop_quit_other_def)
qed (simp_all add: example_quit_def wakeup_other_def EventLoop_quit_other_def loop_test_def loop_enter_def example_loop_def wakeup_def)

text \<open>A functor that the owner thread queues before it calls \<open>loop\<close> does not wake the loop: the
  eventfd stays at zero, and the thread then waits in \<open>poll\<close>, whose timeout is infinite, with the
  functor queued.\<close>

theorem queue_before_loop_sleeps:
  assumes "loop_initial ctl l"
  shows "let l' = loop_test (loop_enter (queueInLoop_local l f)) in
    lpc l' = Polling \<and> efd l' = 0 \<and> owed l' = 0 \<and> pendingFunctors l' = [f] \<and> kPollTimeMs < 0"
  using assms
  by (auto simp: loop_initial_def EventLoop_new_def Let_def bind_r_Inr_iff loop_test_def loop_enter_def
      queueInLoop_local_def kPollTimeMs_def)

theorem queue_before_loop_sleeps_witness:
  "let l' = loop_test (loop_enter (queueInLoop_local example_loop 3)) in
    lpc l' = Polling \<and> efd l' = 0 \<and> owed l' = 0 \<and> pendingFunctors l' = [3] \<and> kPollTimeMs < 0"
  by (rule queue_before_loop_sleeps [of list_ctl]) (use example_loop_new in \<open>auto simp: loop_initial_def\<close>)

text \<open>A \<open>quit\<close> called before \<open>loop\<close> is forgotten: \<open>loop\<close> clears \<open>quit_\<close> and goes on to poll.\<close>

lemma quit_before_loop_is_lost:
  "lpc (loop_test (loop_enter (EventLoop_quit_local l))) = Polling \<and>
   lpc (loop_test (loop_enter (EventLoop_quit_other l))) = Polling"
  by (simp add: loop_test_def loop_enter_def)

text \<open>A channel handed to the loop is one the loop has, and no longer once it is removed; the functors and
  the place of the loop's thread are left alone.\<close>

lemma loop_has_updated_channel:
  assumes "chans (poller l) c = Some ch" "index ch = kNew"
  shows "\<exists>l'. EventLoop_updateChannel ctl c l = Inr l' \<and> EventLoop_hasChannel l' c \<and>
    pendingFunctors l' = pendingFunctors l \<and> lpc l' = lpc l"
  using assms
  by (simp add: EventLoop_updateChannel_def EventLoop_hasChannel_def updateChannel_def hasChannel_def
      EPollPoller_update_def Let_def split: prod.split)

lemma loop_removed_channel:
  assumes "chans (poller l) c = Some ch"
  shows "\<exists>l'. EventLoop_removeChannel ctl c l = Inr l' \<and> \<not> EventLoop_hasChannel l' c \<and>
    pendingFunctors l' = pendingFunctors l \<and> lpc l' = lpc l"
  using assms
  by (simp add: EventLoop_removeChannel_def EventLoop_hasChannel_def removeChannel_def hasChannel_def
      EPollPoller_update_def Let_def split: prod.split)

text \<open>A loop whose \<open>eventfd\<close> failed is constructed all the same: when the kernel refuses the descriptor
  \<open>-1\<close>, the wakeup channel is not registered and nothing can wake the loop.\<close>

lemma failed_eventfd_is_not_noticed:
  assumes "\<And>ev. ctl CtlAdd (-1) ev k = (k, Some e)"
  shows "\<exists>l. EventLoop_new ctl k (createEventfd (Inl err)) = Inr l \<and> kernel (poller l) = k \<and>
    ctl_errors (poller l) = [(CtlAdd, e)]"
  using assms
  by (simp add: EventLoop_new_def createEventfd_def chan_do_def updateChannel_def EPollPoller_update_def
      EPollPoller_new_def Channel_setCallback_def Channel_new_def Let_def)

text \<open>
  \<open>quit\<close> abandons what is queued. \<open>~TcpServer\<close> queues the destruction of its connections from the base
  thread and \<open>~EventLoopThread\<close> calls \<open>quit\<close> right after it: when the loop's thread stands before the
  test of \<open>while (!quit_)\<close>, it leaves \<open>loop\<close> with the functor queued and not run.
\<close>

lemma quit_abandons_functors:
  fixes l :: "('f, 'k) EventLoop" and cb :: 'f
  assumes r: "reachable (loop_started ctl interest) (loop_step ctl interest) l" and pc: "lpc l = Head"
  defines "l' \<equiv> loop_test (EventLoop_quit_other (queueInLoop_other l cb))"
  shows "reachable (loop_started ctl interest) (loop_step ctl interest) l'" "lpc l' = Outside"
    "pendingFunctors l' = pendingFunctors l @ [cb]" "executed l' = executed l"
proof -
  let ?R = "reachable (loop_started ctl interest) (loop_step ctl interest)"
  have "?R (queueInLoop_other l cb)"
    by (rule reachable_step [OF r]) (simp add: loop_step_def other_step.queue_other)
  then have "?R (EventLoop_quit_other (queueInLoop_other l cb))"
    by (rule reachable_step) (simp add: loop_step_def other_step.quit_other)
  then show "?R l'"
    unfolding l'_def by (rule reachable_step)
      (use pc in \<open>simp add: loop_step_def own_step.test EventLoop_quit_other_def queueInLoop_other_def\<close>)
qed (simp_all add: l'_def loop_test_def EventLoop_quit_other_def queueInLoop_other_def)

text \<open>C35: Timers cannot be used: the loop never creates its \<open>timerQueue_\<close>, so in every reachable state
  \<open>runAt\<close>, \<open>runAfter\<close> and \<open>runEvery\<close> dereference a null pointer.\<close>

theorem timers_dereference_null:
  assumes "reachable (loop_initial ctl) (loop_step ctl interest) l"
  shows "runAt new clk b l due f = Inl NullDeref \<and> runAfter new clk b l now d f = Inl NullDeref \<and>
    runEvery new clk b l now d f = Inl NullDeref"
  using eloop.reachable_inv [OF assms] by (simp add: loop_ok_def runAt_def runAfter_def runEvery_def)

theorem timers_dereference_null_witness:
  "runAt example_new (\<lambda>_. Timestamp 0) True example_loop (Timestamp 5) 3 = Inl NullDeref \<and>
    runAfter example_new (\<lambda>_. Timestamp 0) True example_loop (Timestamp 0) (whole_seconds 1) 3 = Inl NullDeref \<and>
    runEvery example_new (\<lambda>_. Timestamp 0) True example_loop (Timestamp 0) (whole_seconds 1) 3 = Inl NullDeref"
  by (rule timers_dereference_null [OF example_loop_reachable(1)])

end
