(* ===== verification/TcpConnection.thy ===== *)
theory TcpConnection
  imports Buffer EventLoop
begin

unbundle bit_operations_syntax

text \<open>
  One TCP connection (\<open>include/TcpConnection.h\<close>, \<open>src/TcpConnection.cc\<close>), in the thread of its loop.

  The state holds the connection's members, the poller of its loop (its channel lives in the
  poller's store), the bytes the kernel has accepted for the peer, and the effects on the outside in
  order: calls of the callbacks, functors queued in the loop, the half-close, error logs. The replies
  of the kernel to \<open>readv\<close>, \<open>write\<close> and \<open>sendfile\<close> are arguments; a loop whose replies run out before
  it ends is \<open>None\<close>. The message callback is a parameter, a function on the connection.
\<close>

section \<open>State\<close>

datatype StateE = kDisconnected | kConnecting | kConnected | kDisconnecting

datatype conn_effect =
    ConnectionCallback StateE
  | CloseCallbackCall
  | QueueWriteComplete
  | QueueHighWaterMark nat
  | ShutdownWrite
  | LogError

record 'k TcpConnection =
  cstate :: StateE
  reading :: bool
  cchan :: chan_id
  cpoller :: "'k EPollPoller"
  inputBuffer :: Buffer
  outputBuffer :: Buffer
  highWaterMark :: nat
  hasWriteComplete :: bool
  hasHighWaterMark :: bool
  sent :: "char list"
  effects :: "conn_effect list"

definition effect :: "conn_effect \<Rightarrow> 'k TcpConnection \<Rightarrow> 'k TcpConnection" where
  "effect e c = c\<lparr>effects := effects c @ [e]\<rparr>"

definition setState :: "StateE \<Rightarrow> 'k TcpConnection \<Rightarrow> 'k TcpConnection" where
  "setState s c = c\<lparr>cstate := s\<rparr>"

definition conn_channel :: "'k TcpConnection \<Rightarrow> Channel result" where
  "conn_channel c = (case chans (cpoller c) (cchan c) of None \<Rightarrow> Inl NullDeref | Some ch \<Rightarrow> Inr ch)"

definition conn_do :: "'k epoll_ctl \<Rightarrow> chan_op \<Rightarrow> 'k TcpConnection \<Rightarrow> 'k TcpConnection result" where
  "conn_do ctl oper c = bind_r (chan_do ctl oper (cchan c) (cpoller c)) (\<lambda>p. Inr (c\<lparr>cpoller := p\<rparr>))"

text \<open>The constructor creates the channel with its four callbacks; both buffers are new.\<close>

definition TcpConnection_new :: "'k EPollPoller \<Rightarrow> chan_id \<Rightarrow> int \<Rightarrow> 'k TcpConnection result" where
  "TcpConnection_new p cid sockfd =
     bind_r (Buffer_new InitialSize) (\<lambda>ib.
     bind_r (Buffer_new InitialSize) (\<lambda>ob.
       Inr \<lparr>cstate = kConnecting, reading = True, cchan = cid,
            cpoller = p\<lparr>chans := (chans p)(cid \<mapsto> Channel_setCallback ErrorCallback (Channel_setCallback CloseCallback
              (Channel_setCallback WriteCallback (Channel_setCallback ReadCallback (Channel_new sockfd)))))\<rparr>,
            inputBuffer = ib, outputBuffer = ob, highWaterMark = 64 * 1024 * 1024,
            hasWriteComplete = False, hasHighWaterMark = False, sent = [], effects = []\<rparr>))"

text \<open>The setters of the two optional callbacks; the argument tells whether the callback is set.\<close>

definition setWriteCompleteCallback :: "bool \<Rightarrow> 'k TcpConnection \<Rightarrow> 'k TcpConnection" where
  "setWriteCompleteCallback cb c = c\<lparr>hasWriteComplete := cb\<rparr>"

definition setHighWaterMarkCallback :: "bool \<Rightarrow> nat \<Rightarrow> 'k TcpConnection \<Rightarrow> 'k TcpConnection" where
  "setHighWaterMarkCallback cb mark c = c\<lparr>hasHighWaterMark := cb, highWaterMark := mark\<rparr>"

definition connected :: "'k TcpConnection \<Rightarrow> bool" where
  "connected c \<longleftrightarrow> cstate c = kConnected"

section \<open>Establishing and destroying\<close>

definition connectEstablished :: "'k epoll_ctl \<Rightarrow> 'k TcpConnection \<Rightarrow> 'k TcpConnection result" where
  "connectEstablished ctl c =
     (let c1 = setState kConnected c in
      bind_r (conn_channel c1) (\<lambda>ch.
      let c2 = c1\<lparr>cpoller := (cpoller c1)\<lparr>chans := (chans (cpoller c1))(cchan c1 \<mapsto> Channel_tie ch)\<rparr>\<rparr> in
      bind_r (conn_do ctl EnableET c2) (\<lambda>c3.
      bind_r (conn_do ctl EnableReading c3) (\<lambda>c4.
        Inr (effect (ConnectionCallback (cstate c4)) c4)))))"

definition connectDestroyed :: "'k epoll_ctl \<Rightarrow> 'k TcpConnection \<Rightarrow> 'k TcpConnection result" where
  "connectDestroyed ctl c =
     bind_r (if cstate c = kConnected
             then bind_r (conn_do ctl DisableAll (setState kDisconnected c)) (\<lambda>c1.
                    Inr (effect (ConnectionCallback (cstate c1)) c1))
             else Inr c) (\<lambda>c2. conn_do ctl Remove c2)"

definition handleClose :: "'k epoll_ctl \<Rightarrow> 'k TcpConnection \<Rightarrow> 'k TcpConnection result" where
  "handleClose ctl c =
     bind_r (conn_do ctl DisableAll (setState kDisconnected c)) (\<lambda>c1.
       Inr (effect CloseCallbackCall (effect (ConnectionCallback (cstate c1)) c1)))"

definition handleError :: "'k epoll_ctl \<Rightarrow> 'k TcpConnection \<Rightarrow> 'k TcpConnection result" where
  "handleError ctl c = handleClose ctl (effect LogError c)"

section \<open>Receiving\<close>

fun handleRead :: "'k epoll_ctl \<Rightarrow> ('k TcpConnection \<Rightarrow> 'k TcpConnection result) \<Rightarrow> char list sysret list \<Rightarrow>
    'k TcpConnection \<Rightarrow> 'k TcpConnection result option" where
  "handleRead ctl messageCallback [] c = None"
| "handleRead ctl messageCallback (r # rs) c =
     (case readFd (inputBuffer c) r of
        Inl x \<Rightarrow> Some (Inl x)
      | Inr (b, n, savedErrno) \<Rightarrow>
          (let c1 = c\<lparr>inputBuffer := b\<rparr> in
           if 0 < n
           then (case messageCallback c1 of
                   Inl x \<Rightarrow> Some (Inl x)
                 | Inr c2 \<Rightarrow> handleRead ctl messageCallback rs c2)
           else if n = 0 then Some (handleClose ctl c1)
           else if savedErrno = Some EAGAIN \<or> savedErrno = Some EWOULDBLOCK then Some (Inr c1)
           else Some (handleError ctl (effect LogError c1))))"

section \<open>Sending\<close>

definition shutdownInLoop :: "'k TcpConnection \<Rightarrow> 'k TcpConnection result" where
  "shutdownInLoop c =
     bind_r (conn_channel c) (\<lambda>ch. if \<not> isWriting ch then Inr (effect ShutdownWrite c) else Inr c)"

definition TcpConnection_shutdown :: "'k TcpConnection \<Rightarrow> 'k TcpConnection result" where
  "TcpConnection_shutdown c =
     (if cstate c = kConnected then shutdownInLoop (setState kDisconnecting c) else Inr c)"

text \<open>The part of \<open>handleWrite\<close> that runs when the output buffer has become empty.\<close>

definition output_drained :: "'k epoll_ctl \<Rightarrow> 'k TcpConnection \<Rightarrow> 'k TcpConnection result" where
  "output_drained ctl c =
     bind_r (conn_do ctl DisableWriting c) (\<lambda>c1.
       let c2 = (if hasWriteComplete c1 then effect QueueWriteComplete c1 else c1)
       in if cstate c2 = kDisconnecting then shutdownInLoop c2 else Inr c2)"

fun write_loop :: "'k epoll_ctl \<Rightarrow> nat sysret list \<Rightarrow> 'k TcpConnection \<Rightarrow> 'k TcpConnection result option" where
  "write_loop ctl [] c = None"
| "write_loop ctl (r # rs) c =
     (case writeFd (outputBuffer c) r of
        Inl x \<Rightarrow> Some (Inl x)
      | Inr (data, n, savedErrno) \<Rightarrow>
          if 0 < n
          then (let c1 = c\<lparr>outputBuffer := retrieve (outputBuffer c) (nat n), sent := sent c @ take (nat n) data\<rparr>
                in if readableBytes (outputBuffer c1) = 0
                   then (case output_drained ctl c1 of
                           Inl x \<Rightarrow> Some (Inl x)
                         | Inr c2 \<Rightarrow> write_loop ctl rs c2)
                   else write_loop ctl rs c1)
          else if n < 0 \<and> (savedErrno = Some EAGAIN \<or> savedErrno = Some EWOULDBLOCK) then Some (Inr c)
          else Some (Inr (effect LogError c)))"

definition handleWrite :: "'k epoll_ctl \<Rightarrow> nat sysret list \<Rightarrow> 'k TcpConnection \<Rightarrow> 'k TcpConnection result option" where
  "handleWrite ctl rs c =
     (case conn_channel c of
        Inl x \<Rightarrow> Some (Inl x)
      | Inr ch \<Rightarrow> if isWriting ch then write_loop ctl rs c else Some (Inr (effect LogError c)))"

text \<open>
  The first part of \<open>sendInLoop\<close>: the direct \<open>write\<close>, tried when nothing is buffered, with its reply.
  The results are \<open>nwrote\<close>, \<open>remaining\<close> and \<open>faultError\<close>.
\<close>

definition direct_write :: "nat sysret \<Rightarrow> char list \<Rightarrow> Channel \<Rightarrow> 'k TcpConnection \<Rightarrow> 'k TcpConnection \<times> nat \<times> nat \<times> bool" where
  "direct_write reply data ch c =
     (if \<not> isWriting ch \<and> readableBytes (outputBuffer c) = 0
      then (case reply of
              SysOk n \<Rightarrow>
                (let remaining = sz_sub (length data) n;
                     c1 = c\<lparr>sent := sent c @ take n data\<rparr>
                 in (if remaining = 0 \<and> hasWriteComplete c1 then effect QueueWriteComplete c1 else c1,
                     n, remaining, False))
            | SysErr e \<Rightarrow>
                (if e \<noteq> EWOULDBLOCK then effect LogError c else c,
                 0, length data, e \<noteq> EWOULDBLOCK \<and> (e = EPIPE \<or> e = ECONNRESET)))
      else (c, 0, length data, False))"

text \<open>Its second part: buffer what is left and have the poller report when the socket is writable.\<close>

definition buffer_rest :: "'k epoll_ctl \<Rightarrow> char list \<Rightarrow> Channel \<Rightarrow> 'k TcpConnection \<Rightarrow> 'k TcpConnection result" where
  "buffer_rest ctl rest ch c =
     (let oldLen = readableBytes (outputBuffer c);
          remaining = length rest;
          c2 = (if highWaterMark c \<le> sz_add oldLen remaining \<and> oldLen < highWaterMark c \<and> hasHighWaterMark c
                then effect (QueueHighWaterMark (sz_add oldLen remaining)) c else c)
      in bind_r (Buffer_append (outputBuffer c2) rest) (\<lambda>b.
         let c3 = c2\<lparr>outputBuffer := b\<rparr> in
         if \<not> isWriting ch then conn_do ctl EnableWriting c3 else Inr c3))"

definition sendInLoop :: "'k epoll_ctl \<Rightarrow> nat sysret \<Rightarrow> char list \<Rightarrow> 'k TcpConnection \<Rightarrow> 'k TcpConnection result" where
  "sendInLoop ctl reply data c =
     (let c0 = (if cstate c = kDisconnected then effect LogError c else c) in
      bind_r (conn_channel c0) (\<lambda>ch.
      case direct_write reply data ch c0 of
        (c1, nwrote, remaining, faultError) \<Rightarrow>
          if \<not> faultError \<and> 0 < remaining
          then buffer_rest ctl (take remaining (drop nwrote data)) ch c1
          else Inr c1))"

text \<open>\<open>send\<close> in the loop's thread; from another thread it is in theory \<open>CrossThread\<close>.\<close>

definition send :: "'k epoll_ctl \<Rightarrow> nat sysret \<Rightarrow> char list \<Rightarrow> 'k TcpConnection \<Rightarrow> 'k TcpConnection result" where
  "send ctl reply data c = (if cstate c = kConnected then sendInLoop ctl reply data c else Inr c)"

section \<open>Sending a file\<close>

text \<open>
  \<open>sendFileInLoop\<close>: the result tells whether the call queues itself again, and with which offset and
  count. The file is its bytes; \<open>sendfile\<close> advances the offset by what it sent.
\<close>

definition sendFileInLoop :: "nat sysret \<Rightarrow> char list \<Rightarrow> nat \<Rightarrow> nat \<Rightarrow> 'k TcpConnection \<Rightarrow>
    ('k TcpConnection \<times> (nat \<times> nat) option) result" where
  "sendFileInLoop reply file offset cnt c =
     (if cstate c = kDisconnecting then Inr (effect LogError c, None)
      else
      bind_r (conn_channel c) (\<lambda>ch.
      let (c1, off1, remaining, faultError) =
            (if \<not> isWriting ch \<and> readableBytes (outputBuffer c) = 0
             then (case reply of
                     SysOk n \<Rightarrow>
                       (let remaining = sz_sub cnt n;
                            c1 = c\<lparr>sent := sent c @ take n (drop offset file)\<rparr>
                        in (if remaining = 0 \<and> hasWriteComplete c1 then effect QueueWriteComplete c1 else c1,
                            offset + n, remaining, False))
                   | SysErr e \<Rightarrow>
                       (if e \<noteq> EWOULDBLOCK then effect LogError c else c,
                        offset, cnt, e = EPIPE \<or> e = ECONNRESET))
             else (c, offset, cnt, False))
      in Inr (c1, if \<not> faultError \<and> 0 < remaining then Some (off1, remaining) else None)))"

definition sendFile :: "nat sysret \<Rightarrow> char list \<Rightarrow> nat \<Rightarrow> nat \<Rightarrow> 'k TcpConnection \<Rightarrow>
    ('k TcpConnection \<times> (nat \<times> nat) option) result" where
  "sendFile reply file offset cnt c =
     (if connected c then sendFileInLoop reply file offset cnt c else Inr (effect LogError c, None))"

section \<open>Events of the channel\<close>

text \<open>The callbacks of one event in order, with the replies each of them gets.\<close>

fun run_callbacks :: "'k epoll_ctl \<Rightarrow> ('k TcpConnection \<Rightarrow> 'k TcpConnection result) \<Rightarrow> char list sysret list \<Rightarrow>
    nat sysret list \<Rightarrow> callback list \<Rightarrow> 'k TcpConnection \<Rightarrow> 'k TcpConnection result option" where
  "run_callbacks ctl mcb rr wr [] c = Some (Inr c)"
| "run_callbacks ctl mcb rr wr (cb # cbs) c =
     (case (case cb of
              ReadCallback \<Rightarrow> handleRead ctl mcb rr c
            | WriteCallback \<Rightarrow> handleWrite ctl wr c
            | CloseCallback \<Rightarrow> Some (handleClose ctl c)
            | ErrorCallback \<Rightarrow> Some (handleError ctl c)) of
        None \<Rightarrow> None
      | Some (Inl x) \<Rightarrow> Some (Inl x)
      | Some (Inr c1) \<Rightarrow> run_callbacks ctl mcb rr wr cbs c1)"

definition conn_handleEvent :: "'k epoll_ctl \<Rightarrow> ('k TcpConnection \<Rightarrow> 'k TcpConnection result) \<Rightarrow> char list sysret list \<Rightarrow>
    nat sysret list \<Rightarrow> 'k TcpConnection \<Rightarrow> 'k TcpConnection result option" where
  "conn_handleEvent ctl mcb rr wr c =
     (case conn_channel c of
        Inl x \<Rightarrow> Some (Inl x)
      | Inr ch \<Rightarrow> run_callbacks ctl mcb rr wr (handleEvent True ch) c)"

section \<open>Invariant\<close>

text \<open>
  A live connection: its channel is registered with the kernel under its current mask, it is
  watched for reading, and it is watched for writing exactly while output is buffered.
\<close>

definition conn_reg :: "('k \<Rightarrow> int \<Rightarrow> (mask \<times> chan_id) option) \<Rightarrow> Channel \<Rightarrow> 'k TcpConnection \<Rightarrow> bool" where
  "conn_reg interest ch c \<longleftrightarrow> poller_ok interest (cpoller c) \<and> chans (cpoller c) (cchan c) = Some ch \<and>
     index ch = kAdded \<and> isReading ch \<and> interest (kernel (cpoller c)) (cfd ch) = Some (events ch, cchan c)"

definition conn_live :: "('k \<Rightarrow> int \<Rightarrow> (mask \<times> chan_id) option) \<Rightarrow> 'k TcpConnection \<Rightarrow> bool" where
  "conn_live interest c \<longleftrightarrow> buf_ok (inputBuffer c) \<and> buf_ok (outputBuffer c) \<and>
     (\<exists>ch. conn_reg interest ch c \<and> (isWriting ch \<longleftrightarrow> content (outputBuffer c) \<noteq> []))"

text \<open>Everything handed to the connection for the peer: what the kernel has, then what is buffered.\<close>

definition out_stream :: "'k TcpConnection \<Rightarrow> char list" where
  "out_stream c = sent c @ content (outputBuffer c)"

lemma read_write_disjoint: "\<not> (bit kWriteEvent n \<and> bit kReadEvent n)"
proof -
  have "kWriteEvent AND kReadEvent = 0" by (simp add: event_defs epoll_defs)
  then show ?thesis by (metis bit_and_iff bit_0_eq bot_apply bot_bool_def)
qed

lemma kWriteEvent_nz: "kWriteEvent \<noteq> 0"
  by (simp add: event_defs epoll_defs)

lemma kReadEvent_nz: "kReadEvent \<noteq> 0"
  by (simp add: event_defs epoll_defs)

lemma write_mask:
  fixes ev :: mask
  shows "(ev OR kWriteEvent) AND kWriteEvent \<noteq> 0" "(ev AND NOT kWriteEvent) AND kWriteEvent = 0"
    "(ev OR kWriteEvent) AND kReadEvent = ev AND kReadEvent"
    "(ev AND NOT kWriteEvent) AND kReadEvent = ev AND kReadEvent"
proof -
  have "(ev OR kWriteEvent) AND kWriteEvent = kWriteEvent" by (rule bit_eqI) (auto simp: bit_simps)
  then show "(ev OR kWriteEvent) AND kWriteEvent \<noteq> 0" by (simp add: event_defs epoll_defs)
  show "(ev AND NOT kWriteEvent) AND kWriteEvent = 0" by (rule bit_eqI) (auto simp: bit_simps)
  show "(ev OR kWriteEvent) AND kReadEvent = ev AND kReadEvent"
    "(ev AND NOT kWriteEvent) AND kReadEvent = ev AND kReadEvent"
    using read_write_disjoint by (auto intro!: bit_eqI simp: bit_simps)
qed

lemma conn_channel_reg: "conn_reg interest ch c \<Longrightarrow> conn_channel c = Inr ch"
  by (simp add: conn_reg_def conn_channel_def)

lemma conn_reg_frame:
  "conn_reg interest ch c \<Longrightarrow> cpoller c' = cpoller c \<Longrightarrow> cchan c' = cchan c \<Longrightarrow> conn_reg interest ch c'"
  by (simp add: conn_reg_def)

lemma effect_simps [simp]:
  "cpoller (effect e c) = cpoller c" "cchan (effect e c) = cchan c" "cstate (effect e c) = cstate c"
  "inputBuffer (effect e c) = inputBuffer c" "outputBuffer (effect e c) = outputBuffer c" "sent (effect e c) = sent c"
  "hasWriteComplete (effect e c) = hasWriteComplete c" "highWaterMark (effect e c) = highWaterMark c"
  "hasHighWaterMark (effect e c) = hasHighWaterMark c" "effects (effect e c) = effects c @ [e]"
  by (simp_all add: effect_def)

lemma setState_simps [simp]:
  "cpoller (setState s c) = cpoller c" "cchan (setState s c) = cchan c" "cstate (setState s c) = s"
  "inputBuffer (setState s c) = inputBuffer c" "outputBuffer (setState s c) = outputBuffer c"
  "sent (setState s c) = sent c" "effects (setState s c) = effects c"
  by (simp_all add: setState_def)

lemma channel_same_index: "index ch = i \<Longrightarrow> ch\<lparr>events := ev, index := i\<rparr> = ch\<lparr>events := ev\<rparr>"
  by (cases ch) simp

text \<open>Switching the interest in writing on and off keeps the registration in step.\<close>

lemma conn_do_writing:
  assumes sp: "epoll_spec ctl interest" and reg: "conn_reg interest ch c" and oper: "oper \<in> {EnableWriting, DisableWriting}"
  obtains p' ch' where "conn_do ctl oper c = Inr (c\<lparr>cpoller := p'\<rparr>)" "conn_reg interest ch' (c\<lparr>cpoller := p'\<rparr>)"
    "isWriting ch' \<longleftrightarrow> oper = EnableWriting"
proof -
  note r = reg [unfolded conn_reg_def]
  let ?ch1 = "ch\<lparr>events := new_events oper (events ch)\<rparr>"
  have rd: "isReading ?ch1" using r oper by (auto simp: isReading_def write_mask)
  then have nn: "\<not> isNoneEvent ?ch1" by (auto simp: isReading_def isNoneEvent_def kNoneEvent_def)
  have u: "poller_ok interest (updateChannel ctl (cchan c) ?ch1 (cpoller c))"
    "chans (updateChannel ctl (cchan c) ?ch1 (cpoller c)) = (chans (cpoller c))(cchan c \<mapsto> ?ch1)"
    "interest (kernel (updateChannel ctl (cchan c) ?ch1 (cpoller c))) =
       (interest (kernel (cpoller c)))(cfd ch \<mapsto> (events ?ch1, cchan c))"
    using updateChannel_ok [OF sp, of "cpoller c" "cchan c" ch ?ch1] r nn by (simp_all add: channel_same_index)
  have "conn_do ctl oper c = Inr (c\<lparr>cpoller := updateChannel ctl (cchan c) ?ch1 (cpoller c)\<rparr>)"
    using r oper by (auto simp: conn_do_def chan_do_def Let_def)
  moreover have "conn_reg interest ?ch1 (c\<lparr>cpoller := updateChannel ctl (cchan c) ?ch1 (cpoller c)\<rparr>)"
    unfolding conn_reg_def using u rd r by simp
  moreover have "isWriting ?ch1 \<longleftrightarrow> oper = EnableWriting"
    using oper kWriteEvent_nz by (auto simp: isWriting_def write_mask)
  ultimately show thesis using that by blast
qed

section \<open>The output stream\<close>

text \<open>The replies after which \<open>sendInLoop\<close> gives the data up.\<close>

definition fatal_reply :: "nat sysret \<Rightarrow> bool" where
  "fatal_reply r \<longleftrightarrow> r = SysErr EPIPE \<or> r = SysErr ECONNRESET"

text \<open>The state the two parts of \<open>sendInLoop\<close> leave alone.\<close>

definition same_conn :: "'k TcpConnection \<Rightarrow> 'k TcpConnection \<Rightarrow> bool" where
  "same_conn c c' \<longleftrightarrow> cchan c' = cchan c \<and> cstate c' = cstate c \<and> inputBuffer c' = inputBuffer c \<and>
     count_list (effects c') ShutdownWrite = count_list (effects c) ShutdownWrite"

lemma direct_write_ok:
  assumes r: "\<And>n. reply = SysOk n \<Longrightarrow> n \<le> length data" "\<not> fatal_reply reply"
    and w: "isWriting ch \<longleftrightarrow> content (outputBuffer c) \<noteq> []" and b: "buf_ok (outputBuffer c)"
  obtains c1 nw where "direct_write reply data ch c = (c1, nw, length data - nw, False)" "nw \<le> length data"
    "nw \<noteq> 0 \<Longrightarrow> content (outputBuffer c) = []" "sent c1 = sent c @ take nw data"
    "same_conn c c1" "cpoller c1 = cpoller c" "outputBuffer c1 = outputBuffer c"
proof (cases "\<not> isWriting ch \<and> readableBytes (outputBuffer c) = 0")
  case False
  have "direct_write reply data ch c = (c, 0, length data, False)"
    unfolding direct_write_def by (simp only: False if_False)
  then show thesis using that [of c 0] by (simp add: same_conn_def)
next
  case True
  show thesis
  proof (cases reply)
    case (SysErr e)
    then show thesis
      using that [of "if e \<noteq> EWOULDBLOCK then effect LogError c else c" 0] True r(2)
      by (auto simp: fatal_reply_def direct_write_def same_conn_def)
  next
    case (SysOk n)
    then have n: "n \<le> length data" by (rule r(1))
    let ?c0 = "c\<lparr>sent := sent c @ take n data\<rparr>"
    let ?c1 = "if length data - n = 0 \<and> hasWriteComplete ?c0 then effect QueueWriteComplete ?c0 else ?c0"
    show thesis
      using that [of ?c1 n] True SysOk n w by (simp add: Let_def sz_simps direct_write_def same_conn_def)
  qed
qed

lemma buffer_rest_ok:
  assumes sp: "epoll_spec ctl interest" and reg: "conn_reg interest ch c"
    and w: "isWriting ch \<longleftrightarrow> content (outputBuffer c) \<noteq> []"
    and b: "buf_ok (inputBuffer c)" "buf_ok (outputBuffer c)" and ne: "rest \<noteq> []"
    and fits: "writerIndex (outputBuffer c) + length rest \<le> ptrdiff_max"
  obtains c' where "buffer_rest ctl rest ch c = Inr c'" "conn_live interest c'" "out_stream c' = out_stream c @ rest"
    "same_conn c c'" "writerIndex (outputBuffer c') \<le> writerIndex (outputBuffer c) + length rest"
proof -
  define c2 where "c2 = (if highWaterMark c \<le> sz_add (readableBytes (outputBuffer c)) (length rest) \<and>
      readableBytes (outputBuffer c) < highWaterMark c \<and> hasHighWaterMark c
      then effect (QueueHighWaterMark (sz_add (readableBytes (outputBuffer c)) (length rest))) c else c)"
  have f2: "cpoller c2 = cpoller c" "sent c2 = sent c" "outputBuffer c2 = outputBuffer c" "same_conn c c2"
    by (simp_all add: c2_def same_conn_def)
  from Buffer_append_ok [OF b(2) fits] obtain b' where
    b': "Buffer_append (outputBuffer c) rest = Inr b'" "buf_ok b'" "content b' = content (outputBuffer c) @ rest"
      "writerIndex b' \<le> writerIndex (outputBuffer c) + length rest" by blast
  define c3 where "c3 = c2\<lparr>outputBuffer := b'\<rparr>"
  have s3: "buffer_rest ctl rest ch c = (if \<not> isWriting ch then conn_do ctl EnableWriting c3 else Inr c3)"
    by (simp add: buffer_rest_def c2_def [symmetric] Let_def c3_def f2(3) b'(1))
  have reg3: "conn_reg interest ch c3" using reg f2 by (simp add: conn_reg_def c3_def same_conn_def)
  have f3: "content (outputBuffer c3) \<noteq> []" "buf_ok (outputBuffer c3)" "buf_ok (inputBuffer c3)"
    "out_stream c3 = out_stream c @ rest" "same_conn c c3"
    "writerIndex (outputBuffer c3) \<le> writerIndex (outputBuffer c) + length rest"
    using b' b ne f2 by (simp_all add: c3_def out_stream_def same_conn_def)
  show thesis
  proof (cases "isWriting ch")
    case True
    then show thesis using that [of c3] s3 reg3 f3 by (auto simp: conn_live_def)
  next
    case False
    obtain p' ch' where e: "conn_do ctl EnableWriting c3 = Inr (c3\<lparr>cpoller := p'\<rparr>)"
      "conn_reg interest ch' (c3\<lparr>cpoller := p'\<rparr>)" "isWriting ch'"
      by (rule conn_do_writing [OF sp reg3, of EnableWriting]) auto
    then have "conn_live interest (c3\<lparr>cpoller := p'\<rparr>)" using f3 by (auto simp: conn_live_def)
    then show thesis using that [of "c3\<lparr>cpoller := p'\<rparr>"] s3 e False f3 by (simp add: out_stream_def same_conn_def)
  qed
qed

lemma sendInLoop_ok:
  assumes sp: "epoll_spec ctl interest" and live: "conn_live interest c" and st: "cstate c \<noteq> kDisconnected"
    and r: "\<And>n. reply = SysOk n \<Longrightarrow> n \<le> length data" "\<not> fatal_reply reply"
    and fits: "writerIndex (outputBuffer c) + length data \<le> ptrdiff_max"
  obtains c' where "sendInLoop ctl reply data c = Inr c'" "conn_live interest c'" "out_stream c' = out_stream c @ data"
    "same_conn c c'" "writerIndex (outputBuffer c') \<le> writerIndex (outputBuffer c) + length data"
proof -
  from live obtain ch where b: "buf_ok (inputBuffer c)" "buf_ok (outputBuffer c)" and reg: "conn_reg interest ch c"
    and w: "isWriting ch \<longleftrightarrow> content (outputBuffer c) \<noteq> []" unfolding conn_live_def by blast
  obtain c1 nw where d: "direct_write reply data ch c = (c1, nw, length data - nw, False)" "nw \<le> length data"
    "nw \<noteq> 0 \<Longrightarrow> content (outputBuffer c) = []" "sent c1 = sent c @ take nw data"
    "same_conn c c1" "cpoller c1 = cpoller c" "outputBuffer c1 = outputBuffer c"
    by (rule direct_write_ok [OF r w b(2)]) blast+
  have reg1: "conn_reg interest ch c1" using d reg by (simp add: conn_reg_def same_conn_def)
  have s: "sendInLoop ctl reply data c = (if 0 < length data - nw then buffer_rest ctl (drop nw data) ch c1 else Inr c1)"
    using st by (simp add: sendInLoop_def conn_channel_reg [OF reg] d(1))
  have o1: "out_stream c1 = sent c @ take nw data @ content (outputBuffer c)" using d by (simp add: out_stream_def)
  have str: "sent c @ take nw data @ content (outputBuffer c) = out_stream c @ take nw data"
    using d(3) by (cases "nw = 0") (simp_all add: out_stream_def)
  show thesis
  proof (cases "0 < length data - nw")
    case False
    then have "take nw data = data" by simp
    then have "out_stream c1 = out_stream c @ data" using o1 str by simp
    moreover have "conn_live interest c1"
      unfolding conn_live_def using b reg1 w d by (auto simp: same_conn_def)
    ultimately show thesis using that [of c1] s False d by simp
  next
    case True
    obtain c' where "buffer_rest ctl (drop nw data) ch c1 = Inr c'" "conn_live interest c'"
      "out_stream c' = out_stream c1 @ drop nw data" "same_conn c1 c'"
      "writerIndex (outputBuffer c') \<le> writerIndex (outputBuffer c1) + length (drop nw data)"
      by (rule buffer_rest_ok [OF sp reg1, of "drop nw data"])
        (use True w d b fits in \<open>auto simp: same_conn_def\<close>)
    then show thesis using that [of c'] s True d o1 str by (simp add: same_conn_def)
  qed
qed

text \<open>
  The half-close is sent exactly when the application has shut the connection down and everything it
  sent before is with the kernel.
\<close>

definition conn_ok :: "('k \<Rightarrow> int \<Rightarrow> (mask \<times> chan_id) option) \<Rightarrow> 'k TcpConnection \<Rightarrow> bool" where
  "conn_ok interest c \<longleftrightarrow> conn_live interest c \<and> cstate c \<in> {kConnected, kDisconnecting} \<and>
     count_list (effects c) ShutdownWrite =
       (if cstate c = kDisconnecting \<and> content (outputBuffer c) = [] then 1 else 0)"

lemma conn_liveE:
  assumes "conn_live interest c"
  obtains ch where "conn_reg interest ch c" "isWriting ch \<longleftrightarrow> content (outputBuffer c) \<noteq> []"
    "buf_ok (inputBuffer c)" "buf_ok (outputBuffer c)" "conn_channel c = Inr ch"
  using assms conn_channel_reg unfolding conn_live_def by blast

lemma conn_live_frame:
  assumes "conn_live interest c" "cpoller c' = cpoller c" "cchan c' = cchan c" "inputBuffer c' = inputBuffer c"
    "outputBuffer c' = outputBuffer c"
  shows "conn_live interest c'"
  using assms conn_reg_frame unfolding conn_live_def by metis

lemma send_ok:
  assumes sp: "epoll_spec ctl interest" and ok: "conn_ok interest c"
    and r: "\<And>n. reply = SysOk n \<Longrightarrow> n \<le> length data" "\<not> fatal_reply reply"
    and fits: "writerIndex (outputBuffer c) + length data \<le> ptrdiff_max"
  obtains c' where "send ctl reply data c = Inr c'" "conn_ok interest c'" "cstate c' = cstate c"
    "out_stream c' = out_stream c @ (if cstate c = kConnected then data else [])"
    "writerIndex (outputBuffer c') \<le> writerIndex (outputBuffer c) + length data" "inputBuffer c' = inputBuffer c"
proof (cases "cstate c = kConnected")
  case False
  then show thesis using that [of c] ok by (simp add: send_def)
next
  case True
  obtain c' where "sendInLoop ctl reply data c = Inr c'" "conn_live interest c'" "out_stream c' = out_stream c @ data"
    "same_conn c c'" "writerIndex (outputBuffer c') \<le> writerIndex (outputBuffer c) + length data"
    by (rule sendInLoop_ok [OF sp _ _ r fits]) (use ok True in \<open>auto simp: conn_ok_def\<close>)
  then show thesis using that [of c'] ok True by (simp add: send_def conn_ok_def same_conn_def)
qed

lemma shutdown_ok:
  assumes ok: "conn_ok interest c"
  obtains c' where "TcpConnection_shutdown c = Inr c'" "conn_ok interest c'" "cstate c' = kDisconnecting"
    "out_stream c' = out_stream c" "outputBuffer c' = outputBuffer c"
proof (cases "cstate c = kConnected")
  case False
  then show thesis using that [of c] ok by (simp add: TcpConnection_shutdown_def conn_ok_def)
next
  case True
  let ?c = "setState kDisconnecting c"
  have live: "conn_live interest ?c" using ok conn_live_frame by (force simp: conn_ok_def)
  then obtain ch where ch: "conn_channel ?c = Inr ch" "isWriting ch \<longleftrightarrow> content (outputBuffer c) \<noteq> []"
    by (rule conn_liveE) simp
  have "conn_live interest (effect ShutdownWrite ?c)" using live by (rule conn_live_frame) simp_all
  then show thesis
    using that [of "if isWriting ch then ?c else effect ShutdownWrite ?c"] ch live ok True
    by (cases "isWriting ch") (simp_all add: TcpConnection_shutdown_def shutdownInLoop_def conn_ok_def out_stream_def)
qed

text \<open>Draining: with everything out, the interest in writing goes, and a pending shutdown is done.\<close>

lemma output_drained_ok:
  assumes sp: "epoll_spec ctl interest" and reg: "conn_reg interest ch c" and b: "buf_ok (inputBuffer c)" "buf_ok (outputBuffer c)"
    and e: "content (outputBuffer c) = []" and st: "cstate c \<in> {kConnected, kDisconnecting}"
    and cnt: "count_list (effects c) ShutdownWrite = 0"
  obtains c' where "output_drained ctl c = Inr c'" "conn_ok interest c'" "cstate c' = cstate c" "sent c' = sent c"
    "outputBuffer c' = outputBuffer c"
proof -
  obtain p' ch' where d: "conn_do ctl DisableWriting c = Inr (c\<lparr>cpoller := p'\<rparr>)"
    "conn_reg interest ch' (c\<lparr>cpoller := p'\<rparr>)" "\<not> isWriting ch'"
    by (rule conn_do_writing [OF sp reg, of DisableWriting]) auto
  let ?c1 = "c\<lparr>cpoller := p'\<rparr>"
  let ?c2 = "if hasWriteComplete ?c1 then effect QueueWriteComplete ?c1 else ?c1"
  have live: "conn_live interest ?c1" unfolding conn_live_def using d b e by auto
  then have live2: "conn_live interest ?c2" by (rule conn_live_frame) simp_all
  have ch2: "conn_channel ?c2 = Inr ch'" using conn_channel_reg [OF conn_reg_frame [OF d(2)], of ?c2] by simp
  have live3: "conn_live interest (effect ShutdownWrite ?c2)" using live2 by (rule conn_live_frame) simp_all
  let ?c' = "if cstate c = kDisconnecting then effect ShutdownWrite ?c2 else ?c2"
  have "output_drained ctl c = Inr ?c'"
    using ch2 d by (simp add: output_drained_def shutdownInLoop_def Let_def)
  moreover have "conn_ok interest ?c'" using live2 live3 st cnt e by (auto simp: conn_ok_def)
  ultimately show thesis using that [of ?c'] by simp
qed

text \<open>
  What \<open>write(2)\<close> may answer when \<open>k\<close> bytes are pending: it never takes more than it is offered, and
  what it took is no longer offered. A reply that takes nothing, or an errno, ends the loop.
\<close>

fun accepts :: "nat sysret list \<Rightarrow> nat \<Rightarrow> bool" where
  "accepts [] k \<longleftrightarrow> True"
| "accepts (SysErr e # rs) k \<longleftrightarrow> True"
| "accepts (SysOk n # rs) k \<longleftrightarrow> n \<le> k \<and> (n \<noteq> 0 \<longrightarrow> accepts rs (k - n))"

text \<open>One step of the loop that takes \<open>n\<close> bytes.\<close>

lemma write_step_ok:
  assumes sp: "epoll_spec ctl interest" and ok: "conn_ok interest c" and n: "0 < n" "n \<le> length (content (outputBuffer c))"
  obtains c' where "write_loop ctl (SysOk n # rs) c = write_loop ctl rs c'" "conn_ok interest c'"
    "cstate c' = cstate c" "out_stream c' = out_stream c"
    "length (content (outputBuffer c')) = length (content (outputBuffer c)) - n"
    "writerIndex (outputBuffer c') \<le> writerIndex (outputBuffer c)"
proof -
  from ok have "conn_live interest c" by (simp add: conn_ok_def)
  then obtain ch where reg: "conn_reg interest ch c" and w: "isWriting ch \<longleftrightarrow> content (outputBuffer c) \<noteq> []"
    and b: "buf_ok (inputBuffer c)" "buf_ok (outputBuffer c)" by (rule conn_liveE)
  define c1 where "c1 = c\<lparr>outputBuffer := retrieve (outputBuffer c) n, sent := sent c @ take n (content (outputBuffer c))\<rparr>"
  have b1: "buf_ok (outputBuffer c1)" "content (outputBuffer c1) = drop n (content (outputBuffer c))"
    using retrieve_ok [OF b(2), of n] by (simp_all add: c1_def)
  have f1: "cstate c1 = cstate c" "effects c1 = effects c" "inputBuffer c1 = inputBuffer c" "out_stream c1 = out_stream c"
    "writerIndex (outputBuffer c1) \<le> writerIndex (outputBuffer c)"
    using b1 retrieve_writerIndex [OF b(2)] by (simp_all add: c1_def out_stream_def)
  have reg1: "conn_reg interest ch c1" using reg by (simp add: conn_reg_def c1_def)
  have ne: "content (outputBuffer c) \<noteq> []" using n by auto
  have step: "write_loop ctl (SysOk n # rs) c = (if content (outputBuffer c1) = []
      then (case output_drained ctl c1 of Inl x \<Rightarrow> Some (Inl x) | Inr c2 \<Rightarrow> write_loop ctl rs c2)
      else write_loop ctl rs c1)"
    using n(1) content_empty_iff [OF b1(1)] by (simp add: writeFd_ok [OF b(2)] c1_def Let_def)
  show thesis
  proof (cases "content (outputBuffer c1) = []")
    case False
    have "conn_live interest c1" unfolding conn_live_def using reg1 False w ne b b1(1) f1 by auto
    then have "conn_ok interest c1" using ok False ne f1 by (simp add: conn_ok_def)
    then show thesis using that [of c1] step False f1 b1 by simp
  next
    case True
    obtain c2 where "output_drained ctl c1 = Inr c2" "conn_ok interest c2" "cstate c2 = cstate c1" "sent c2 = sent c1"
      "outputBuffer c2 = outputBuffer c1"
      by (rule output_drained_ok [OF sp reg1 _ b1(1) True]) (use ok ne b f1 in \<open>auto simp: conn_ok_def\<close>)
    then show thesis using that [of c2] step True f1 b1 by (simp add: out_stream_def)
  qed
qed

lemma conn_ok_log: "conn_ok interest c \<Longrightarrow> conn_ok interest (effect LogError c)"
  using conn_live_frame [of interest c "effect LogError c"] by (simp add: conn_ok_def)

lemma write_loop_ok:
  assumes sp: "epoll_spec ctl interest"
  shows "conn_ok interest c \<Longrightarrow> accepts rs (length (content (outputBuffer c))) \<Longrightarrow>
    length (content (outputBuffer c)) < length rs \<Longrightarrow>
    \<exists>c'. write_loop ctl rs c = Some (Inr c') \<and> conn_ok interest c' \<and> cstate c' = cstate c \<and>
      out_stream c' = out_stream c \<and> writerIndex (outputBuffer c') \<le> writerIndex (outputBuffer c)"
proof (induction rs arbitrary: c)
  case Nil
  then show ?case by simp
next
  case (Cons r rs)
  from Cons.prems(1) have b: "buf_ok (outputBuffer c)" by (auto simp: conn_ok_def conn_live_def)
  consider (log) "write_loop ctl (r # rs) c = Some (Inr (effect LogError c))" | (again) "write_loop ctl (r # rs) c = Some (Inr c)"
    | (step) n where "r = SysOk n" "0 < n"
    using writeFd_ok [OF b] by (cases r) (force split: if_splits)+
  then show ?case
  proof cases
    case log
    then show ?thesis using conn_ok_log [OF Cons.prems(1)] by (simp add: out_stream_def)
  next
    case again
    then show ?thesis using Cons.prems(1) by simp
  next
    case step
    then have n: "n \<le> length (content (outputBuffer c))" "accepts rs (length (content (outputBuffer c)) - n)"
      using Cons.prems(2) by auto
    from write_step_ok [OF sp Cons.prems(1) step(2) n(1), of rs] obtain c1 where
      c1: "write_loop ctl (SysOk n # rs) c = write_loop ctl rs c1" "conn_ok interest c1"
      "cstate c1 = cstate c" "out_stream c1 = out_stream c"
      "length (content (outputBuffer c1)) = length (content (outputBuffer c)) - n"
      "writerIndex (outputBuffer c1) \<le> writerIndex (outputBuffer c)" by blast
    have "length (content (outputBuffer c1)) < length rs" using c1(5) Cons.prems(3) step(2) n(1) by simp
    with Cons.IH [OF c1(2)] n(2) c1 step(1) show ?thesis by fastforce
  qed
qed

section \<open>Runs\<close>

text \<open>
  The events of a connection that concern its output, in any order: the application sends or shuts
  down, or the poller reports the socket writable.
\<close>

datatype conn_op = OpSend "nat sysret" "char list" | OpShutdown | OpWritable "nat sysret list"

fun conn_step :: "'k epoll_ctl \<Rightarrow> conn_op \<Rightarrow> 'k TcpConnection \<Rightarrow> 'k TcpConnection result option" where
  "conn_step ctl (OpSend r data) c = Some (send ctl r data c)"
| "conn_step ctl OpShutdown c = Some (TcpConnection_shutdown c)"
| "conn_step ctl (OpWritable rs) c = handleWrite ctl rs c"

fun conn_run :: "'k epoll_ctl \<Rightarrow> conn_op list \<Rightarrow> 'k TcpConnection \<Rightarrow> 'k TcpConnection result option" where
  "conn_run ctl [] c = Some (Inr c)"
| "conn_run ctl (oper # ops) c =
     (case conn_step ctl oper c of
        None \<Rightarrow> None
      | Some (Inl x) \<Rightarrow> Some (Inl x)
      | Some (Inr c1) \<Rightarrow> conn_run ctl ops c1)"

text \<open>What the kernel may answer: no more than it was offered, and the peer has not reset the connection.\<close>

fun op_fair :: "conn_op \<Rightarrow> 'k TcpConnection \<Rightarrow> bool" where
  "op_fair (OpSend r data) c \<longleftrightarrow> \<not> fatal_reply r \<and> (case r of SysOk n \<Rightarrow> n \<le> length data | SysErr e \<Rightarrow> True)"
| "op_fair OpShutdown c \<longleftrightarrow> True"
| "op_fair (OpWritable rs) c \<longleftrightarrow> accepts rs (readableBytes (outputBuffer c)) \<and> readableBytes (outputBuffer c) < length rs"

fun run_fair :: "'k epoll_ctl \<Rightarrow> conn_op list \<Rightarrow> 'k TcpConnection \<Rightarrow> bool" where
  "run_fair ctl [] c \<longleftrightarrow> True"
| "run_fair ctl (oper # ops) c \<longleftrightarrow> op_fair oper c \<and>
     (case conn_step ctl oper c of Some (Inr c1) \<Rightarrow> run_fair ctl ops c1 | _ \<Rightarrow> True)"

text \<open>What the application has sent before it shut the connection down.\<close>

fun accepted :: "bool \<Rightarrow> conn_op list \<Rightarrow> char list" where
  "accepted open [] = []"
| "accepted open (OpSend r data # ops) = (if open then data else []) @ accepted open ops"
| "accepted open (OpShutdown # ops) = accepted False ops"
| "accepted open (OpWritable rs # ops) = accepted open ops"

fun sends :: "conn_op list \<Rightarrow> nat" where
  "sends [] = 0"
| "sends (OpSend r data # ops) = length data + sends ops"
| "sends (_ # ops) = sends ops"

lemma handleWrite_ok:
  assumes sp: "epoll_spec ctl interest" and ok: "conn_ok interest c"
    and r: "accepts rs (readableBytes (outputBuffer c))" "readableBytes (outputBuffer c) < length rs"
  obtains c' where "handleWrite ctl rs c = Some (Inr c')" "conn_ok interest c'" "cstate c' = cstate c"
    "out_stream c' = out_stream c" "writerIndex (outputBuffer c') \<le> writerIndex (outputBuffer c)"
proof -
  from ok have "conn_live interest c" by (simp add: conn_ok_def)
  then obtain ch where ch: "conn_channel c = Inr ch" and b: "buf_ok (outputBuffer c)" by (rule conn_liveE)
  show thesis
  proof (cases "isWriting ch")
    case False
    then show thesis using that [of "effect LogError c"] ch conn_ok_log [OF ok] by (simp add: handleWrite_def out_stream_def)
  next
    case True
    then show thesis using write_loop_ok [OF sp ok] r ch that by (force simp: handleWrite_def length_content [OF b])
  qed
qed

lemma conn_step_ok:
  assumes sp: "epoll_spec ctl interest" and ok: "conn_ok interest c" and fair: "op_fair oper c"
    and fits: "writerIndex (outputBuffer c) + sends (oper # ops) \<le> ptrdiff_max"
  obtains c' where "conn_step ctl oper c = Some (Inr c')" "conn_ok interest c'"
    "out_stream c' @ accepted (cstate c' = kConnected) ops =
       out_stream c @ accepted (cstate c = kConnected) (oper # ops)"
    "writerIndex (outputBuffer c') + sends ops \<le> ptrdiff_max"
proof (cases oper)
  case (OpSend r data)
  obtain c' where "send ctl r data c = Inr c'" "conn_ok interest c'" "cstate c' = cstate c"
    "out_stream c' = out_stream c @ (if cstate c = kConnected then data else [])"
    "writerIndex (outputBuffer c') \<le> writerIndex (outputBuffer c) + length data"
    by (rule send_ok [OF sp ok, of r data]) (use fair fits OpSend in auto)
  then show thesis using that [of c'] fits OpSend by simp
next
  case OpShutdown
  obtain c' where "TcpConnection_shutdown c = Inr c'" "conn_ok interest c'" "cstate c' = kDisconnecting"
    "out_stream c' = out_stream c" "outputBuffer c' = outputBuffer c" by (rule shutdown_ok [OF ok])
  then show thesis using that [of c'] fits OpShutdown by simp
next
  case (OpWritable rs)
  obtain c' where "handleWrite ctl rs c = Some (Inr c')" "conn_ok interest c'" "cstate c' = cstate c"
    "out_stream c' = out_stream c" "writerIndex (outputBuffer c') \<le> writerIndex (outputBuffer c)"
    by (rule handleWrite_ok [OF sp ok, of rs]) (use fair OpWritable in auto)
  then show thesis using that [of c'] fits OpWritable by simp
qed

lemma conn_run_ok:
  assumes sp: "epoll_spec ctl interest"
  shows "conn_ok interest c \<Longrightarrow> run_fair ctl ops c \<Longrightarrow> writerIndex (outputBuffer c) + sends ops \<le> ptrdiff_max \<Longrightarrow>
    \<exists>c'. conn_run ctl ops c = Some (Inr c') \<and> conn_ok interest c' \<and>
      out_stream c' = out_stream c @ accepted (cstate c = kConnected) ops"
proof (induction ops arbitrary: c)
  case Nil
  then show ?case by simp
next
  case (Cons oper ops)
  from Cons.prems(2) have fair: "op_fair oper c" by simp
  obtain c1 where c1: "conn_step ctl oper c = Some (Inr c1)" "conn_ok interest c1"
    "out_stream c1 @ accepted (cstate c1 = kConnected) ops = out_stream c @ accepted (cstate c = kConnected) (oper # ops)"
    "writerIndex (outputBuffer c1) + sends ops \<le> ptrdiff_max"
    by (rule conn_step_ok [OF sp Cons.prems(1) fair Cons.prems(3)])
  then show ?case using Cons.IH [OF c1(2)] Cons.prems(2) by simp
qed

section \<open>A new connection\<close>

text \<open>\<open>connectEstablished\<close> on a fresh descriptor gives a connection that satisfies the invariant.\<close>

lemma established_mask:
  fixes ev :: mask
  shows "(EPOLLET OR kReadEvent) AND kWriteEvent = 0" "(EPOLLET OR kReadEvent) AND kReadEvent \<noteq> 0"
    "EPOLLET OR kReadEvent \<noteq> 0"
  by (simp_all add: event_defs epoll_defs)

lemma connectEstablished_ok:
  assumes sp: "epoll_spec ctl interest" and ok: "poller_ok interest p" and fresh: "chans p cid = None" "channels p fd = None"
    and new: "TcpConnection_new p cid fd = Inr c"
  shows "\<exists>c' ch. connectEstablished ctl (setWriteCompleteCallback wc c) = Inr c' \<and> conn_ok interest c' \<and> cstate c' = kConnected \<and> out_stream c' = [] \<and>
    content (inputBuffer c') = [] \<and> writerIndex (outputBuffer c') = CheapPrepend \<and> effects c' = [ConnectionCallback kConnected] \<and>
    interest (kernel (cpoller c')) fd = Some (EPOLLET OR kReadEvent, cid)"
proof -
  have "CheapPrepend + InitialSize \<le> ptrdiff_max" by (simp add: CheapPrepend_def InitialSize_def ptrdiff_max_def)
  from Buffer_new_ok [OF this] obtain b where b: "Buffer_new InitialSize = Inr b" "buf_ok b" "content b = []" by auto
  then have bw: "writerIndex b = CheapPrepend" by (auto simp: Buffer_new_def bind_r_Inr_iff)
  define ch0 where "ch0 = Channel_setCallback ErrorCallback (Channel_setCallback CloseCallback
      (Channel_setCallback WriteCallback (Channel_setCallback ReadCallback (Channel_new fd))))"
  have ch0: "cfd ch0 = fd" "index ch0 = kNew" "events ch0 = 0"
    by (simp_all add: ch0_def Channel_setCallback_def Channel_new_def)
  define ch1 where "ch1 = enableET (Channel_tie ch0)"
  have ch1: "cfd ch1 = fd" "index ch1 = kNew" "events ch1 = EPOLLET"
    using ch0 by (simp_all add: ch1_def enableET_def Channel_tie_def)
  define p1 where "p1 = p\<lparr>chans := (chans p)(cid \<mapsto> ch1)\<rparr>"
  have ok1: "poller_ok interest p1"
    using ok fresh ch1 unfolding poller_ok_def p1_def by (auto split: if_splits)
  let ?ch2 = "ch1\<lparr>events := EPOLLET OR kReadEvent\<rparr>"
  let ?p2 = "updateChannel ctl cid ?ch2 p1"
  have u: "poller_ok interest ?p2" "chans ?p2 = (chans p1)(cid \<mapsto> ?ch2\<lparr>index := kAdded\<rparr>)"
    "interest (kernel ?p2) = (interest (kernel p1))(fd \<mapsto> (EPOLLET OR kReadEvent, cid))"
    using updateChannel_ok [OF sp ok1, of cid ch1 ?ch2] ch1 fresh by (simp_all add: p1_def)
  have c: "setWriteCompleteCallback wc c = \<lparr>cstate = kConnecting, reading = True, cchan = cid, cpoller = p\<lparr>chans := (chans p)(cid \<mapsto> ch0)\<rparr>,
      inputBuffer = b, outputBuffer = b, highWaterMark = 64 * 1024 * 1024, hasWriteComplete = wc, hasHighWaterMark = False,
      sent = [], effects = []\<rparr>"
    using new b by (auto simp: TcpConnection_new_def ch0_def setWriteCompleteCallback_def)
  let ?c3 = "(setWriteCompleteCallback wc c)\<lparr>cstate := kConnected, cpoller := ?p2\<rparr>"
  let ?c' = "effect (ConnectionCallback kConnected) ?c3"
  have ch1': "new_events EnableReading (events ch1) = EPOLLET OR kReadEvent" using ch1 by simp
  have "connectEstablished ctl (setWriteCompleteCallback wc c) = Inr ?c'"
    by (simp add: connectEstablished_def c setState_def conn_channel_def conn_do_def chan_do_def Let_def
        ch1_def [symmetric] p1_def [symmetric] ch1' del: new_events.simps)
  moreover have reg: "conn_reg interest (?ch2\<lparr>index := kAdded\<rparr>) ?c'"
    using u ch1 by (simp add: conn_reg_def c isReading_def kReadEvent_nz)
  have "conn_ok interest ?c'"
    unfolding conn_ok_def conn_live_def using reg b c by (auto simp: isWriting_def established_mask)
  ultimately show ?thesis using u b bw by (intro exI [of _ ?c']) (simp add: c out_stream_def)
qed

section \<open>The input stream\<close>

lemma Buffer_append_size:
  assumes ok: "buf_ok b" and fits: "writerIndex b + length data \<le> ptrdiff_max" and e: "Buffer_append b data = Inr b'"
  shows "length (buffer b') \<le> length (buffer b) + length data"
proof -
  from e obtain b1 v where b1: "ensureWritableBytes b (length data) = Inr b1"
    and v: "vec_write (buffer b1) (writerIndex b1) data = Inr v" and b': "buffer b' = v"
    by (auto simp: Buffer_append_def bind_r_Inr_iff)
  have "length v = length (buffer b1)" using v by (auto simp: vec_write_def split: if_splits)
  moreover have "length (buffer b1) \<le> length (buffer b) + length data"
  proof (cases "writableBytes b < length data")
    case True
    then have "makeSpace b (length data) = Inr b1" using b1 by (simp add: ensureWritableBytes_def)
    from makeSpace_size [OF ok fits True this] show ?thesis using buf_okD [OF ok] by (simp split: if_splits)
  next
    case False
    then show ?thesis using b1 by (simp add: ensureWritableBytes_def)
  qed
  ultimately show ?thesis using b' by simp
qed

lemma readFd_size:
  assumes ok: "buf_ok b" and fits: "length (buffer b) + length bytes \<le> ptrdiff_max"
    and e: "readFd b (SysOk bytes) = Inr (b', n, er)"
  shows "length (buffer b') \<le> length (buffer b) + length bytes"
proof -
  define w where "w = writableBytes b"
  have w: "w = length (buffer b) - writerIndex b" using writableBytes_eq [OF ok] by (simp add: w_def)
  from e obtain v where v: "vec_write (buffer b) (writerIndex b) (take w bytes) = Inr v"
    and r: "(if length bytes \<le> w
          then Inr (b\<lparr>buffer := v, writerIndex := sz_add (writerIndex b) (length bytes)\<rparr>, int (length bytes), None)
          else bind_r (Buffer_append (b\<lparr>buffer := v, writerIndex := length v\<rparr>) (drop w bytes))
                 (\<lambda>b2. Inr (b2, int (length bytes), None))) = Inr (b', n, er)"
    unfolding readFd_def w_def [symmetric] by (auto simp: Let_def bind_r_Inr_iff cong: if_cong)
  have lv: "length v = length (buffer b)" using v by (auto simp: vec_write_def split: if_splits)
  show ?thesis
  proof (cases "length bytes \<le> w")
    case True
    then show ?thesis using r lv by auto
  next
    case False
    let ?b1 = "b\<lparr>buffer := v, writerIndex := length v\<rparr>"
    have "buf_ok ?b1" using buf_okD [OF ok] lv by (simp add: buf_ok_def)
    moreover have "writerIndex ?b1 + length (drop w bytes) \<le> ptrdiff_max" using fits lv by simp
    moreover have "Buffer_append ?b1 (drop w bytes) = Inr b'" using r False by (auto simp: bind_r_Inr_iff)
    ultimately show ?thesis using Buffer_append_size [of ?b1 "drop w bytes" b'] lv by simp
  qed
qed

text \<open>
  What a message callback does with the bytes that are pending: \<open>keep\<close> is what it leaves in the
  input buffer, \<open>respond\<close> what it sends. \<open>session\<close> is what a burst of reads then amounts to.
\<close>

fun session :: "(char list \<Rightarrow> char list) \<Rightarrow> (char list \<Rightarrow> char list) \<Rightarrow> char list \<Rightarrow> char list list \<Rightarrow> char list \<times> char list" where
  "session keep respond pending [] = (pending, [])"
| "session keep respond pending (x # xs) =
     (case session keep respond (keep (pending @ x)) xs of
        (pending', res) \<Rightarrow> (pending', respond (pending @ x) @ res))"

text \<open>
  The contract of a message callback. \<open>inv n\<close> is the caller's invariant with room for \<open>n\<close> more calls; it
  does not depend on the input buffer beyond its being well formed.
\<close>

locale message_callback =
  fixes mcb :: "'k TcpConnection \<Rightarrow> 'k TcpConnection result"
    and inv :: "nat \<Rightarrow> 'k TcpConnection \<Rightarrow> bool"
    and keep :: "char list \<Rightarrow> char list"
    and respond :: "char list \<Rightarrow> char list"
  assumes inv_input: "inv n c \<Longrightarrow> buf_ok (inputBuffer c)"
    and inv_frame: "inv n c \<Longrightarrow> buf_ok b \<Longrightarrow> inv n (c\<lparr>inputBuffer := b\<rparr>)"
    and mcb_ok: "inv (Suc n) c \<Longrightarrow> \<exists>c'. mcb c = Inr c' \<and> inv n c' \<and>
      content (inputBuffer c') = keep (content (inputBuffer c)) \<and>
      out_stream c' = out_stream c @ respond (content (inputBuffer c)) \<and>
      length (buffer (inputBuffer c')) \<le> length (buffer (inputBuffer c))"
begin

text \<open>One successful read, then the callback.\<close>

lemma read_step:
  assumes inv: "inv (Suc n) c" and x: "x \<noteq> []" "length x \<le> extrabuf_size"
    and fits: "length (buffer (inputBuffer c)) + length x + extrabuf_size \<le> ptrdiff_max"
  obtains c' where "handleRead ctl mcb (SysOk x # rs) c = handleRead ctl mcb rs c'" "inv n c'"
    "content (inputBuffer c') = keep (content (inputBuffer c) @ x)"
    "out_stream c' = out_stream c @ respond (content (inputBuffer c) @ x)"
    "length (buffer (inputBuffer c')) \<le> length (buffer (inputBuffer c)) + length x"
proof -
  note b = inv_input [OF inv]
  have room: "length x \<le> readFd_room (inputBuffer c)" using x(2) by (simp add: readFd_room_def)
  obtain b1 where r: "readFd (inputBuffer c) (SysOk x) = Inr (b1, int (length x), None)" "buf_ok b1"
    "content b1 = content (inputBuffer c) @ x"
    by (rule readFd_ok [OF b room]) (use fits in simp)
  have l: "length (buffer b1) \<le> length (buffer (inputBuffer c)) + length x"
    by (rule readFd_size [OF b _ r(1)]) (use fits in simp)
  from mcb_ok [OF inv_frame [OF inv r(2)]] r(3) obtain c' where c':
    "mcb (c\<lparr>inputBuffer := b1\<rparr>) = Inr c'" "inv n c'" "content (inputBuffer c') = keep (content (inputBuffer c) @ x)"
    "out_stream c' = out_stream c @ respond (content (inputBuffer c) @ x)"
    "length (buffer (inputBuffer c')) \<le> length (buffer b1)" by (auto simp: out_stream_def)
  moreover have "handleRead ctl mcb (SysOk x # rs) c = handleRead ctl mcb rs c'"
    using c'(1) r(1) x(1) by (simp add: Let_def)
  ultimately show thesis using that [of c'] l by simp
qed

text \<open>A burst of reads: the loop reaches the reply after it with the state \<open>session\<close> describes.\<close>

lemma read_burst:
  assumes "inv (length xs) c" "\<forall>x \<in> set xs. x \<noteq> [] \<and> length x \<le> extrabuf_size"
    "length (buffer (inputBuffer c)) + length (concat xs) + extrabuf_size \<le> ptrdiff_max"
  shows "\<exists>c'. handleRead ctl mcb (map SysOk xs @ rs) c = handleRead ctl mcb rs c' \<and> inv 0 c' \<and>
    (content (inputBuffer c'), out_stream c') =
      (case session keep respond (content (inputBuffer c)) xs of (pending, res) \<Rightarrow> (pending, out_stream c @ res))"
  using assms
proof (induction xs arbitrary: c)
  case Nil
  then show ?case by auto
next
  case (Cons x xs)
  have fits: "length (buffer (inputBuffer c)) + length x + extrabuf_size \<le> ptrdiff_max" using Cons.prems(3) by simp
  obtain c1 where c1: "handleRead ctl mcb (SysOk x # map SysOk xs @ rs) c = handleRead ctl mcb (map SysOk xs @ rs) c1"
    "inv (length xs) c1" "content (inputBuffer c1) = keep (content (inputBuffer c) @ x)"
    "out_stream c1 = out_stream c @ respond (content (inputBuffer c) @ x)"
    "length (buffer (inputBuffer c1)) \<le> length (buffer (inputBuffer c)) + length x"
    by (rule read_step [of "length xs" c x ctl "map SysOk xs @ rs"]) (use Cons.prems fits in auto)
  from Cons.IH [OF c1(2)] Cons.prems(2,3) c1(5) obtain c' where
    "handleRead ctl mcb (map SysOk xs @ rs) c1 = handleRead ctl mcb rs c'" "inv 0 c'"
    "(content (inputBuffer c'), out_stream c') =
      (case session keep respond (content (inputBuffer c1)) xs of (pending, res) \<Rightarrow> (pending, out_stream c1 @ res))" by auto
  then show ?case using c1 by (intro exI [of _ c']) (auto split: prod.splits)
qed

end

section \<open>Closing\<close>

text \<open>
  Switching all interest off deregisters an added channel. A channel that is deregistered already is
  registered again, with the empty mask.
\<close>

lemma conn_do_disableAll:
  assumes sp: "epoll_spec ctl interest" and ok: "poller_ok interest (cpoller c)"
    and ch: "chans (cpoller c) (cchan c) = Some ch" "index ch = (if again then kDeleted else kAdded)"
  obtains p' ch' where "conn_do ctl DisableAll c = Inr (c\<lparr>cpoller := p'\<rparr>)" "poller_ok interest p'"
    "chans p' (cchan c) = Some ch'" "index ch' = (if again then kAdded else kDeleted)" "cfd ch' = cfd ch"
    "interest (kernel p') = (interest (kernel (cpoller c)))(cfd ch := if again then Some (0, cchan c) else None)"
proof -
  let ?ch1 = "ch\<lparr>events := kNoneEvent\<rparr>"
  let ?p' = "updateChannel ctl (cchan c) ?ch1 (cpoller c)"
  have "conn_do ctl DisableAll c = Inr (c\<lparr>cpoller := ?p'\<rparr>)" using ch by (simp add: conn_do_def chan_do_def Let_def)
  moreover have "poller_ok interest ?p'"
    "chans ?p' (cchan c) = Some (?ch1\<lparr>index := if again then kAdded else kDeleted\<rparr>)"
    "interest (kernel ?p') = (interest (kernel (cpoller c)))(cfd ch := if again then Some (0, cchan c) else None)"
    using updateChannel_ok [OF sp ok ch(1), of ?ch1] ch(2)
    by (auto simp: isNoneEvent_def kNoneEvent_def split: if_splits)
  ultimately show thesis using that by simp
qed

lemma handleClose_ok:
  assumes sp: "epoll_spec ctl interest" and ok: "poller_ok interest (cpoller c)"
    and ch: "chans (cpoller c) (cchan c) = Some ch" "index ch = (if again then kDeleted else kAdded)"
  obtains c' ch' where "handleClose ctl c = Inr c'" "poller_ok interest (cpoller c')" "cchan c' = cchan c" "cstate c' = kDisconnected"
    "effects c' = effects c @ [ConnectionCallback kDisconnected, CloseCallbackCall]"
    "chans (cpoller c') (cchan c) = Some ch'" "index ch' = (if again then kAdded else kDeleted)" "cfd ch' = cfd ch"
    "interest (kernel (cpoller c')) = (interest (kernel (cpoller c)))(cfd ch := if again then Some (0, cchan c) else None)"
proof -
  obtain p' ch' where d: "conn_do ctl DisableAll (setState kDisconnected c) = Inr ((setState kDisconnected c)\<lparr>cpoller := p'\<rparr>)"
    "poller_ok interest p'" "chans p' (cchan c) = Some ch'" "index ch' = (if again then kAdded else kDeleted)"
    "cfd ch' = cfd ch" "interest (kernel p') = (interest (kernel (cpoller c)))(cfd ch := if again then Some (0, cchan c) else None)"
    by (rule conn_do_disableAll [OF sp, of "setState kDisconnected c" ch again]) (use ok ch in auto)
  let ?c1 = "(setState kDisconnected c)\<lparr>cpoller := p'\<rparr>"
  have e: "effects (effect CloseCallbackCall (effect (ConnectionCallback (cstate ?c1)) ?c1)) =
      effects c @ [ConnectionCallback kDisconnected, CloseCallbackCall]"
    by (simp add: setState_def)
  show thesis
    by (rule that [of "effect CloseCallbackCall (effect (ConnectionCallback (cstate ?c1)) ?c1)" ch'])
      (use d e in \<open>simp_all add: handleClose_def setState_def\<close>)
qed

lemma connectDestroyed_closed:
  assumes sp: "epoll_spec ctl interest" and ok: "poller_ok interest (cpoller c)" and st: "cstate c = kDisconnected"
    and ch: "chans (cpoller c) (cchan c) = Some ch" "index ch \<noteq> kNew"
  obtains c' where "connectDestroyed ctl c = Inr c'" "poller_ok interest (cpoller c')" "effects c' = effects c"
    "interest (kernel (cpoller c')) = (interest (kernel (cpoller c)))(cfd ch := None)"
    "channels (cpoller c') (cfd ch) = None"
proof -
  let ?p' = "removeChannel ctl (cchan c) ch (cpoller c)"
  have "connectDestroyed ctl c = Inr (c\<lparr>cpoller := ?p'\<rparr>)"
    using ch(1) st by (simp add: connectDestroyed_def conn_do_def chan_do_def Let_def)
  moreover have "channels ?p' (cfd ch) = None"
    by (simp add: removeChannel_def EPollPoller_update_def Let_def split: prod.splits)
  ultimately show thesis using that removeChannel_ok [OF sp ok ch(1)] ch(2) by auto
qed

section \<open>Properties\<close>

text \<open>C1: The output of a connection is a stream: for every sequence of sends, a shutdown and reports that
  the socket is writable, on a connection that has just been established, no call fails, every loop
  ends, and the bytes the kernel has, followed by the bytes still buffered, are the bytes the
  application sent before it shut down, in order. The half-close is sent exactly once, exactly when the
  connection has been shut down and all those bytes are with the kernel.\<close>

theorem connection_output_stream:
  assumes sp: "epoll_spec ctl interest" and p: "poller_ok interest p" "chans p cid = None" "channels p fd = None"
    and c: "TcpConnection_new p cid fd = Inr c" "connectEstablished ctl (setWriteCompleteCallback wc c) = Inr c1"
    and run: "run_fair ctl ops c1" "CheapPrepend + sends ops \<le> ptrdiff_max"
  shows "\<exists>c'. conn_run ctl ops c1 = Some (Inr c') \<and> sent c' @ content (outputBuffer c') = accepted True ops \<and>
    count_list (effects c') ShutdownWrite = (if cstate c' = kDisconnecting \<and> content (outputBuffer c') = [] then 1 else 0)"
proof -
  from connectEstablished_ok [OF sp p c(1), of wc] c(2) have e: "conn_ok interest c1" "cstate c1 = kConnected" "out_stream c1 = []"
    "writerIndex (outputBuffer c1) = CheapPrepend" by auto
  from conn_run_ok [OF sp e(1) run(1)] run(2) e show ?thesis by (auto simp: out_stream_def conn_ok_def)
qed

text \<open>C17: Output is never forgotten: after any such run the kernel watches the socket for writing exactly
  when bytes are buffered, it watches it for reading, and no call of \<open>epoll_ctl\<close> has failed.\<close>

theorem connection_watched_while_output:
  assumes sp: "epoll_spec ctl interest" and p: "poller_ok interest p" "chans p cid = None" "channels p fd = None"
    and c: "TcpConnection_new p cid fd = Inr c" "connectEstablished ctl (setWriteCompleteCallback wc c) = Inr c1"
    and run: "run_fair ctl ops c1" "CheapPrepend + sends ops \<le> ptrdiff_max" "conn_run ctl ops c1 = Some (Inr c')"
  shows "ctl_errors (cpoller c') = [] \<and> (\<exists>ch. chans (cpoller c') (cchan c') = Some ch \<and> isReading ch \<and>
    (isWriting ch \<longleftrightarrow> content (outputBuffer c') \<noteq> []) \<and> interest (kernel (cpoller c')) (cfd ch) = Some (events ch, cchan c'))"
proof -
  from connectEstablished_ok [OF sp p c(1), of wc] c(2) have e: "conn_ok interest c1" "writerIndex (outputBuffer c1) = CheapPrepend" by auto
  from conn_run_ok [OF sp e(1) run(1)] run(2,3) e(2) have "conn_live interest c'" by (auto simp: conn_ok_def)
  then show ?thesis by (auto simp: conn_live_def conn_reg_def poller_ok_def)
qed

text \<open>C25: A connection that its peer closes is torn down completely: \<open>handleClose\<close> reports the disconnection
  and asks the server to remove the connection, once each, and after \<open>connectDestroyed\<close> neither the
  kernel nor the poller's table knows the descriptor.\<close>

theorem connection_teardown:
  assumes sp: "epoll_spec ctl interest" and ok: "conn_ok interest c"
    and ch: "chans (cpoller c) (cchan c) = Some ch"
  shows "\<exists>c1 c2. handleClose ctl c = Inr c1 \<and> connectDestroyed ctl c1 = Inr c2 \<and>
    effects c2 = effects c @ [ConnectionCallback kDisconnected, CloseCallbackCall] \<and> poller_ok interest (cpoller c2) \<and>
    interest (kernel (cpoller c2)) = (interest (kernel (cpoller c)))(cfd ch := None) \<and> channels (cpoller c2) (cfd ch) = None"
proof -
  from ok ch have r: "poller_ok interest (cpoller c)" "index ch = kAdded" by (auto simp: conn_ok_def conn_live_def conn_reg_def)
  obtain c1 ch1 where c1: "handleClose ctl c = Inr c1" "poller_ok interest (cpoller c1)" "cchan c1 = cchan c" "cstate c1 = kDisconnected"
    "effects c1 = effects c @ [ConnectionCallback kDisconnected, CloseCallbackCall]"
    "chans (cpoller c1) (cchan c) = Some ch1" "index ch1 = kDeleted" "cfd ch1 = cfd ch"
    "interest (kernel (cpoller c1)) = (interest (kernel (cpoller c)))(cfd ch := None)"
    by (rule handleClose_ok [OF sp r(1) ch, of False]) (use r in auto)
  obtain c2 where "connectDestroyed ctl c1 = Inr c2" "poller_ok interest (cpoller c2)" "effects c2 = effects c1"
    "interest (kernel (cpoller c2)) = (interest (kernel (cpoller c1)))(cfd ch1 := None)"
    "channels (cpoller c2) (cfd ch1) = None"
    by (rule connectDestroyed_closed [OF sp c1(2,4), of ch1]) (use c1 in auto)
  then show ?thesis using c1 by auto
qed

text \<open>C38: A hang-up reported together with an error closes the connection twice: the disconnection and the
  removal are each reported twice, and the second \<open>disableAll\<close> registers the closed channel with the
  kernel again, with the empty mask.\<close>

theorem hup_with_error_closes_twice:
  assumes sp: "epoll_spec ctl interest" and ok: "conn_ok interest c"
    and ch: "chans (cpoller c) (cchan c) = Some ch" "set (callbacks ch) = UNIV" "tied ch" "revents ch = EPOLLHUP OR EPOLLERR"
  shows "\<exists>c'. conn_handleEvent ctl mcb rr wr c = Some (Inr c') \<and>
    effects c' = effects c @ [ConnectionCallback kDisconnected, CloseCallbackCall, LogError,
      ConnectionCallback kDisconnected, CloseCallbackCall] \<and>
    interest (kernel (cpoller c')) (cfd ch) = Some (0, cchan c)"
proof -
  from ok ch have r: "poller_ok interest (cpoller c)" "index ch = kAdded" by (auto simp: conn_ok_def conn_live_def conn_reg_def)
  obtain c1 ch1 where c1: "handleClose ctl c = Inr c1" "poller_ok interest (cpoller c1)" "cchan c1 = cchan c"
    "effects c1 = effects c @ [ConnectionCallback kDisconnected, CloseCallbackCall]"
    "chans (cpoller c1) (cchan c) = Some ch1" "index ch1 = kDeleted" "cfd ch1 = cfd ch"
    by (rule handleClose_ok [OF sp r(1) ch(1), of False]) (use r in auto)
  let ?c1 = "effect LogError c1"
  obtain c2 where c2: "handleClose ctl ?c1 = Inr c2" "effects c2 = effects ?c1 @ [ConnectionCallback kDisconnected, CloseCallbackCall]"
    "interest (kernel (cpoller c2)) = (interest (kernel (cpoller ?c1)))(cfd ch1 \<mapsto> (0, cchan ?c1))"
    by (rule handleClose_ok [OF sp, of ?c1 ch1 True]) (use c1 in auto)
  have "handleEvent True ch = [CloseCallback, ErrorCallback]"
    by (simp add: handleEvent_def handleEventWithGuard_def ch epoll_defs)
  then have "conn_handleEvent ctl mcb rr wr c = Some (Inr c2)"
    using c1 c2 ch by (simp add: conn_handleEvent_def conn_channel_def handleError_def)
  then show ?thesis using c1 c2 by auto
qed

section \<open>Concrete runs\<close>

text \<open>A connection on descriptor 7, on a poller with an empty interest list.\<close>

definition ex_conn :: "(int \<Rightarrow> (mask \<times> chan_id) option) TcpConnection" where
  "ex_conn = \<lparr>cstate = kConnecting, reading = True, cchan = 3,
     cpoller = (EPollPoller_new Map.empty)\<lparr>chans := [3 \<mapsto> Channel_setCallback ErrorCallback (Channel_setCallback CloseCallback
       (Channel_setCallback WriteCallback (Channel_setCallback ReadCallback (Channel_new 7))))]\<rparr>,
     inputBuffer = \<lparr>buffer = replicate 1032 (CHR 0x00), readerIndex = 8, writerIndex = 8\<rparr>,
     outputBuffer = \<lparr>buffer = replicate 1032 (CHR 0x00), readerIndex = 8, writerIndex = 8\<rparr>,
     highWaterMark = 64 * 1024 * 1024, hasWriteComplete = False, hasHighWaterMark = False, sent = [], effects = []\<rparr>"

lemma ex_conn_wc: "setWriteCompleteCallback False ex_conn = ex_conn"
  by (simp add: setWriteCompleteCallback_def ex_conn_def)

lemma ex_conn_new: "TcpConnection_new (EPollPoller_new Map.empty) 3 7 = Inr ex_conn"
  by (simp add: TcpConnection_new_def Buffer_new_def vec_resize_def sz_simps CheapPrepend_def InitialSize_def
      ptrdiff_max_def ex_conn_def EPollPoller_new_def)

lemma empty_poller_ok: "poller_ok (\<lambda>k. k) (EPollPoller_new Map.empty)"
  by (simp add: poller_ok_def EPollPoller_new_def)

definition ex_live :: "(int \<Rightarrow> (mask \<times> chan_id) option) TcpConnection" where
  "ex_live = (case connectEstablished list_ctl ex_conn of Inr c \<Rightarrow> c | Inl _ \<Rightarrow> ex_conn)"

lemma ex_live: "connectEstablished list_ctl ex_conn = Inr ex_live" "conn_ok (\<lambda>k. k) ex_live"
  "writerIndex (outputBuffer ex_live) = CheapPrepend" "cstate ex_live = kConnected"
  using connectEstablished_ok [OF list_ctl_spec empty_poller_ok, of 3 7 ex_conn False] ex_conn_new ex_conn_wc
  by (auto simp: ex_live_def EPollPoller_new_def)

text \<open>
  The kernel takes two bytes of the first send and none of the second; the shutdown has to wait; then
  the socket becomes writable and the kernel takes the rest in two pieces.
\<close>

definition ex_ops :: "conn_op list" where
  "ex_ops = [OpSend (SysOk 2) ''hello'', OpSend (SysErr EAGAIN) '', you'', OpShutdown,
     OpWritable [SysOk 4, SysOk 4, SysOk 0, SysErr EAGAIN, SysErr EAGAIN, SysErr EAGAIN, SysErr EAGAIN, SysErr EAGAIN, SysErr EAGAIN]]"

lemmas conn_eval = ex_ops_def ex_live_def connectEstablished_def ex_conn_def conn_do_def chan_do_def conn_channel_def
  setState_def effect_def Let_def EPollPoller_new_def send_def sendInLoop_def direct_write_def buffer_rest_def Buffer_append_def
  ensureWritableBytes_def writableBytes_def readableBytes_def sz_simps vec_write_def Channel_setCallback_def Channel_new_def
  Channel_tie_def enableET_def updateChannel_def EPollPoller_update_def list_ctl_def event_defs epoll_defs isNoneEvent_def
  index_defs isWriting_def fatal_reply_def errno_defs TcpConnection_shutdown_def shutdownInLoop_def

lemma ex_ops_fair: "run_fair list_ctl ex_ops ex_live"
  by (simp add: conn_eval split: option.split sum.split)

definition ex_done :: "(int \<Rightarrow> (mask \<times> chan_id) option) TcpConnection" where
  "ex_done = (case conn_run list_ctl ex_ops ex_live of Some (Inr c) \<Rightarrow> c | _ \<Rightarrow> ex_live)"

lemma ex_live_new: "connectEstablished list_ctl (setWriteCompleteCallback False ex_conn) = Inr ex_live"
  by (simp add: ex_conn_wc ex_live(1))

lemma ex_ops_size: "CheapPrepend + sends ex_ops \<le> ptrdiff_max"
  by (simp add: ex_ops_def CheapPrepend_def ptrdiff_max_def)

lemma ex_done: "conn_run list_ctl ex_ops ex_live = Some (Inr ex_done)"
  using conn_run_ok [OF list_ctl_spec ex_live(2) ex_ops_fair] ex_live(3) ex_ops_size by (auto simp: ex_done_def)

theorem connection_output_stream_witness:
  "\<exists>c'. conn_run list_ctl ex_ops ex_live = Some (Inr c') \<and> sent c' @ content (outputBuffer c') = ''hello, you'' \<and>
    count_list (effects c') ShutdownWrite = (if cstate c' = kDisconnecting \<and> content (outputBuffer c') = [] then 1 else 0)"
  using connection_output_stream [OF list_ctl_spec empty_poller_ok _ _ ex_conn_new ex_live_new ex_ops_fair]
  by (simp add: EPollPoller_new_def ex_ops_def CheapPrepend_def ptrdiff_max_def del: conn_run.simps)

theorem connection_watched_while_output_witness:
  "ctl_errors (cpoller ex_done) = [] \<and> (\<exists>ch. chans (cpoller ex_done) (cchan ex_done) = Some ch \<and> isReading ch \<and>
    (isWriting ch \<longleftrightarrow> content (outputBuffer ex_done) \<noteq> []) \<and> kernel (cpoller ex_done) (cfd ch) = Some (events ch, cchan ex_done))"
  by (rule connection_watched_while_output [OF list_ctl_spec empty_poller_ok _ _ ex_conn_new ex_live_new ex_ops_fair ex_ops_size ex_done])
    (simp_all add: EPollPoller_new_def)

text \<open>The poller reporting events for the channel keeps the invariant.\<close>

definition with_revents :: "mask \<Rightarrow> 'k TcpConnection \<Rightarrow> 'k TcpConnection" where
  "with_revents r c = (case chans (cpoller c) (cchan c) of
     None \<Rightarrow> c
   | Some ch \<Rightarrow> c\<lparr>cpoller := (cpoller c)\<lparr>chans := (chans (cpoller c))(cchan c \<mapsto> set_revents r ch)\<rparr>\<rparr>)"

lemma with_revents_ok: "conn_ok interest c \<Longrightarrow> conn_ok interest (with_revents r c)"
proof -
  assume ok: "conn_ok interest c"
  then have "conn_live interest c" by (simp add: conn_ok_def)
  then obtain ch where reg: "conn_reg interest ch c" and w: "isWriting ch \<longleftrightarrow> content (outputBuffer c) \<noteq> []"
    and b: "buf_ok (inputBuffer c)" "buf_ok (outputBuffer c)" by (rule conn_liveE)
  note r = reg [unfolded conn_reg_def]
  let ?ch = "set_revents r ch"
  have f: "cfd ?ch = cfd ch" "index ?ch = index ch" "events ?ch = events ch" by (simp_all add: set_revents_def)
  let ?p = "(cpoller c)\<lparr>chans := (chans (cpoller c))(cchan c \<mapsto> ?ch)\<rparr>"
  have p: "poller_ok interest ?p"
    by (rule poller_ok_change [where p = "cpoller c" and ch = ch and ch' = ?ch and ev = "events ch"])
      (use r f poller_okD(1,4) [of interest "cpoller c"] in \<open>auto simp: fun_upd_idem\<close>)
  have c: "with_revents r c = c\<lparr>cpoller := ?p\<rparr>" using r by (simp add: with_revents_def)
  have "conn_reg interest ?ch (with_revents r c)"
    unfolding c conn_reg_def using p r f by (simp add: isReading_def)
  then have "conn_live interest (with_revents r c)"
    unfolding conn_live_def using b w f by (auto simp: c isWriting_def)
  then show "conn_ok interest (with_revents r c)" using ok by (simp add: conn_ok_def c)
qed

lemma ex_live_channel: "\<exists>ch. chans (cpoller ex_live) (cchan ex_live) = Some ch \<and> set (callbacks ch) = UNIV \<and> tied ch \<and> cfd ch = 7"
  by (simp add: conn_eval) (auto intro: callback.exhaust)

theorem connection_teardown_witness:
  "\<exists>c1 c2. handleClose list_ctl ex_live = Inr c1 \<and> connectDestroyed list_ctl c1 = Inr c2 \<and>
    effects c2 = effects ex_live @ [ConnectionCallback kDisconnected, CloseCallbackCall] \<and> poller_ok (\<lambda>k. k) (cpoller c2) \<and>
    kernel (cpoller c2) = (kernel (cpoller ex_live))(7 := None) \<and> channels (cpoller c2) 7 = None"
proof -
  obtain ch where "chans (cpoller ex_live) (cchan ex_live) = Some ch" "cfd ch = 7" using ex_live_channel by blast
  then show ?thesis using connection_teardown [OF list_ctl_spec ex_live(2), of ch] by simp
qed

theorem hup_with_error_closes_twice_witness:
  "\<exists>c'. conn_handleEvent list_ctl Inr [] [] (with_revents (EPOLLHUP OR EPOLLERR) ex_live) = Some (Inr c') \<and>
    effects c' = effects (with_revents (EPOLLHUP OR EPOLLERR) ex_live) @ [ConnectionCallback kDisconnected, CloseCallbackCall, LogError,
      ConnectionCallback kDisconnected, CloseCallbackCall] \<and>
    kernel (cpoller c') 7 = Some (0, 3)"
proof -
  obtain ch where ch: "chans (cpoller ex_live) (cchan ex_live) = Some ch" "set (callbacks ch) = UNIV" "tied ch" "cfd ch = 7"
    using ex_live_channel by blast
  have "cchan ex_live = 3" by (simp add: conn_eval)
  moreover have "chans (cpoller (with_revents r ex_live)) (cchan (with_revents r ex_live)) = Some (set_revents r ch)"
    "cchan (with_revents r ex_live) = cchan ex_live" for r
    using ch by (simp_all add: with_revents_def)
  ultimately show ?thesis
    using hup_with_error_closes_twice [OF list_ctl_spec with_revents_ok [OF ex_live(2)],
        of "EPOLLHUP OR EPOLLERR" "set_revents (EPOLLHUP OR EPOLLERR) ch" Inr "[]" "[]"] ch
    by (simp add: set_revents_def)
qed

section \<open>Sending a file in pieces\<close>

text \<open>
  The calls of \<open>sendFileInLoop\<close> that one \<open>sendFile\<close> causes, each with the reply of \<open>sendfile\<close>; the result
  is the connection and what is still queued. \<open>pieces_ok\<close> says what \<open>sendfile(2)\<close> may answer.
\<close>

fun sendFile_run :: "nat sysret list \<Rightarrow> char list \<Rightarrow> nat \<Rightarrow> nat \<Rightarrow> 'k TcpConnection \<Rightarrow>
    ('k TcpConnection \<times> (nat \<times> nat) option) result" where
  "sendFile_run [] file offset cnt c = Inr (c, Some (offset, cnt))"
| "sendFile_run (r # rs) file offset cnt c =
     bind_r (sendFileInLoop r file offset cnt c) (\<lambda>(c1, again).
       case again of None \<Rightarrow> Inr (c1, None) | Some (off1, rest) \<Rightarrow> sendFile_run rs file off1 rest c1)"

fun pieces_ok :: "nat sysret list \<Rightarrow> nat \<Rightarrow> bool" where
  "pieces_ok [] k \<longleftrightarrow> True"
| "pieces_ok (SysErr e # rs) k \<longleftrightarrow> \<not> fatal_reply (SysErr e) \<and> pieces_ok rs k"
| "pieces_ok (SysOk n # rs) k \<longleftrightarrow> n \<le> k \<and> pieces_ok rs (k - n)"

primrec taken :: "nat sysret list \<Rightarrow> nat" where
  "taken [] = 0"
| "taken (r # rs) = (case r of SysOk n \<Rightarrow> n | SysErr e \<Rightarrow> 0) + taken rs"

lemma pieces_taken: "pieces_ok rs k \<Longrightarrow> taken rs \<le> k"
  by (induction rs k rule: pieces_ok.induct) auto

lemma sendFile_run_ok:
  assumes "conn_channel c = Inr ch" "\<not> isWriting ch" "readableBytes (outputBuffer c) = 0" "cstate c \<noteq> kDisconnecting"
    "pieces_ok rs cnt" "0 < cnt" "cnt \<le> ptrdiff_max"
  shows "\<exists>c'. sendFile_run rs file offset cnt c =
      Inr (c', if taken rs < cnt then Some (offset + taken rs, cnt - taken rs) else None) \<and>
    sent c' = sent c @ take (taken rs) (drop offset file)"
  using assms
proof (induction rs arbitrary: c cnt offset)
  case Nil
  then show ?case by auto
next
  case (Cons r rs)
  show ?case
  proof (cases r)
    case (SysErr e)
    let ?c1 = "if e \<noteq> EWOULDBLOCK then effect LogError c else c"
    have nf: "e \<noteq> EPIPE" "e \<noteq> ECONNRESET" using Cons.prems(5) SysErr by (auto simp: fatal_reply_def)
    have st: "sendFileInLoop r file offset cnt c = Inr (?c1, Some (offset, cnt))"
      using Cons.prems(1-4,6) SysErr nf by (simp add: sendFileInLoop_def)
    have ch: "conn_channel ?c1 = Inr ch" using Cons.prems(1) by (simp add: conn_channel_def)
    have f: "outputBuffer ?c1 = outputBuffer c" "cstate ?c1 = cstate c" "sent ?c1 = sent c" by simp_all
    have t: "taken (r # rs) = taken rs" using SysErr by simp
    show ?thesis
      unfolding t using Cons.IH [OF ch Cons.prems(2) _ _ _ Cons.prems(6,7), unfolded f, of offset] Cons.prems(3-5) SysErr st
      by (simp split del: if_split)
  next
    case (SysOk n)
    have n: "n \<le> cnt" "pieces_ok rs (cnt - n)" using Cons.prems(5) SysOk by auto
    have sz: "sz_sub cnt n = cnt - n" using n Cons.prems(7) by (simp add: sz_simps)
    let ?c0 = "c\<lparr>sent := sent c @ take n (drop offset file)\<rparr>"
    let ?c1 = "if cnt - n = 0 \<and> hasWriteComplete ?c0 then effect QueueWriteComplete ?c0 else ?c0"
    have st: "sendFileInLoop r file offset cnt c = Inr (?c1, if 0 < cnt - n then Some (offset + n, cnt - n) else None)"
      using Cons.prems(1-4) SysOk by (simp add: sendFileInLoop_def sz Let_def)
    have ch: "conn_channel ?c1 = Inr ch" using Cons.prems(1) by (simp add: conn_channel_def)
    have s1: "outputBuffer ?c1 = outputBuffer c" "cstate ?c1 = cstate c" "sent ?c1 = sent c @ take n (drop offset file)" by simp_all
    show ?thesis
    proof (cases "cnt - n = 0")
      case True
      then have "taken rs = 0" using pieces_taken [OF n(2)] by simp
      then show ?thesis using st True s1(3) n(1) SysOk by simp
    next
      case False
      have tk: "take n (drop offset file) @ take m (drop (offset + n) file) = take (n + m) (drop offset file)" for m
        by (simp only: take_add drop_drop add.commute [of offset n])
      have sz': "0 < cnt - n" "cnt - n \<le> ptrdiff_max" using Cons.prems(7) False by simp_all
      have t: "taken (r # rs) = n + taken rs" using SysOk by simp
      from Cons.IH [OF ch Cons.prems(2) _ _ n(2) sz', unfolded s1, of "offset + n"] Cons.prems(3,4) obtain c' where
        c': "sendFile_run rs file (offset + n) (cnt - n) ?c1 =
          Inr (c', if taken rs < cnt - n then Some (offset + n + taken rs, cnt - n - taken rs) else None)"
        "sent c' = (sent c @ take n (drop offset file)) @ take (taken rs) (drop (offset + n) file)" by blast
      have "sendFile_run (r # rs) file offset cnt c = sendFile_run rs file (offset + n) (cnt - n) ?c1"
        using st sz'(1) by (simp split del: if_split)
      moreover have "taken rs < cnt - n \<longleftrightarrow> n + taken rs < cnt" by auto
      ultimately show ?thesis unfolding t using c' by (intro exI [of _ c']) (simp add: tk add.assoc)
    qed
  qed
qed

text \<open>C27: A file is sent in order: whatever pieces \<open>sendfile\<close> takes, the calls of \<open>sendFileInLoop\<close> that one
  \<open>sendFile\<close> queues send the requested range from its start, each goes on where the one before ended,
  and they stop exactly when the whole range is out.\<close>

theorem sendFile_sends_range:
  assumes "conn_channel c = Inr ch" "\<not> isWriting ch" "readableBytes (outputBuffer c) = 0" "cstate c \<noteq> kDisconnecting"
    "pieces_ok rs cnt" "0 < cnt" "cnt \<le> ptrdiff_max"
  shows "\<exists>c'. sendFile_run rs file offset cnt c =
      Inr (c', if taken rs < cnt then Some (offset + taken rs, cnt - taken rs) else None) \<and>
    sent c' = sent c @ take (taken rs) (drop offset file)"
  by (rule sendFile_run_ok [OF assms])

theorem sendFile_sends_range_witness:
  "\<exists>c'. sendFile_run [SysErr EWOULDBLOCK, SysOk 1, SysOk 3] ''abcdefghi'' 2 7 ex_live = Inr (c', Some (6, 3)) \<and>
    sent c' = sent ex_live @ ''cdef''"
proof -
  obtain ch where ch: "conn_channel ex_live = Inr ch" "\<not> isWriting ch"
    by (simp add: conn_eval)
  have "readableBytes (outputBuffer ex_live) = 0" by (simp add: conn_eval)
  then show ?thesis
    using sendFile_sends_range [OF ch, of "[SysErr EWOULDBLOCK, SysOk 1, SysOk 3]" 7 "''abcdefghi''" 2]
    by (simp add: ex_live(4) fatal_reply_def errno_defs ptrdiff_max_def del: sendFile_run.simps)
qed

section \<open>Branches that do not do what their comments say\<close>

text \<open>
  When the last buffered byte has been taken, the loop of \<open>handleWrite\<close> goes on, writes zero bytes, and
  logs the reply 0 as an error.
\<close>

lemma drained_write_logs_error:
  assumes sp: "epoll_spec ctl interest" and ok: "conn_ok interest c" and n: "content (outputBuffer c) \<noteq> []"
  shows "\<exists>c'. handleWrite ctl [SysOk (length (content (outputBuffer c))), SysOk 0] c = Some (Inr c') \<and>
    content (outputBuffer c') = [] \<and> last (effects c') = LogError"
proof -
  let ?n = "length (content (outputBuffer c))"
  from ok have "conn_live interest c" by (simp add: conn_ok_def)
  then obtain ch where w: "isWriting ch" "conn_channel c = Inr ch" by (rule conn_liveE) (use n in simp)
  have n0: "0 < ?n" using n by simp
  from write_step_ok [OF sp ok n0 order_refl, of "[SysOk 0]"] obtain c1 where
    c1: "write_loop ctl [SysOk ?n, SysOk 0] c = write_loop ctl [SysOk 0] c1" "conn_ok interest c1"
    "length (content (outputBuffer c1)) = 0" by auto
  from c1(2) have "buf_ok (outputBuffer c1)" by (auto simp: conn_ok_def conn_live_def)
  then have "write_loop ctl [SysOk 0] c1 = Some (Inr (effect LogError c1))" by (simp add: writeFd_ok)
  then show ?thesis using c1 w by (simp add: handleWrite_def)
qed

text \<open>At the end of the file \<open>sendfile\<close> returns 0; the call then queues itself again, unchanged.\<close>

lemma sendFile_at_eof_requeues:
  assumes "conn_channel c = Inr ch" "\<not> isWriting ch" "readableBytes (outputBuffer c) = 0" "cstate c \<noteq> kDisconnecting"
    "0 < cnt" "cnt \<le> ptrdiff_max"
  shows "sendFileInLoop (SysOk 0) file offset cnt c = Inr (c, Some (offset, cnt))"
  using assms by (simp add: sendFileInLoop_def sz_simps Let_def)

text \<open>Data sent between two pieces of a file goes out between them.\<close>

lemma send_interleaves_with_file:
  "\<exists>c1 c2 c3. sendFileInLoop (SysOk 3) ''abcdef'' 0 6 ex_live = Inr (c1, Some (3, 3)) \<and>
    send list_ctl (SysOk 2) ''XY'' c1 = Inr c2 \<and>
    sendFileInLoop (SysOk 3) ''abcdef'' 3 3 c2 = Inr (c3, None) \<and> sent c3 = ''abcXYdef''"
  by (simp add: sendFileInLoop_def conn_eval)

text \<open>A queued \<open>sendInLoop\<close> that runs after the connection was closed writes all the same.\<close>

lemma closed_connection_still_writes:
  "\<exists>c1 c2. handleClose list_ctl ex_live = Inr c1 \<and> cstate c1 = kDisconnected \<and>
    sendInLoop list_ctl (SysOk 2) ''hi'' c1 = Inr c2 \<and> sent c2 = ''hi''"
  by (simp add: handleClose_def conn_eval)

end
