(* ===== verification/MemoryPool.thy ===== *)
theory MemoryPool
  imports Prelude
begin

text \<open>
  The slot allocator (\<open>include/memoryPool.h\<close>, \<open>memory/memoryPool.cc\<close>).

  Addresses are numbers, the null pointer is 0, and the heap maps the address of an aligned 8-byte
  word to its value; \<open>p->next\<close> is the word at \<open>p\<close>. The answer of \<open>operator new\<close> is an argument, an
  address or a failure. The two critical sections of \<open>allocate\<close> are two definitions. They hold different
  mutexes, and \<open>allocateNewBlock\<close> clears \<open>freeList_\<close> under the mutex of the blocks only, so in the
  interleavings of several threads a section on the free list is cut at each of its accesses to
  \<open>freeList_\<close>.
\<close>

section \<open>One pool\<close>

type_synonym heap = "nat \<Rightarrow> nat"

record MemoryPool =
  BlockSize :: nat
  SlotSize :: nat
  firstBlock :: nat
  curSlot :: nat
  freeList :: nat
  lastSlot :: nat

definition sizeof_Slot :: nat where "sizeof_Slot = 8"

text \<open>The pools are static, so the members the constructor does not set start as 0.\<close>

definition MemoryPool_new :: "nat \<Rightarrow> MemoryPool" where
  "MemoryPool_new blockSize =
     \<lparr>BlockSize = blockSize, SlotSize = 0, firstBlock = 0, curSlot = 0, freeList = 0, lastSlot = 0\<rparr>"

definition MemoryPool_init :: "nat \<Rightarrow> MemoryPool \<Rightarrow> MemoryPool" where
  "MemoryPool_init bytes P = P\<lparr>SlotSize := bytes, firstBlock := 0, curSlot := 0, freeList := 0, lastSlot := 0\<rparr>"

definition padPointer :: "nat \<Rightarrow> nat \<Rightarrow> nat result" where
  "padPointer p align = (if align = 0 then Inl DivByZero else Inr (sz_sub align p mod align))"

definition allocateNewBlock :: "nat option \<Rightarrow> heap \<times> MemoryPool \<Rightarrow> (heap \<times> MemoryPool) result" where
  "allocateNewBlock reply hp = (case hp of (h, P) \<Rightarrow>
     case reply of
       None \<Rightarrow> Inl BadAlloc
     | Some newBlock \<Rightarrow>
         (let h1 = h(newBlock := firstBlock P);
              P1 = P\<lparr>firstBlock := newBlock\<rparr>;
              body = sz_add newBlock sizeof_Slot
          in bind_r (padPointer body (SlotSize P1)) (\<lambda>paddingSize.
             Inr (h1, P1\<lparr>curSlot := sz_add body paddingSize,
                         lastSlot := sz_add (sz_sub (sz_add newBlock (BlockSize P1)) (SlotSize P1)) 1,
                         freeList := 0\<rparr>))))"

text \<open>The first critical section of \<open>allocate\<close>, under \<open>mutexForFreeList_\<close>: take a slot off the free list.\<close>

definition allocate_free :: "heap \<times> MemoryPool \<Rightarrow> nat option \<times> heap \<times> MemoryPool" where
  "allocate_free hp = (case hp of (h, P) \<Rightarrow>
     if freeList P \<noteq> 0 then (Some (freeList P), h, P\<lparr>freeList := h (freeList P)\<rparr>) else (None, h, P))"

text \<open>The second one, under \<open>mutexForBlock_\<close>: take the next slot of the current block, or of a new one.\<close>

definition allocate_block :: "nat option \<Rightarrow> heap \<times> MemoryPool \<Rightarrow> (nat \<times> heap \<times> MemoryPool) result" where
  "allocate_block reply hp =
     bind_r (if lastSlot (snd hp) \<le> curSlot (snd hp) then allocateNewBlock reply hp else Inr hp) (\<lambda>(h, P).
       Inr (curSlot P, h, P\<lparr>curSlot := sz_add (curSlot P) (SlotSize P div sizeof_Slot * sizeof_Slot)\<rparr>))"

definition allocate :: "nat option \<Rightarrow> heap \<times> MemoryPool \<Rightarrow> (nat \<times> heap \<times> MemoryPool) result" where
  "allocate reply hp =
     (case allocate_free hp of
        (Some p, hp1) \<Rightarrow> Inr (p, hp1)
      | (None, hp1) \<Rightarrow> allocate_block reply hp1)"

definition deallocate :: "nat \<Rightarrow> heap \<times> MemoryPool \<Rightarrow> heap \<times> MemoryPool" where
  "deallocate ptr hp = (case hp of (h, P) \<Rightarrow>
     if ptr \<noteq> 0 then (h(ptr := freeList P), P\<lparr>freeList := ptr\<rparr>) else (h, P))"

text \<open>
  The destructor walks the list of blocks and deletes each; the result is what it deleted, in order.
  With too little fuel the walk has not ended.
\<close>

fun delete_blocks :: "nat \<Rightarrow> heap \<Rightarrow> nat \<Rightarrow> nat list option" where
  "delete_blocks 0 h cur = None"
| "delete_blocks (Suc n) h cur =
     (if cur = 0 then Some [] else map_option (Cons cur) (delete_blocks n h (h cur)))"

definition MemoryPool_destroy :: "nat \<Rightarrow> heap \<times> MemoryPool \<Rightarrow> nat list option" where
  "MemoryPool_destroy fuel hp = delete_blocks fuel (fst hp) (firstBlock (snd hp))"

section \<open>The size classes\<close>

definition MEMORY_POOL_NUM :: nat where "MEMORY_POOL_NUM = 64"
definition SLOT_BASE_SIZE :: nat where "SLOT_BASE_SIZE = 8"
definition MAX_SLOT_SIZE :: nat where "MAX_SLOT_SIZE = 512"

lemmas pool_consts = MEMORY_POOL_NUM_def SLOT_BASE_SIZE_def MAX_SLOT_SIZE_def

text \<open>The static array of pools with the heap; \<open>initMemoryPool\<close> is its loop over the array.\<close>

record HashBucket =
  bheap :: heap
  pools :: "MemoryPool list"

definition HashBucket_static :: "heap \<Rightarrow> HashBucket" where
  "HashBucket_static h = \<lparr>bheap = h, pools = replicate MEMORY_POOL_NUM (MemoryPool_new 4096)\<rparr>"

definition getMemoryPool :: "nat \<Rightarrow> HashBucket \<Rightarrow> MemoryPool result" where
  "getMemoryPool i B = (if i < length (pools B) then Inr (pools B ! i) else Inl OutOfBounds)"

fun initMemoryPool_from :: "nat \<Rightarrow> MemoryPool list \<Rightarrow> MemoryPool list" where
  "initMemoryPool_from i [] = []"
| "initMemoryPool_from i (P # Ps) = MemoryPool_init ((i + 1) * SLOT_BASE_SIZE) P # initMemoryPool_from (i + 1) Ps"

definition initMemoryPool :: "HashBucket \<Rightarrow> HashBucket" where
  "initMemoryPool B = B\<lparr>pools := initMemoryPool_from 0 (pools B)\<rparr>"

text \<open>The index of the pool that serves a size, in \<open>size_t\<close> arithmetic.\<close>

definition pool_index :: "nat \<Rightarrow> nat" where
  "pool_index bytes = sz_sub (sz_add bytes 7 div SLOT_BASE_SIZE) 1"

text \<open>\<open>useMemory\<close>; the reply is the address \<open>operator new\<close> returns, for a block or for a large object.\<close>

definition useMemory :: "nat option \<Rightarrow> nat \<Rightarrow> HashBucket \<Rightarrow> (nat \<times> HashBucket) result" where
  "useMemory reply bytes B =
     (if bytes = 0 then Inr (0, B)
      else if MAX_SLOT_SIZE < bytes
      then (case reply of None \<Rightarrow> Inl BadAlloc | Some p \<Rightarrow> Inr (p, B))
      else bind_r (getMemoryPool (pool_index bytes) B) (\<lambda>P.
           bind_r (allocate reply (bheap B, P)) (\<lambda>(p, h, P').
             Inr (p, B\<lparr>bheap := h, pools := (pools B)[pool_index bytes := P']\<rparr>))))"

text \<open>\<open>freeMemory\<close>; the second component is the address handed to \<open>operator delete\<close>, if any.\<close>

definition freeMemory :: "nat \<Rightarrow> nat \<Rightarrow> HashBucket \<Rightarrow> (nat option \<times> HashBucket) result" where
  "freeMemory ptr bytes B =
     (if ptr = 0 then Inr (None, B)
      else if MAX_SLOT_SIZE < bytes then Inr (Some ptr, B)
      else bind_r (getMemoryPool (pool_index bytes) B) (\<lambda>P.
           let (h, P') = deallocate ptr (bheap B, P)
           in Inr (None, B\<lparr>bheap := h, pools := (pools B)[pool_index bytes := P']\<rparr>)))"

text \<open>Constructing and destroying an object of a size; the constructor and the destructor are parameters.\<close>

definition newElement :: "(nat \<Rightarrow> heap \<Rightarrow> heap) \<Rightarrow> nat option \<Rightarrow> nat \<Rightarrow> HashBucket \<Rightarrow> (nat \<times> HashBucket) result" where
  "newElement ctor reply sizeofT B =
     bind_r (useMemory reply sizeofT B) (\<lambda>(p, B1).
       Inr (p, if p \<noteq> 0 then B1\<lparr>bheap := ctor p (bheap B1)\<rparr> else B1))"

definition deleteElement :: "(nat \<Rightarrow> heap \<Rightarrow> heap) \<Rightarrow> nat \<Rightarrow> nat \<Rightarrow> HashBucket \<Rightarrow> (nat option \<times> HashBucket) result" where
  "deleteElement dtor p sizeofT B =
     (if p \<noteq> 0 then freeMemory p sizeofT (B\<lparr>bheap := dtor p (bheap B)\<rparr>) else Inr (None, B))"

section \<open>Invariant\<close>

text \<open>A null-terminated list in the heap, as its nodes in order.\<close>

fun chain :: "heap \<Rightarrow> nat \<Rightarrow> nat list \<Rightarrow> bool" where
  "chain h p [] \<longleftrightarrow> p = 0"
| "chain h p (a # as) \<longleftrightarrow> p = a \<and> a \<noteq> 0 \<and> chain h (h a) as"

lemma chain_upd: "x \<notin> set as \<Longrightarrow> chain (h(x := v)) p as \<longleftrightarrow> chain h p as"
  by (induction as arbitrary: p) auto

lemma chain_0: "chain h 0 as \<longleftrightarrow> as = []"
  by (cases as) auto

lemma chain_nonzero: "chain h p as \<Longrightarrow> p \<noteq> 0 \<Longrightarrow> \<exists>as'. as = p # as' \<and> chain h (h p) as'"
  by (cases as) auto

lemma chain_unique: "chain h p as \<Longrightarrow> chain h p bs \<Longrightarrow> as = bs"
proof (induction as arbitrary: p bs)
  case Nil
  then show ?case by (simp add: chain_0)
next
  case (Cons a as)
  then show ?case by (cases bs) auto
qed

lemma chain_suffix: "chain h p (xs @ a # ys) \<Longrightarrow> chain h a (a # ys)"
  by (induction xs arbitrary: p) auto

lemma chain_distinct: "chain h p as \<Longrightarrow> distinct as"
proof (rule ccontr)
  assume c: "chain h p as" and "\<not> distinct as"
  then obtain xs a ys zs where as: "as = xs @ [a] @ ys @ [a] @ zs" using not_distinct_decomp by blast
  have "chain h a (a # ys @ a # zs)" using chain_suffix [of h p xs a "ys @ a # zs"] c as by simp
  moreover have "chain h a (a # zs)" using chain_suffix [of h p "xs @ a # ys" a zs] c as by simp
  ultimately have "a # ys @ a # zs = a # zs" by (rule chain_unique)
  then have "ys @ a # zs = zs" by simp
  then have "length (ys @ a # zs) = length zs" by (rule arg_cong)
  then show False by simp
qed

lemma delete_blocks_chain: "chain h p as \<Longrightarrow> length as < n \<Longrightarrow> delete_blocks n h p = Some as"
proof (induction n arbitrary: p as)
  case (Suc n)
  then show ?case by (cases as) auto
qed simp

text \<open>Two ranges of the same length that do not overlap.\<close>

definition apart :: "nat \<Rightarrow> nat \<Rightarrow> nat \<Rightarrow> bool" where
  "apart s a b \<longleftrightarrow> a + s \<le> b \<or> b + s \<le> a"

definition in_block :: "MemoryPool \<Rightarrow> nat \<Rightarrow> nat \<Rightarrow> bool" where
  "in_block P b a \<longleftrightarrow> b + sizeof_Slot \<le> a \<and> a + SlotSize P \<le> b + BlockSize P"

text \<open>
  A pool with the blocks it owns, the slots it has ever handed out, the slots in use and the free
  list. Handed-out slots lie in a block behind its header and do not overlap; the rest of the current
  block, from \<open>curSlot\<close> on, is untouched.
\<close>

definition shape_ok :: "MemoryPool \<Rightarrow> bool" where
  "shape_ok P \<longleftrightarrow> 8 dvd SlotSize P \<and> 0 < SlotSize P \<and> 2 * SlotSize P + sizeof_Slot \<le> BlockSize P"

definition blocks_ok :: "heap \<Rightarrow> MemoryPool \<Rightarrow> nat list \<Rightarrow> bool" where
  "blocks_ok h P blocks \<longleftrightarrow> chain h (firstBlock P) blocks \<and>
     (\<forall>b\<in>set blocks. 8 dvd b \<and> b + BlockSize P \<le> ptrdiff_max) \<and>
     (\<forall>b\<in>set blocks. \<forall>b'\<in>set blocks. b \<noteq> b' \<longrightarrow> apart (BlockSize P) b b')"

definition free_ok :: "heap \<Rightarrow> MemoryPool \<Rightarrow> nat set \<Rightarrow> nat set \<Rightarrow> nat list \<Rightarrow> bool" where
  "free_ok h P slots live free \<longleftrightarrow> chain h (freeList P) free \<and> distinct free \<and>
     live \<union> set free \<subseteq> slots \<and> live \<inter> set free = {}"

definition slots_ok :: "MemoryPool \<Rightarrow> nat list \<Rightarrow> nat set \<Rightarrow> bool" where
  "slots_ok P blocks slots \<longleftrightarrow> (\<forall>a\<in>slots. 8 dvd a \<and> (\<exists>b\<in>set blocks. in_block P b a)) \<and>
     (\<forall>a\<in>slots. \<forall>a'\<in>slots. a \<noteq> a' \<longrightarrow> apart (SlotSize P) a a')"

definition current_ok :: "MemoryPool \<Rightarrow> nat list \<Rightarrow> nat set \<Rightarrow> bool" where
  "current_ok P blocks slots \<longleftrightarrow>
     (case blocks of
        [] \<Rightarrow> curSlot P = 0 \<and> lastSlot P = 0
      | b # _ \<Rightarrow> 8 dvd curSlot P \<and> b + sizeof_Slot \<le> curSlot P \<and> curSlot P \<le> b + BlockSize P \<and>
          lastSlot P = b + BlockSize P - SlotSize P + 1 \<and> (\<forall>a\<in>slots. in_block P b a \<longrightarrow> a + SlotSize P \<le> curSlot P))"

definition pool_ok :: "heap \<Rightarrow> MemoryPool \<Rightarrow> nat list \<Rightarrow> nat set \<Rightarrow> nat set \<Rightarrow> nat list \<Rightarrow> bool" where
  "pool_ok h P blocks slots live free \<longleftrightarrow> shape_ok P \<and> blocks_ok h P blocks \<and> free_ok h P slots live free \<and>
     slots_ok P blocks slots \<and> current_ok P blocks slots"

lemmas pool_ok_defs = pool_ok_def shape_ok_def blocks_ok_def free_ok_def slots_ok_def current_ok_def

text \<open>What the invariant says of \<open>freeList\<close> is separate from the rest.\<close>

lemma pool_ok_freeList:
  "pool_ok h (P\<lparr>freeList := x\<rparr>) blocks slots live free \<longleftrightarrow>
     shape_ok P \<and> blocks_ok h P blocks \<and> slots_ok P blocks slots \<and> current_ok P blocks slots \<and>
     chain h x free \<and> distinct free \<and> live \<union> set free \<subseteq> slots \<and> live \<inter> set free = {}"
  by (auto simp: pool_ok_defs in_block_def split: list.splits)

lemma padPointer_ok:
  assumes "0 < align" "8 dvd align" "8 dvd p" "p < 2 ^ 64"
  obtains k where "padPointer p align = Inr k" "k < align" "8 dvd k"
proof -
  have d: "(8::nat) dvd 2 ^ 64" by simp
  have "8 dvd sz_sub align p"
  proof (cases "p \<le> align")
    case True
    then show ?thesis using assms by (simp add: sz_sub_def dvd_diff_nat)
  next
    case False
    have "8 dvd (align + 2 ^ 64 - p) mod 2 ^ 64" by (intro dvd_mod dvd_diff_nat dvd_add assms d)
    then show ?thesis using False by (simp add: sz_sub_def)
  qed
  then have "8 dvd sz_sub align p mod align" using assms(2) by (intro dvd_mod)
  then show thesis using that [of "sz_sub align p mod align"] assms(1) by (simp add: padPointer_def)
qed

text \<open>A slot is not the header of a block, and not the null pointer.\<close>

lemma slot_not_header:
  assumes "blocks_ok h P blocks" "slots_ok P blocks slots" "shape_ok P" "a \<in> slots"
  shows "a \<notin> set blocks" "a \<noteq> 0"
proof -
  from assms(2,4) obtain b where b: "b \<in> set blocks" "in_block P b a" by (auto simp: slots_ok_def)
  then show "a \<noteq> 0" by (simp add: in_block_def sizeof_Slot_def)
  show "a \<notin> set blocks"
  proof
    assume "a \<in> set blocks"
    moreover have "a \<noteq> b" using b(2) by (simp add: in_block_def sizeof_Slot_def)
    ultimately have "apart (BlockSize P) a b" using assms(1) b(1) by (auto simp: blocks_ok_def)
    then show False using b(2) assms(3) by (simp add: apart_def in_block_def sizeof_Slot_def shape_ok_def)
  qed
qed

text \<open>Memory the pool does not use for its own lists may change freely.\<close>

lemma pool_ok_write:
  "pool_ok h P blocks slots live free \<Longrightarrow> x \<notin> set blocks \<Longrightarrow> x \<notin> set free \<Longrightarrow> pool_ok (h(x := v)) P blocks slots live free"
  by (simp add: pool_ok_def blocks_ok_def free_ok_def chain_upd)

lemma allocate_free_ok:
  assumes ok: "pool_ok h P blocks slots live free"
  shows "if free = [] then allocate_free (h, P) = (None, h, P)
    else allocate_free (h, P) = (Some (hd free), h, P\<lparr>freeList := h (hd free)\<rparr>) \<and>
      pool_ok h (P\<lparr>freeList := h (hd free)\<rparr>) blocks slots (insert (hd free) live) (tl free)"
proof (cases free)
  case Nil
  then show ?thesis using ok by (simp add: pool_ok_def free_ok_def allocate_free_def)
next
  case (Cons a as)
  then show ?thesis using ok by (auto simp: pool_ok_defs allocate_free_def in_block_def split: list.splits)
qed

lemma deallocate_ok:
  assumes ok: "pool_ok h P blocks slots live free" and a: "a \<in> live" and d: "deallocate a (h, P) = (h', P')"
  shows "pool_ok h' P' blocks slots (live - {a}) (a # free)"
proof -
  have sl: "a \<in> slots" "a \<notin> set free" using ok a by (auto simp: pool_ok_def free_ok_def)
  then have n: "a \<notin> set blocks" "a \<noteq> 0" using slot_not_header ok by (auto simp: pool_ok_def)
  with d have d': "h' = h(a := freeList P)" "P' = P\<lparr>freeList := a\<rparr>" by (auto simp: deallocate_def)
  show ?thesis
    unfolding d' using pool_ok_write [OF ok n(1) sl(2), of "freeList P"] sl n a
    by (auto simp: pool_ok_defs in_block_def split: list.splits)
qed

text \<open>What \<open>operator new\<close> promises of a block: aligned memory that nobody else owns.\<close>

definition fresh_block :: "MemoryPool \<Rightarrow> nat list \<Rightarrow> nat \<Rightarrow> bool" where
  "fresh_block P blocks b \<longleftrightarrow> 8 dvd b \<and> b \<noteq> 0 \<and> b + BlockSize P \<le> ptrdiff_max \<and> (\<forall>b'\<in>set blocks. apart (BlockSize P) b b')"

lemma not_in_two_blocks:
  "apart (BlockSize P) b b' \<Longrightarrow> shape_ok P \<Longrightarrow> in_block P b a \<Longrightarrow> \<not> in_block P b' a"
  by (auto simp: apart_def in_block_def shape_ok_def sizeof_Slot_def)

lemma allocateNewBlock_ok:
  assumes ok: "pool_ok h P blocks slots live free" and b: "fresh_block P blocks b"
  obtains h' P' where "allocateNewBlock (Some b) (h, P) = Inr (h', P')" "pool_ok h' P' (b # blocks) slots live []"
    "pool_ok h' (P'\<lparr>freeList := freeList P\<rparr>) (b # blocks) slots live free" "curSlot P' < lastSlot P'" "freeList P' = 0"
proof -
  note D = ok [unfolded pool_ok_def]
  from D have sh: "0 < SlotSize P" "8 dvd SlotSize P" "2 * SlotSize P + 8 \<le> BlockSize P"
    by (auto simp: shape_ok_def sizeof_Slot_def)
  from b have fb: "8 dvd b" "b \<noteq> 0" "b + BlockSize P < 2 ^ 63" "\<forall>b'\<in>set blocks. apart (BlockSize P) b b'"
    using ptrdiff_max_lt by (auto simp: fresh_block_def)
  have body: "sz_add b sizeof_Slot = b + 8" using fb sh by (simp add: sz_simps sizeof_Slot_def)
  obtain k where k: "padPointer (b + 8) (SlotSize P) = Inr k" "k < SlotSize P" "8 dvd k"
    by (rule padPointer_ok [of "SlotSize P" "b + 8"]) (use sh fb in auto)
  define P' where "P' = P\<lparr>firstBlock := b, curSlot := b + 8 + k,
      lastSlot := b + BlockSize P - SlotSize P + 1, freeList := 0\<rparr>"
  have e: "allocateNewBlock (Some b) (h, P) = Inr (h(b := firstBlock P), P')"
    using k fb sh by (simp add: allocateNewBlock_def Let_def body sz_simps P'_def)
  have f: "SlotSize P' = SlotSize P" "BlockSize P' = BlockSize P" "in_block P' = in_block P" "freeList P' = 0"
    "firstBlock P' = b" "curSlot P' = b + 8 + k" "lastSlot P' = b + BlockSize P - SlotSize P + 1"
    by (auto simp: P'_def in_block_def fun_eq_iff)
  have nb: "b \<notin> set blocks"
  proof
    assume "b \<in> set blocks"
    with fb(4) have "apart (BlockSize P) b b" by blast
    then show False using sh by (simp add: apart_def)
  qed
  have "blocks_ok (h(b := firstBlock P)) P' (b # blocks)"
    using D fb nb b by (auto simp: blocks_ok_def f chain_upd fresh_block_def apart_def)
  moreover have "free_ok (h(b := firstBlock P)) P' slots live []"
    using D by (auto simp: free_ok_def f)
  moreover have "slots_ok P' (b # blocks) slots"
    using D by (auto simp: slots_ok_def f)
  moreover have "current_ok P' (b # blocks) slots"
  proof -
    have "\<not> in_block P b a" if "a \<in> slots" for a
      using that D fb(4) not_in_two_blocks [of P b] by (auto simp: slots_ok_def)
    then show ?thesis using fb(1) k sh by (auto simp: current_ok_def f sizeof_Slot_def)
  qed
  moreover have "shape_ok P'" using D by (simp add: shape_ok_def f)
  ultimately have new: "pool_ok (h(b := firstBlock P)) P' (b # blocks) slots live []" by (simp add: pool_ok_def)
  have "b \<notin> set free"
  proof
    assume "b \<in> set free"
    then have "b \<in> slots" using D by (auto simp: free_ok_def)
    then obtain b' where "b' \<in> set blocks" "in_block P b' b" using D by (auto simp: slots_ok_def)
    with fb(4) sh show False by (auto simp: apart_def in_block_def sizeof_Slot_def)
  qed
  then have "pool_ok (h(b := firstBlock P)) (P'\<lparr>freeList := freeList P\<rparr>) (b # blocks) slots live free"
    unfolding pool_ok_freeList using new D by (simp add: pool_ok_def free_ok_def chain_upd)
  moreover have "curSlot P' < lastSlot P'" using k sh by (simp add: f)
  ultimately show thesis using that e f(4) new by blast
qed

text \<open>Taking the next slot of a block that has one.\<close>

lemma take_slot_ok:
  assumes ok: "pool_ok h P (b # blocks) slots live free" and lt: "curSlot P < lastSlot P"
  defines "P' \<equiv> P\<lparr>curSlot := sz_add (curSlot P) (SlotSize P div sizeof_Slot * sizeof_Slot)\<rparr>"
  shows "curSlot P \<notin> slots \<and> pool_ok h P' (b # blocks) (insert (curSlot P) slots) (insert (curSlot P) live) free"
proof -
  note D = ok [unfolded pool_ok_def]
  let ?a = "curSlot P" let ?s = "SlotSize P"
  from D have sh: "0 < ?s" "8 dvd ?s" "2 * ?s + 8 \<le> BlockSize P" by (auto simp: shape_ok_def sizeof_Slot_def)
  from D have c: "8 dvd ?a" "b + 8 \<le> ?a" "?a \<le> b + BlockSize P" "lastSlot P = b + BlockSize P - ?s + 1"
    "\<And>a. a \<in> slots \<Longrightarrow> in_block P b a \<Longrightarrow> a + ?s \<le> ?a"
    by (auto simp: current_ok_def sizeof_Slot_def)
  from D have bb: "b + BlockSize P < 2 ^ 63" using ptrdiff_max_lt by (auto simp: blocks_ok_def)
  have end_le: "?a + ?s \<le> b + BlockSize P" using lt c(4) sh by simp
  have "?s div sizeof_Slot * sizeof_Slot = ?s" using sh(2) by (simp add: sizeof_Slot_def)
  then have P': "P' = P\<lparr>curSlot := ?a + ?s\<rparr>" using end_le bb by (simp add: P'_def sz_simps)
  have f: "in_block P' = in_block P" by (auto simp: P' in_block_def fun_eq_iff)
  have ib: "in_block P b ?a" using c(2) end_le by (simp add: in_block_def sizeof_Slot_def)
  have ap: "apart ?s ?a a" if a: "a \<in> slots" for a
  proof -
    from a D obtain b' where b': "b' \<in> set (b # blocks)" "in_block P b' a" by (auto simp: slots_ok_def)
    show ?thesis
    proof (cases "b' = b")
      case True
      then show ?thesis using c(5) [OF a] b'(2) by (simp add: apart_def)
    next
      case False
      then have "apart (BlockSize P) b b'" using D b'(1) by (auto simp: blocks_ok_def)
      then show ?thesis using b'(2) ib by (auto simp: apart_def in_block_def)
    qed
  qed
  then have new: "?a \<notin> slots" using sh(1) by (fastforce simp: apart_def)
  moreover have "slots_ok P' (b # blocks) (insert ?a slots)"
  proof -
    have sl: "\<forall>a\<in>slots. 8 dvd a \<and> (\<exists>b\<in>set (b # blocks). in_block P b a)"
      "\<forall>a\<in>slots. \<forall>a'\<in>slots. a \<noteq> a' \<longrightarrow> apart ?s a a'" using D unfolding slots_ok_def by blast+
    have sym: "apart ?s a ?a" if "a \<in> slots" for a using ap [OF that] by (auto simp: apart_def)
    show ?thesis unfolding slots_ok_def f using sl ap sym c(1) ib by (auto simp: P')
  qed
  moreover have "blocks_ok h P' (b # blocks)" "shape_ok P'" "free_ok h P' (insert ?a slots) (insert ?a live) free"
    using D new by (auto simp: blocks_ok_def shape_ok_def free_ok_def P')
  moreover have "current_ok P' (b # blocks) (insert ?a slots)"
    unfolding current_ok_def f using c sh end_le ib by (fastforce simp: P' sizeof_Slot_def)
  ultimately show ?thesis by (simp add: pool_ok_def)
qed

lemma allocate_block_ok:
  assumes ok: "pool_ok h P blocks slots live free" and r: "lastSlot P \<le> curSlot P \<Longrightarrow> \<exists>b. reply = Some b \<and> fresh_block P blocks b"
  shows "\<exists>a h' P' blocks' free'. allocate_block reply (h, P) = Inr (a, h', P') \<and> a \<notin> slots \<and>
    blocks' = (if lastSlot P \<le> curSlot P then the reply # blocks else blocks) \<and>
    pool_ok h' P' blocks' (insert a slots) (insert a live) free'"
proof (cases "lastSlot P \<le> curSlot P")
  case False
  then obtain b bs where b: "blocks = b # bs" using ok by (cases blocks) (auto simp: pool_ok_def current_ok_def)
  show ?thesis
    using take_slot_ok [OF ok [unfolded b]] False by (auto simp: allocate_block_def b)
next
  case True
  then obtain b where b: "reply = Some b" "fresh_block P blocks b" using r by blast
  obtain h1 P1 where n: "allocateNewBlock (Some b) (h, P) = Inr (h1, P1)" "pool_ok h1 P1 (b # blocks) slots live []"
    "pool_ok h1 (P1\<lparr>freeList := freeList P\<rparr>) (b # blocks) slots live free"
    "curSlot P1 < lastSlot P1" "freeList P1 = 0" by (rule allocateNewBlock_ok [OF ok b(2)])
  show ?thesis
    using take_slot_ok [OF n(2,4)] True n(1) b by (auto simp: allocate_block_def)
qed

lemma pool_swap: "P\<lparr>freeList := n, curSlot := x\<rparr> = P\<lparr>curSlot := x, freeList := n\<rparr>"
  by simp

text \<open>The same while another thread is about to store \<open>n\<close> to \<open>freeList_\<close>: a new block does not touch that list.\<close>

lemma allocate_block_pending:
  assumes ok: "pool_ok h (P\<lparr>freeList := n\<rparr>) blocks slots live free"
    and r: "lastSlot P \<le> curSlot P \<Longrightarrow> \<exists>b. reply = Some b \<and> fresh_block P blocks b"
  shows "\<exists>a h' P'. allocate_block reply (h, P) = Inr (a, h', P') \<and> a \<notin> slots \<and>
    pool_ok h' (P'\<lparr>freeList := n\<rparr>) (if lastSlot P \<le> curSlot P then the reply # blocks else blocks) (insert a slots) (insert a live) free"
proof (cases "lastSlot P \<le> curSlot P")
  case False
  let ?Q = "P\<lparr>freeList := n\<rparr>"
  obtain b bs where b: "blocks = b # bs" using ok False by (cases blocks) (auto simp: pool_ok_freeList current_ok_def)
  have "curSlot ?Q < lastSlot ?Q" using False by simp
  from take_slot_ok [OF ok [unfolded b] this] False show ?thesis by (simp add: allocate_block_def b pool_swap)
next
  case True
  then obtain b where b: "reply = Some b" "fresh_block P blocks b" using r by blast
  then have fb: "fresh_block (P\<lparr>freeList := n\<rparr>) blocks b" by (simp add: fresh_block_def)
  obtain h1 P1 where q: "allocateNewBlock (Some b) (h, P\<lparr>freeList := n\<rparr>) = Inr (h1, P1)" "pool_ok h1 P1 (b # blocks) slots live []"
    "pool_ok h1 (P1\<lparr>freeList := freeList (P\<lparr>freeList := n\<rparr>)\<rparr>) (b # blocks) slots live free"
    "curSlot P1 < lastSlot P1" "freeList P1 = 0" by (rule allocateNewBlock_ok [OF ok fb])
  have e: "allocateNewBlock (Some b) (h, P) = Inr (h1, P1)"
    using q(1) by (simp add: allocateNewBlock_def Let_def bind_r_Inr_iff)
  have lt: "curSlot (P1\<lparr>freeList := n\<rparr>) < lastSlot (P1\<lparr>freeList := n\<rparr>)" using q(4) by simp
  from take_slot_ok [OF q(3) [simplified] lt] True e b show ?thesis by (simp add: allocate_block_def pool_swap)
qed

lemma allocate_block_freeList: "allocate_block reply (h, P) = Inr (a, h', P') \<Longrightarrow> freeList P' \<in> {freeList P, 0}"
  by (auto simp: allocate_block_def allocateNewBlock_def bind_r_Inr_iff Let_def split: if_splits option.splits)

section \<open>Runs\<close>

text \<open>
  A pool in use: besides its heap and members, the slots in use, all slots handed out so far, the
  blocks owned, and where the thread that holds \<open>mutexForFreeList_\<close> stands: in \<open>allocate\<close> behind its test of
  \<open>freeList_\<close>, behind the copy to \<open>temp\<close>, behind the read of \<open>freeList_->next\<close>; in \<open>deallocate\<close> behind the
  store to \<open>next\<close>.
\<close>

datatype free_section = FIdle | FChecked | FTemp nat | FNext nat nat | FLinked nat

record pool_state =
  pheap :: heap
  pcore :: MemoryPool
  plive :: "nat list"
  phanded :: "nat list"
  powned :: "nat list"
  psec :: free_section

text \<open>
  Whole calls and sections, as one thread makes them, and writes to memory: the program writes to slots
  it holds, and to memory outside the pool.
\<close>

datatype call_op = CallPop | CallTake "nat option" | CallGive nat | CallWrite nat nat

fun call_step :: "call_op \<Rightarrow> pool_state \<Rightarrow> pool_state result" where
  "call_step CallPop s =
     (case allocate_free (pheap s, pcore s) of
        (None, h, P) \<Rightarrow> Inr (s\<lparr>pheap := h, pcore := P\<rparr>)
      | (Some a, h, P) \<Rightarrow> Inr (s\<lparr>pheap := h, pcore := P, plive := a # plive s\<rparr>))"
| "call_step (CallTake reply) s =
     bind_r (allocate_block reply (pheap s, pcore s)) (\<lambda>(a, h, P).
       Inr (s\<lparr>pheap := h, pcore := P, plive := a # plive s, phanded := a # phanded s,
              powned := (if lastSlot (pcore s) \<le> curSlot (pcore s) then the reply # powned s else powned s)\<rparr>))"
| "call_step (CallGive a) s =
     (let (h, P) = deallocate a (pheap s, pcore s) in Inr (s\<lparr>pheap := h, pcore := P, plive := remove1 a (plive s)\<rparr>))"
| "call_step (CallWrite x v) s = Inr (s\<lparr>pheap := (pheap s)(x := v)\<rparr>)"

fun call_allowed :: "call_op \<Rightarrow> pool_state \<Rightarrow> bool" where
  "call_allowed CallPop s \<longleftrightarrow> True"
| "call_allowed (CallTake reply) s \<longleftrightarrow> (lastSlot (pcore s) \<le> curSlot (pcore s) \<longrightarrow>
     (case reply of None \<Rightarrow> False | Some b \<Rightarrow> fresh_block (pcore s) (powned s) b))"
| "call_allowed (CallGive a) s \<longleftrightarrow> a \<in> set (plive s)"
| "call_allowed (CallWrite x v) s \<longleftrightarrow>
     (\<exists>a\<in>set (plive s). a \<le> x \<and> x < a + SlotSize (pcore s)) \<or> (\<forall>b\<in>set (powned s). x < b \<or> b + BlockSize (pcore s) \<le> x)"

definition pool_start :: "heap \<Rightarrow> nat \<Rightarrow> pool_state" where
  "pool_start h bytes = \<lparr>pheap = h, pcore = MemoryPool_init bytes (MemoryPool_new 4096), plive = [], phanded = [], powned = [], psec = FIdle\<rparr>"

text \<open>The same with whole calls of \<open>allocate\<close>, as one thread makes them.\<close>

definition allocate_step :: "nat option \<Rightarrow> pool_state \<Rightarrow> pool_state result" where
  "allocate_step reply s = (if freeList (pcore s) \<noteq> 0 then call_step CallPop s else call_step (CallTake reply) s)"

definition seq_trans :: "pool_state \<Rightarrow> pool_state \<Rightarrow> bool" where
  "seq_trans s t \<longleftrightarrow>
     (\<exists>reply. (freeList (pcore s) = 0 \<longrightarrow> call_allowed (CallTake reply) s) \<and> allocate_step reply s = Inr t) \<or>
     (\<exists>a. call_allowed (CallGive a) s \<and> call_step (CallGive a) s = Inr t) \<or>
     (\<exists>x v. call_allowed (CallWrite x v) s \<and> call_step (CallWrite x v) s = Inr t)"

definition seq_inv :: "nat \<Rightarrow> pool_state \<Rightarrow> bool" where
  "seq_inv bytes s \<longleftrightarrow> (\<exists>free. pool_ok (pheap s) (pcore s) (powned s) (set (phanded s)) (set (plive s)) free \<and>
       set (phanded s) = set (plive s) \<union> set free) \<and>
     distinct (plive s) \<and> SlotSize (pcore s) = bytes \<and> BlockSize (pcore s) = 4096"

lemma sizes_kept:
  "allocate_block reply (h, P) = Inr (a, h', P') \<Longrightarrow> SlotSize P' = SlotSize P \<and> BlockSize P' = BlockSize P"
  "allocate_free (h, P) = (r, h', P') \<Longrightarrow> SlotSize P' = SlotSize P \<and> BlockSize P' = BlockSize P"
  "deallocate a (h, P) = (h', P') \<Longrightarrow> SlotSize P' = SlotSize P \<and> BlockSize P' = BlockSize P"
  by (auto simp: allocate_block_def allocateNewBlock_def allocate_free_def deallocate_def bind_r_Inr_iff Let_def
      split: if_splits option.splits)

text \<open>One step from a state with a known free list.\<close>

lemma call_step_Pop:
  assumes ok: "pool_ok (pheap s) (pcore s) (powned s) slots (set (plive s)) free" and d: "distinct (plive s)"
  obtains t free' where "call_step CallPop s = Inr t" "pool_ok (pheap t) (pcore t) (powned t) slots (set (plive t)) free'"
    "distinct (plive t)" "phanded t = phanded s" "SlotSize (pcore t) = SlotSize (pcore s)" "BlockSize (pcore t) = BlockSize (pcore s)"
    "set (plive t) \<union> set free' = set (plive s) \<union> set free"
proof (cases free)
  case Nil
  then show thesis using that [of s free] allocate_free_ok [OF ok] ok d by simp
next
  case (Cons a as)
  then have e: "allocate_free (pheap s, pcore s) = (Some a, pheap s, (pcore s)\<lparr>freeList := pheap s a\<rparr>)"
    "pool_ok (pheap s) ((pcore s)\<lparr>freeList := pheap s a\<rparr>) (powned s) slots (insert a (set (plive s))) as"
    using allocate_free_ok [OF ok] by simp_all
  have "a \<notin> set (plive s)" using ok Cons by (auto simp: pool_ok_def free_ok_def)
  then show thesis
    using that [of "s\<lparr>pcore := (pcore s)\<lparr>freeList := pheap s a\<rparr>, plive := a # plive s\<rparr>" as] e d Cons by simp
qed

lemma call_step_Take:
  assumes ok: "pool_ok (pheap s) (pcore s) (powned s) (set (phanded s)) (set (plive s)) free" and d: "distinct (plive s)"
    and al: "call_allowed (CallTake reply) s"
  obtains t free' where "call_step (CallTake reply) s = Inr t"
    "pool_ok (pheap t) (pcore t) (powned t) (set (phanded t)) (set (plive t)) free'"
    "distinct (plive t)" "SlotSize (pcore t) = SlotSize (pcore s)" "BlockSize (pcore t) = BlockSize (pcore s)"
    "\<exists>a. phanded t = a # phanded s \<and> plive t = a # plive s"
proof -
  have r: "\<exists>b. reply = Some b \<and> fresh_block (pcore s) (powned s) b" if "lastSlot (pcore s) \<le> curSlot (pcore s)"
    using al that by (cases reply) auto
  from allocate_block_ok [OF ok r] obtain a h' P' free' where
    a: "allocate_block reply (pheap s, pcore s) = Inr (a, h', P')" "a \<notin> set (phanded s)"
    "pool_ok h' P' (if lastSlot (pcore s) \<le> curSlot (pcore s) then the reply # powned s else powned s)
       (insert a (set (phanded s))) (insert a (set (plive s))) free'" by blast
  moreover have "a \<notin> set (plive s)" using ok a(2) by (auto simp: pool_ok_def free_ok_def)
  ultimately show thesis
    using that [of "s\<lparr>pheap := h', pcore := P', plive := a # plive s, phanded := a # phanded s,
      powned := (if lastSlot (pcore s) \<le> curSlot (pcore s) then the reply # powned s else powned s)\<rparr>" free'] d
      sizes_kept(1) [OF a(1)] by simp
qed

lemma call_step_Give:
  assumes ok: "pool_ok (pheap s) (pcore s) (powned s) slots (set (plive s)) free" and d: "distinct (plive s)"
    and al: "a \<in> set (plive s)"
  obtains t where "call_step (CallGive a) s = Inr t" "pool_ok (pheap t) (pcore t) (powned t) slots (set (plive t)) (a # free)"
    "distinct (plive t)" "phanded t = phanded s" "SlotSize (pcore t) = SlotSize (pcore s)" "BlockSize (pcore t) = BlockSize (pcore s)"
    "set (plive t) = set (plive s) - {a}"
proof -
  obtain h' P' where e: "deallocate a (pheap s, pcore s) = (h', P')" by fastforce
  show thesis
    using that [of "s\<lparr>pheap := h', pcore := P', plive := remove1 a (plive s)\<rparr>"] deallocate_ok [OF ok al e]
      sizes_kept(3) [OF e] e d by simp
qed

lemma call_step_Write:
  assumes ok: "pool_ok (pheap s) (pcore s) (powned s) slots (set (plive s)) free" and al: "call_allowed (CallWrite x v) s"
  shows "pool_ok ((pheap s)(x := v)) (pcore s) (powned s) slots (set (plive s)) free"
proof -
  note D = ok [unfolded pool_ok_def]
  let ?s = "SlotSize (pcore s)" let ?B = "BlockSize (pcore s)"
  from D have sh: "0 < ?s" "?s \<le> ?B" "0 < ?B" by (auto simp: shape_ok_def sizeof_Slot_def)
  have slot: "\<exists>b\<in>set (powned s). b < a \<and> a + ?s \<le> b + ?B" if "a \<in> slots" for a
  proof -
    from that D obtain b where "b \<in> set (powned s)" "in_block (pcore s) b a" unfolding slots_ok_def by blast
    then show ?thesis by (intro bexI [of _ b]) (auto simp: in_block_def sizeof_Slot_def)
  qed
  have fs: "set free \<subseteq> slots" "set (plive s) \<subseteq> slots" "set (plive s) \<inter> set free = {}" using D by (auto simp: free_ok_def)
  have "x \<notin> set (powned s) \<and> x \<notin> set free"
  proof (cases "\<exists>a\<in>set (plive s). a \<le> x \<and> x < a + ?s")
    case True
    then obtain a where a: "a \<in> set (plive s)" "a \<le> x" "x < a + ?s" by blast
    then have as: "a \<in> slots" using fs by auto
    then obtain b where b: "b \<in> set (powned s)" "b < a" "a + ?s \<le> b + ?B" using slot by blast
    have "x \<notin> set (powned s)"
    proof
      assume x: "x \<in> set (powned s)"
      have "x \<noteq> b" using a(2) b(2) by simp
      then have "apart ?B x b" using D x b(1) by (auto simp: blocks_ok_def)
      then show False using a b by (simp add: apart_def)
    qed
    moreover have "x \<notin> set free"
    proof
      assume x: "x \<in> set free"
      then have "a \<noteq> x" "x \<in> slots" using a(1) fs by auto
      then have "apart ?s a x" using D as unfolding slots_ok_def by blast
      then show False using a sh by (simp add: apart_def)
    qed
    ultimately show ?thesis by simp
  next
    case False
    then have out: "\<forall>b\<in>set (powned s). x < b \<or> b + ?B \<le> x" using al unfolding call_allowed.simps by blast
    then have "x \<notin> set (powned s)" using sh by fastforce
    moreover have "x \<notin> slots" using slot [of x] out sh by fastforce
    ultimately show ?thesis using fs by auto
  qed
  then show ?thesis using pool_ok_write [OF ok] by blast
qed

text \<open>The invariants of the interleaved and of the sequential pool.\<close>

lemma pool_start_ok:
  "8 dvd bytes \<Longrightarrow> 0 < bytes \<Longrightarrow> bytes \<le> MAX_SLOT_SIZE \<Longrightarrow>
   pool_ok h (MemoryPool_init bytes (MemoryPool_new 4096)) [] {} {} []"
  by (simp add: pool_ok_defs MemoryPool_init_def MemoryPool_new_def sizeof_Slot_def pool_consts)

lemma seq_step_inv:
  assumes inv: "seq_inv bytes s" and st: "seq_trans s t"
  shows "seq_inv bytes t"
proof -
  from inv obtain free where ok: "pool_ok (pheap s) (pcore s) (powned s) (set (phanded s)) (set (plive s)) free"
    and all: "set (phanded s) = set (plive s) \<union> set free"
    and d: "distinct (plive s)" and b: "SlotSize (pcore s) = bytes" "BlockSize (pcore s) = 4096" by (auto simp: seq_inv_def)
  have fl: "freeList (pcore s) = 0 \<longleftrightarrow> free = []" using ok by (cases free) (auto simp: pool_ok_def free_ok_def)
  from st consider (pop) "freeList (pcore s) \<noteq> 0" "call_step CallPop s = Inr t"
    | (take_slot) reply where "freeList (pcore s) = 0" "call_allowed (CallTake reply) s" "call_step (CallTake reply) s = Inr t"
    | (give) a where "a \<in> set (plive s)" "call_step (CallGive a) s = Inr t"
    | (wr) x v where "call_allowed (CallWrite x v) s" "call_step (CallWrite x v) s = Inr t"
    unfolding seq_trans_def allocate_step_def by (auto split: if_splits)
  then show ?thesis
  proof cases
    case pop
    show ?thesis by (rule call_step_Pop [OF ok d]) (use pop b all in \<open>auto simp: seq_inv_def\<close>)
  next
    case take_slot
    obtain free' a where t: "pool_ok (pheap t) (pcore t) (powned t) (set (phanded t)) (set (plive t)) free'" "distinct (plive t)"
      "SlotSize (pcore t) = bytes" "BlockSize (pcore t) = 4096" "phanded t = a # phanded s" "plive t = a # plive s"
      by (rule call_step_Take [OF ok d take_slot(2)]) (use take_slot(3) b in auto)
    have "set free' \<subseteq> set (plive t)" "set (plive t) \<inter> set free' = {}"
      using t all fl take_slot(1) by (auto simp: pool_ok_def free_ok_def)
    then have "free' = []" by (cases free') auto
    then show ?thesis using t all fl take_slot(1) by (auto simp: seq_inv_def)
  next
    case give
    show ?thesis by (rule call_step_Give [OF ok d give(1)]) (use give b all in \<open>auto simp: seq_inv_def\<close>)
  next
    case wr
    have "t = s\<lparr>pheap := (pheap s)(x := v)\<rparr>" using wr(2) by simp
    then show ?thesis using call_step_Write [OF ok wr(1)] b d all by (auto simp: seq_inv_def)
  qed
qed

definition slot_class :: "nat \<Rightarrow> bool" where
  "slot_class bytes \<longleftrightarrow> 8 dvd bytes \<and> 0 < bytes \<and> bytes \<le> MAX_SLOT_SIZE"

lemma seq_start_inv: "slot_class bytes \<Longrightarrow> seq_inv bytes (pool_start h bytes)"
  unfolding seq_inv_def slot_class_def
  by (intro conjI exI [of _ "[]"]) (simp_all add: pool_start_ok pool_start_def, simp_all add: MemoryPool_init_def MemoryPool_new_def)

interpretation seqpool: invariant_system "\<lambda>s. \<exists>h. slot_class bytes \<and> s = pool_start h bytes" seq_trans "seq_inv bytes" for bytes
proof
  fix s assume "\<exists>h. slot_class bytes \<and> s = pool_start h bytes"
  then show "seq_inv bytes s"
    using seq_start_inv by blast
next
  fix s t assume "seq_inv bytes s" "seq_trans s t"
  then show "seq_inv bytes t" by (rule seq_step_inv)
qed

section \<open>Interleavings\<close>

text \<open>
  The steps of several threads: the accesses to \<open>freeList_\<close> of the thread that holds \<open>mutexForFreeList_\<close>, the
  section of another thread under \<open>mutexForBlock_\<close> as one step (of the shared members only its clearing
  of \<open>freeList_\<close> meets the other mutex), and writes to memory. \<open>freeList_->next\<close> of a null pointer is the
  error \<open>NullDeref\<close>.
\<close>

datatype pool_op = PopTest | PopTemp | PopNext | PopStore | TakeSlot "nat option" | LinkFree nat | StoreFree | WriteWord nat nat

fun pool_step :: "pool_op \<Rightarrow> pool_state \<Rightarrow> pool_state result" where
  "pool_step PopTest s = Inr (if freeList (pcore s) \<noteq> 0 then s\<lparr>psec := FChecked\<rparr> else s)"
| "pool_step PopTemp s = Inr (s\<lparr>psec := FTemp (freeList (pcore s))\<rparr>)"
| "pool_step PopNext s =
     (case psec s of
        FTemp temp \<Rightarrow>
          if freeList (pcore s) = 0 then Inl NullDeref
          else Inr (s\<lparr>psec := FNext temp (pheap s (freeList (pcore s)))\<rparr>)
      | _ \<Rightarrow> Inr s)"
| "pool_step PopStore s =
     (case psec s of
        FNext temp n \<Rightarrow> Inr (s\<lparr>pcore := (pcore s)\<lparr>freeList := n\<rparr>, plive := temp # plive s, psec := FIdle\<rparr>)
      | _ \<Rightarrow> Inr s)"
| "pool_step (TakeSlot reply) s =
     bind_r (allocate_block reply (pheap s, pcore s)) (\<lambda>(a, h, P).
       Inr (s\<lparr>pheap := h, pcore := P, plive := a # plive s, phanded := a # phanded s,
              powned := (if lastSlot (pcore s) \<le> curSlot (pcore s) then the reply # powned s else powned s)\<rparr>))"
| "pool_step (LinkFree a) s =
     Inr (s\<lparr>pheap := (pheap s)(a := freeList (pcore s)), plive := remove1 a (plive s), psec := FLinked a\<rparr>)"
| "pool_step StoreFree s =
     (case psec s of
        FLinked a \<Rightarrow> Inr (s\<lparr>pcore := (pcore s)\<lparr>freeList := a\<rparr>, psec := FIdle\<rparr>)
      | _ \<Rightarrow> Inr s)"
| "pool_step (WriteWord x v) s = Inr (s\<lparr>pheap := (pheap s)(x := v)\<rparr>)"

fun pool_allowed :: "pool_op \<Rightarrow> pool_state \<Rightarrow> bool" where
  "pool_allowed PopTest s \<longleftrightarrow> psec s = FIdle"
| "pool_allowed PopTemp s \<longleftrightarrow> psec s = FChecked"
| "pool_allowed PopNext s \<longleftrightarrow> (case psec s of FTemp _ \<Rightarrow> True | _ \<Rightarrow> False)"
| "pool_allowed PopStore s \<longleftrightarrow> (case psec s of FNext _ _ \<Rightarrow> True | _ \<Rightarrow> False)"
| "pool_allowed (TakeSlot reply) s \<longleftrightarrow> call_allowed (CallTake reply) s"
| "pool_allowed (LinkFree a) s \<longleftrightarrow> psec s = FIdle \<and> a \<in> set (plive s)"
| "pool_allowed StoreFree s \<longleftrightarrow> (case psec s of FLinked _ \<Rightarrow> True | _ \<Rightarrow> False)"
| "pool_allowed (WriteWord x v) s \<longleftrightarrow> call_allowed (CallWrite x v) s"

definition pool_trans :: "pool_state \<Rightarrow> pool_state \<Rightarrow> bool" where
  "pool_trans s t \<longleftrightarrow> (\<exists>oper. pool_allowed oper s \<and> pool_step oper s = Inr t)"

text \<open>Without interruption the accesses are the section of \<open>allocate\<close> and the call of \<open>deallocate\<close>.\<close>

lemma pop_uninterrupted:
  assumes "psec s = FIdle"
  shows "(if freeList (pcore s) = 0 then pool_step PopTest s
     else bind_r (pool_step PopTest s) (\<lambda>s1. bind_r (pool_step PopTemp s1) (\<lambda>s2. bind_r (pool_step PopNext s2) (pool_step PopStore)))) =
   call_step CallPop s"
  using assms by (cases s) (simp add: allocate_free_def)

lemma free_uninterrupted:
  assumes "psec s = FIdle" "a \<noteq> 0"
  shows "bind_r (pool_step (LinkFree a) s) (pool_step StoreFree) = call_step (CallGive a) s"
  using assms by (cases s) (simp add: deallocate_def)

text \<open>The pool and the slots in use as they will be when the pending store to \<open>freeList_\<close> has been made.\<close>

definition settled_core :: "pool_state \<Rightarrow> MemoryPool" where
  "settled_core s =
     (case psec s of FNext _ n \<Rightarrow> (pcore s)\<lparr>freeList := n\<rparr> | FLinked a \<Rightarrow> (pcore s)\<lparr>freeList := a\<rparr> | _ \<Rightarrow> pcore s)"

definition settled_live :: "pool_state \<Rightarrow> nat list" where
  "settled_live s = (case psec s of FNext a _ \<Rightarrow> a # plive s | _ \<Rightarrow> plive s)"

lemmas settled_defs = settled_core_def settled_live_def

definition pool_inv :: "nat \<Rightarrow> pool_state \<Rightarrow> bool" where
  "pool_inv bytes s \<longleftrightarrow>
     (\<exists>free. pool_ok (pheap s) (settled_core s) (powned s) (set (phanded s)) (set (settled_live s)) free) \<and>
     distinct (settled_live s) \<and> SlotSize (pcore s) = bytes \<and> BlockSize (pcore s) = 4096 \<and>
     (\<forall>a. psec s = FTemp a \<longrightarrow> freeList (pcore s) \<in> {a, 0})"

lemma pool_invE:
  assumes "pool_inv bytes s"
  obtains free where "pool_ok (pheap s) (settled_core s) (powned s) (set (phanded s)) (set (settled_live s)) free"
    "distinct (settled_live s)" "SlotSize (pcore s) = bytes" "BlockSize (pcore s) = 4096"
    "\<And>a. psec s = FTemp a \<Longrightarrow> freeList (pcore s) = a \<or> freeList (pcore s) = 0"
  using assms unfolding pool_inv_def by blast

text \<open>The settled state is the state in itself when no store is pending, and in general up to \<open>freeList_\<close>.\<close>

lemma settled_core_freeList: "(\<exists>n. settled_core s = (pcore s)\<lparr>freeList := n\<rparr>)"
  by (auto simp: settled_core_def split: free_section.splits) (cases "pcore s", auto)+

lemma pool_step_PopNext:
  assumes inv: "pool_inv bytes s" and p: "psec s = FTemp a" "freeList (pcore s) \<noteq> 0"
  shows "\<exists>t. pool_step PopNext s = Inr t \<and> pool_inv bytes t"
proof -
  from inv obtain free where ok: "pool_ok (pheap s) (pcore s) (powned s) (set (phanded s)) (set (plive s)) free"
    and d: "distinct (plive s)" "SlotSize (pcore s) = bytes" "BlockSize (pcore s) = 4096" "freeList (pcore s) = a"
    using p by (auto simp: pool_inv_def settled_defs)
  then obtain as where as: "free = a # as"
    using p(2) chain_nonzero [of "pheap s" "freeList (pcore s)" free] by (auto simp: pool_ok_def free_ok_def)
  have "pool_ok (pheap s) ((pcore s)\<lparr>freeList := pheap s a\<rparr>) (powned s) (set (phanded s)) (insert a (set (plive s))) as"
    using allocate_free_ok [OF ok] as by simp
  moreover have "a \<notin> set (plive s)" using ok as by (auto simp: pool_ok_def free_ok_def)
  ultimately show ?thesis using p d by (auto simp: pool_inv_def settled_defs)
qed

lemma pool_step_Take:
  assumes inv: "pool_inv bytes s" and al: "pool_allowed (TakeSlot reply) s"
  shows "\<exists>t. pool_step (TakeSlot reply) s = Inr t \<and> pool_inv bytes t"
proof -
  from inv obtain free where ok: "pool_ok (pheap s) (settled_core s) (powned s) (set (phanded s)) (set (settled_live s)) free"
    and d: "distinct (settled_live s)" and b: "SlotSize (pcore s) = bytes" "BlockSize (pcore s) = 4096"
    and ft: "\<And>a. psec s = FTemp a \<Longrightarrow> freeList (pcore s) = a \<or> freeList (pcore s) = 0" by (rule pool_invE) blast
  have r: "\<exists>b. reply = Some b \<and> fresh_block (pcore s) (powned s) b" if "lastSlot (pcore s) \<le> curSlot (pcore s)"
    using al that by (cases reply) auto
  let ?bl = "if lastSlot (pcore s) \<le> curSlot (pcore s) then the reply # powned s else powned s"
  obtain a h P free' where a: "allocate_block reply (pheap s, pcore s) = Inr (a, h, P)" "a \<notin> set (phanded s)"
    "pool_ok h (settled_core (s\<lparr>pcore := P\<rparr>)) ?bl (insert a (set (phanded s))) (insert a (set (settled_live s))) free'"
  proof (cases "settled_core s = pcore s \<and> (\<forall>P. settled_core (s\<lparr>pcore := P\<rparr>) = P)")
    case True
    with allocate_block_ok [OF _ r, of "pheap s" "set (phanded s)" "set (settled_live s)" free] ok that show thesis by auto
  next
    case False
    then obtain n where n: "\<And>P. settled_core (s\<lparr>pcore := P\<rparr>) = P\<lparr>freeList := n\<rparr>"
      by (auto simp: settled_core_def split: free_section.splits)
    have "settled_core s = (pcore s)\<lparr>freeList := n\<rparr>" using n [of "pcore s"] by simp
    with allocate_block_pending [OF _ r, of "pheap s" n "set (phanded s)" "set (settled_live s)" free] ok that n show thesis by auto
  qed
  let ?t = "s\<lparr>pheap := h, pcore := P, plive := a # plive s, phanded := a # phanded s, powned := ?bl\<rparr>"
  have sc: "settled_core ?t = settled_core (s\<lparr>pcore := P\<rparr>)" "set (settled_live ?t) = insert a (set (settled_live s))"
    by (auto simp: settled_defs split: free_section.splits)
  have "a \<notin> set (settled_live s)" using ok a(2) by (auto simp: pool_ok_def free_ok_def)
  then have "distinct (settled_live ?t)" using d by (auto simp: settled_live_def split: free_section.splits)
  moreover have "\<forall>x. psec ?t = FTemp x \<longrightarrow> freeList (pcore ?t) \<in> {x, 0}"
    using ft allocate_block_freeList [OF a(1)] by auto
  moreover have "pool_ok (pheap ?t) (settled_core ?t) (powned ?t) (set (phanded ?t)) (set (settled_live ?t)) free'"
    unfolding sc using a(3) by simp
  ultimately have "pool_inv bytes ?t" unfolding pool_inv_def using b sizes_kept(1) [OF a(1)] by (intro conjI exI [of _ free']) simp_all
  then show ?thesis using a(1) by simp
qed

lemma pool_step_Link:
  assumes inv: "pool_inv bytes s" and al: "psec s = FIdle" "a \<in> set (plive s)"
  shows "\<exists>t. pool_step (LinkFree a) s = Inr t \<and> pool_inv bytes t"
proof -
  from inv obtain free where ok: "pool_ok (pheap s) (pcore s) (powned s) (set (phanded s)) (set (plive s)) free"
    and d: "distinct (plive s)" "SlotSize (pcore s) = bytes" "BlockSize (pcore s) = 4096"
    using al by (auto simp: pool_inv_def settled_defs)
  have "a \<in> set (phanded s)" using ok al(2) by (auto simp: pool_ok_def free_ok_def)
  then have "a \<noteq> 0" using slot_not_header(2) ok by (auto simp: pool_ok_def)
  then have "deallocate a (pheap s, pcore s) = ((pheap s)(a := freeList (pcore s)), (pcore s)\<lparr>freeList := a\<rparr>)"
    by (simp add: deallocate_def)
  from deallocate_ok [OF ok al(2) this] d show ?thesis by (auto simp: pool_inv_def settled_defs)
qed

lemma pool_step_Write:
  assumes inv: "pool_inv bytes s" and al: "pool_allowed (WriteWord x v) s"
  shows "pool_inv bytes (s\<lparr>pheap := (pheap s)(x := v)\<rparr>)"
proof -
  from inv obtain free where ok: "pool_ok (pheap s) (settled_core s) (powned s) (set (phanded s)) (set (settled_live s)) free"
    and d: "distinct (settled_live s)" "SlotSize (pcore s) = bytes" "BlockSize (pcore s) = 4096"
      "\<And>a. psec s = FTemp a \<Longrightarrow> freeList (pcore s) = a \<or> freeList (pcore s) = 0" by (rule pool_invE) blast
  let ?s = "s\<lparr>pcore := settled_core s, plive := settled_live s\<rparr>"
  have "SlotSize (settled_core s) = SlotSize (pcore s)" "BlockSize (settled_core s) = BlockSize (pcore s)"
    "set (plive s) \<subseteq> set (settled_live s)" by (auto simp: settled_defs split: free_section.splits)
  then have "call_allowed (CallWrite x v) ?s" using al by auto
  from call_step_Write [OF _ this, of "set (phanded s)" free] ok
  have "pool_ok ((pheap s)(x := v)) (settled_core s) (powned s) (set (phanded s)) (set (settled_live s)) free" by simp
  moreover have "settled_core (s\<lparr>pheap := (pheap s)(x := v)\<rparr>) = settled_core s" "settled_live (s\<lparr>pheap := (pheap s)(x := v)\<rparr>) = settled_live s"
    by (cases "psec s"; simp add: settled_defs)+
  ultimately show ?thesis unfolding pool_inv_def using d by auto
qed

text \<open>Every allowed step keeps the invariant, and only the read through a cleared \<open>freeList_\<close> fails.\<close>

lemma pool_step_inv:
  assumes inv: "pool_inv bytes s" and al: "pool_allowed oper s"
  shows "if oper = PopNext \<and> freeList (pcore s) = 0 then pool_step oper s = Inl NullDeref
    else \<exists>t. pool_step oper s = Inr t \<and> pool_inv bytes t"
proof (cases oper)
  case PopTest
  then show ?thesis using inv al by (auto simp: pool_inv_def settled_defs)
next
  case PopTemp
  then show ?thesis using inv al by (auto simp: pool_inv_def settled_defs)
next
  case PopNext
  then obtain a where "psec s = FTemp a" using al by (auto split: free_section.splits)
  then show ?thesis using PopNext pool_step_PopNext [OF inv] by auto
next
  case PopStore
  then show ?thesis using inv al by (auto simp: pool_inv_def settled_defs split: free_section.splits)
next
  case (TakeSlot reply)
  then show ?thesis using pool_step_Take [OF inv] al by (simp del: pool_step.simps pool_allowed.simps)
next
  case (LinkFree a)
  then show ?thesis using pool_step_Link [OF inv] al by simp
next
  case StoreFree
  then show ?thesis using inv al by (auto simp: pool_inv_def settled_defs split: free_section.splits)
next
  case (WriteWord x v)
  then show ?thesis using pool_step_Write [OF inv] al by (simp del: pool_allowed.simps)
qed

lemma pool_start_inv: "slot_class bytes \<Longrightarrow> pool_inv bytes (pool_start h bytes)"
  unfolding pool_inv_def slot_class_def
  by (intro conjI exI [of _ "[]"])
    (simp_all add: pool_start_ok pool_start_def settled_defs, simp_all add: MemoryPool_init_def MemoryPool_new_def)

interpretation pool: invariant_system "\<lambda>s. \<exists>h. slot_class bytes \<and> s = pool_start h bytes" pool_trans "pool_inv bytes" for bytes
proof (unfold_locales, goal_cases)
  case (1 s)
  then show ?case using pool_start_inv by blast
next
  case (2 s t)
  then obtain oper where "pool_allowed oper s" "pool_step oper s = Inr t" by (auto simp: pool_trans_def)
  then show ?case using pool_step_inv [OF 2(1), of oper] by (auto split: if_splits)
qed

lemma reachable_pool_inv:
  assumes "slot_class bytes" "reachable (\<lambda>s. s = pool_start h bytes) pool_trans s"
  shows "pool_inv bytes s"
proof -
  from assms(2) have "reachable (\<lambda>s. \<exists>h. slot_class bytes \<and> s = pool_start h bytes) pool_trans s"
    by (induction rule: reachable.induct) (use assms(1) in \<open>auto intro: reachable.intros\<close>)
  then show ?thesis by (rule pool.reachable_inv)
qed

lemma ball_subset: "A \<subseteq> B \<Longrightarrow> \<forall>x\<in>B. Q x \<Longrightarrow> \<forall>x\<in>A. Q x"
  by blast

section \<open>Properties\<close>

text \<open>C6: Slots in use never overlap, in every interleaving of the accesses of any number of threads that
  allocate, free and write: in every reachable state the slots in use are aligned, lie in blocks of the
  pool behind their headers, and are pairwise disjoint. Every allowed step succeeds but one: a thread in
  \<open>allocate\<close> that has found \<open>freeList_\<close> not null dereferences a null pointer when another thread has
  cleared it meanwhile.\<close>

theorem pool_slots_disjoint:
  assumes "slot_class bytes" "reachable (\<lambda>s. s = pool_start h bytes) pool_trans s"
  shows "(pool_allowed oper s \<longrightarrow> (if oper = PopNext \<and> freeList (pcore s) = 0 then pool_step oper s = Inl NullDeref
      else \<exists>t. pool_step oper s = Inr t)) \<and> distinct (plive s) \<and>
    (\<forall>a\<in>set (plive s). 8 dvd a \<and> (\<exists>b\<in>set (powned s). b + 8 \<le> a \<and> a + bytes \<le> b + 4096)) \<and>
    (\<forall>a\<in>set (plive s). \<forall>a'\<in>set (plive s). a \<noteq> a' \<longrightarrow> a + bytes \<le> a' \<or> a' + bytes \<le> a)"
proof -
  have inv: "pool_inv bytes s" by (rule reachable_pool_inv [OF assms])
  then obtain free where ok: "pool_ok (pheap s) (settled_core s) (powned s) (set (phanded s)) (set (settled_live s)) free"
    and d: "distinct (settled_live s)" and b: "SlotSize (pcore s) = bytes" "BlockSize (pcore s) = 4096" by (rule pool_invE) blast
  have b': "SlotSize (settled_core s) = bytes" "BlockSize (settled_core s) = 4096"
    using b by (auto simp: settled_core_def split: free_section.splits)
  have sub: "set (plive s) \<subseteq> set (phanded s)" "distinct (plive s)"
    using ok d by (auto simp: pool_ok_def free_ok_def settled_live_def split: free_section.splits)
  have sl: "\<forall>a\<in>set (phanded s). 8 dvd a \<and> (\<exists>b\<in>set (powned s). b + 8 \<le> a \<and> a + bytes \<le> b + 4096)"
    "\<forall>a\<in>set (phanded s). \<forall>a'\<in>set (phanded s). a \<noteq> a' \<longrightarrow> a + bytes \<le> a' \<or> a' + bytes \<le> a"
    using ok unfolding pool_ok_def slots_ok_def in_block_def apart_def sizeof_Slot_def b' by blast+
  have step: "pool_allowed oper s \<longrightarrow> (if oper = PopNext \<and> freeList (pcore s) = 0 then pool_step oper s = Inl NullDeref
      else \<exists>t. pool_step oper s = Inr t)" using pool_step_inv [OF inv, of oper] by (auto split: if_splits)
  from ball_subset [OF sub(1) sl(1)] ball_subset [OF sub(1) sl(2)]
  have "\<forall>a\<in>set (plive s). 8 dvd a \<and> (\<exists>b\<in>set (powned s). b + 8 \<le> a \<and> a + bytes \<le> b + 4096)"
    "\<forall>a\<in>set (plive s). \<forall>a'\<in>set (plive s). a \<noteq> a' \<longrightarrow> a + bytes \<le> a' \<or> a' + bytes \<le> a"
    using sub(1) by (simp, meson subsetD)
  with step sub(2) show ?thesis by blast
qed

text \<open>The two mutexes of the pool do not exclude each other: whenever a slot is on the free list and the current
  block is used up, one thread can test \<open>freeList_\<close> in \<open>allocate\<close>, another get a new block, which clears \<open>freeList_\<close>, and
  the first then dereferences the null pointer.\<close>

lemma pool_pop_races_new_block:
  assumes "slot_class bytes" "reachable (\<lambda>s. s = pool_start h bytes) pool_trans s"
    "psec s = FIdle" "freeList (pcore s) \<noteq> 0" "lastSlot (pcore s) \<le> curSlot (pcore s)" "fresh_block (pcore s) (powned s) b"
  shows "\<exists>t. reachable (\<lambda>s. s = pool_start h bytes) pool_trans t \<and> pool_allowed PopNext t \<and> pool_step PopNext t = Inl NullDeref"
proof -
  let ?R = "reachable (\<lambda>s. s = pool_start h bytes) pool_trans"
  let ?s1 = "s\<lparr>psec := FChecked\<rparr>"
  have "pool_allowed PopTest s" "pool_step PopTest s = Inr ?s1" using assms(3,4) by simp_all
  then have r1: "?R ?s1" by (intro reachable_step [OF assms(2)]) (unfold pool_trans_def, blast)
  have al: "pool_allowed (TakeSlot (Some b)) ?s1" using assms(6) by simp
  from pool_step_Take [OF reachable_pool_inv [OF assms(1) r1] al] obtain s2 where s2: "pool_step (TakeSlot (Some b)) ?s1 = Inr s2" by blast
  with al have r2: "?R s2" by (intro reachable_step [OF r1]) (unfold pool_trans_def, blast)
  have f: "psec s2 = FChecked" "freeList (pcore s2) = 0"
    using s2 assms(5) by (auto simp: bind_r_Inr_iff allocate_block_def allocateNewBlock_def Let_def)
  let ?s3 = "s2\<lparr>psec := FTemp 0\<rparr>"
  have "pool_allowed PopTemp s2" "pool_step PopTemp s2 = Inr ?s3" using f by simp_all
  then have "?R ?s3" by (intro reachable_step [OF r2]) (unfold pool_trans_def, blast)
  then show ?thesis using f by (intro exI [of _ ?s3]) simp
qed

text \<open>C26: The destructor ends, and deletes every block the pool has obtained exactly once, whatever the
  program did with the slots before.\<close>

theorem pool_destructor_deletes_blocks:
  assumes "slot_class bytes" "reachable (\<lambda>s. s = pool_start h bytes) pool_trans s" "length (powned s) < fuel"
  shows "MemoryPool_destroy fuel (pheap s, pcore s) = Some (powned s) \<and> distinct (powned s)"
proof -
  obtain n where "settled_core s = (pcore s)\<lparr>freeList := n\<rparr>" using settled_core_freeList by blast
  then have "chain (pheap s) (firstBlock (pcore s)) (powned s)"
    using reachable_pool_inv [OF assms(1,2)] by (auto simp: pool_inv_def pool_ok_freeList blocks_ok_def)
  then show ?thesis using delete_blocks_chain [OF _ assms(3)] chain_distinct by (auto simp: MemoryPool_destroy_def)
qed

text \<open>One thread loses no memory: as long as calls of \<open>allocate\<close> are not interleaved with others, every
  slot ever handed out is in use or on the free list, never both, so a block is requested only when
  all slots are in use.\<close>

theorem sequential_pool_loses_nothing:
  assumes "slot_class bytes" "reachable (\<lambda>s. s = pool_start h bytes) seq_trans s"
  shows "\<exists>free. chain (pheap s) (freeList (pcore s)) free \<and> set (phanded s) = set (plive s) \<union> set free \<and>
    set (plive s) \<inter> set free = {} \<and> distinct free"
proof -
  from assms(2) have "reachable (\<lambda>s. \<exists>h. slot_class bytes \<and> s = pool_start h bytes) seq_trans s"
    by (induction rule: reachable.induct) (use assms(1) in \<open>auto intro: reachable.intros\<close>)
  then have "seq_inv bytes s" by (rule seqpool.reachable_inv)
  then show ?thesis by (auto simp: seq_inv_def pool_ok_def free_ok_def)
qed

text \<open>Freeing a slot and allocating gives the same slot back and restores the pool's members.\<close>

lemma allocate_deallocate:
  "a \<noteq> 0 \<Longrightarrow> allocate reply (deallocate a (h, P)) = Inr (a, h(a := freeList P), P)"
  by (simp add: allocate_def allocate_free_def deallocate_def)

text \<open>
  Interleaved calls do lose memory: when another thread frees a slot after \<open>allocate\<close> has found the
  free list empty, and the block is used up, the new block resets the free list.
\<close>

lemma new_block_drops_free_list:
  assumes "deallocate a (h, P) = (h1, P1)" "lastSlot P \<le> curSlot P" "allocate_block (Some b) (h1, P1) = Inr (c, h2, P2)"
  shows "freeList P2 = 0"
  using assms
  by (auto simp: deallocate_def allocate_block_def allocateNewBlock_def bind_r_Inr_iff Let_def split: if_splits)

text \<open>
  The padding brings an address to a multiple of the slot size only when the slot size divides
  \<open>2 ^ 64\<close>; otherwise it lands \<open>2 ^ 64 mod align\<close> behind one.
\<close>

lemma padPointer_alignment:
  assumes "0 < align" "align < p" "p < 2 ^ 64"
  shows "\<exists>k. padPointer p align = Inr k \<and> (p + k) mod align = 2 ^ 64 mod align"
proof -
  let ?d = "align + 2 ^ 64 - p"
  have d: "sz_sub align p = ?d" using assms by (simp add: sz_sub_def)
  have "(p + ?d mod align) mod align = (p + ?d) mod align" by (simp add: mod_add_right_eq)
  also have "p + ?d = 2 ^ 64 + align" using assms by simp
  finally show ?thesis using assms d by (simp add: padPointer_def)
qed

section \<open>Size classes\<close>

lemma initMemoryPool_from_nth:
  "i < length Ps \<Longrightarrow> initMemoryPool_from k Ps ! i = MemoryPool_init ((k + i + 1) * SLOT_BASE_SIZE) (Ps ! i)"
proof (induction Ps arbitrary: k i)
  case (Cons P Ps)
  then show ?case by (cases i) auto
qed simp

lemma length_initMemoryPool_from: "length (initMemoryPool_from k Ps) = length Ps"
  by (induction Ps arbitrary: k) auto

text \<open>C33: After \<open>initMemoryPool\<close> a request of 1 to 512 bytes is served by a pool of the table whose slots
  hold the request with less than 8 bytes to spare, and which is initialised for that slot size.\<close>

theorem size_class_fits:
  assumes "0 < n" "n \<le> MAX_SLOT_SIZE"
  shows "\<exists>slot. getMemoryPool (pool_index n) (initMemoryPool (HashBucket_static h)) =
      Inr (MemoryPool_init slot (MemoryPool_new 4096)) \<and> slot_class slot \<and> n \<le> slot \<and> slot < n + 8"
proof -
  have i: "pool_index n = (n + 7) div 8 - 1"
    using assms by (simp add: pool_index_def pool_consts sz_simps)
  let ?k = "(n + 7) div 8"
  have k: "1 \<le> ?k" "?k \<le> 64" "n \<le> ?k * 8" "?k * 8 < n + 8" using assms by (auto simp: pool_consts)
  have "getMemoryPool (pool_index n) (initMemoryPool (HashBucket_static h)) =
      Inr (MemoryPool_init (?k * 8) (MemoryPool_new 4096))"
    using k by (simp add: getMemoryPool_def i initMemoryPool_def HashBucket_static_def initMemoryPool_from_nth
        length_initMemoryPool_from pool_consts)
  moreover have "slot_class (?k * 8)" using k by (simp add: slot_class_def pool_consts)
  ultimately show ?thesis using k by blast
qed

text \<open>Freeing an object and asking again for the same size gives the same memory: \<open>freeMemory\<close> finds
  the pool \<open>useMemory\<close> took the memory from.\<close>

theorem free_then_use_returns_same:
  assumes "0 < n" "n \<le> MAX_SLOT_SIZE" "length (pools B) = MEMORY_POOL_NUM" "p \<noteq> 0" "freeMemory p n B = Inr (d, B1)"
  shows "d = None \<and> (\<exists>B2. useMemory reply n B1 = Inr (p, B2) \<and> pools B2 = pools B \<and> bheap B2 = bheap B1)"
proof -
  have i: "pool_index n < MEMORY_POOL_NUM"
    using assms(1,2) by (simp add: pool_index_def pool_consts sz_simps)
  let ?P = "pools B ! pool_index n"
  have B1: "d = None" "B1 = B\<lparr>bheap := (bheap B)(p := freeList ?P), pools := (pools B)[pool_index n := ?P\<lparr>freeList := p\<rparr>]\<rparr>"
    using assms i by (auto simp: freeMemory_def getMemoryPool_def deallocate_def)
  then have "getMemoryPool (pool_index n) B1 = Inr (?P\<lparr>freeList := p\<rparr>)"
    using assms(3) i by (simp add: getMemoryPool_def)
  then show ?thesis using B1 assms(1-4) by (simp add: useMemory_def allocate_def allocate_free_def)
qed

section \<open>Concrete runs\<close>

text \<open>A pool of 24-byte slots that got a block at 4096, handed out two slots and got the first one back.\<close>

definition ex_pool :: pool_state where
  "ex_pool = \<lparr>pheap = (\<lambda>_. 0),
     pcore = \<lparr>BlockSize = 4096, SlotSize = 24, firstBlock = 4096, curSlot = 4168, freeList = 4120, lastSlot = 8169\<rparr>,
     plive = [4144], phanded = [4144, 4120], powned = [4096], psec = FIdle\<rparr>"

lemmas pool_eval = pool_start_def MemoryPool_init_def MemoryPool_new_def allocate_block_def allocateNewBlock_def Let_def padPointer_def
  sz_sub_def sz_add_def sizeof_Slot_def deallocate_def fresh_block_def ptrdiff_max_def allocate_free_def

definition ex_pool1 :: pool_state where
  "ex_pool1 = (case pool_step (TakeSlot (Some 4096)) (pool_start (\<lambda>_. 0) 24) of Inr t \<Rightarrow> t | Inl _ \<Rightarrow> ex_pool)"

definition ex_pool2 :: pool_state where
  "ex_pool2 = (case pool_step (TakeSlot None) ex_pool1 of Inr t \<Rightarrow> t | Inl _ \<Rightarrow> ex_pool)"

lemma ex_pool_steps:
  "pool_allowed (TakeSlot (Some 4096)) (pool_start (\<lambda>_. 0) 24)" "pool_step (TakeSlot (Some 4096)) (pool_start (\<lambda>_. 0) 24) = Inr ex_pool1"
  "pool_allowed (TakeSlot None) ex_pool1" "pool_step (TakeSlot None) ex_pool1 = Inr ex_pool2"
  "pool_allowed (LinkFree 4120) ex_pool2" "bind_r (pool_step (LinkFree 4120) ex_pool2) (pool_step StoreFree) = Inr ex_pool"
  "freeList (pcore (pool_start (\<lambda>_. 0) 24)) = 0" "freeList (pcore ex_pool1) = 0"
  by (simp_all add: ex_pool1_def ex_pool2_def ex_pool_def pool_eval fun_upd_idem)

lemma ex_pool2_reachable: "reachable (\<lambda>s. s = pool_start (\<lambda>_. 0) 24) pool_trans ex_pool2"
  and ex_pool_reachable: "reachable (\<lambda>s. s = pool_start (\<lambda>_. 0) 24) pool_trans ex_pool"
proof -
  let ?R = "reachable (\<lambda>s. s = pool_start (\<lambda>_. 0) 24) pool_trans"
  have "?R (pool_start (\<lambda>_. 0) 24)" by (rule reachable_init) simp
  then have "?R ex_pool1" by (rule reachable_step) (use ex_pool_steps(1,2) in \<open>unfold pool_trans_def, blast\<close>)
  then show 2: "?R ex_pool2" by (rule reachable_step) (use ex_pool_steps(3,4) in \<open>unfold pool_trans_def, blast\<close>)
  obtain s where s: "pool_step (LinkFree 4120) ex_pool2 = Inr s" "pool_step StoreFree s = Inr ex_pool" "psec s = FLinked 4120"
    using ex_pool_steps(6) by (auto simp: bind_r_Inr_iff)
  have "?R s" by (rule reachable_step [OF 2]) (use ex_pool_steps(5) s(1) in \<open>unfold pool_trans_def, blast\<close>)
  moreover from s(3) have "pool_allowed StoreFree s" by simp
  then have "pool_trans s ex_pool" unfolding pool_trans_def using s(2) by blast
  ultimately show "?R ex_pool" by (rule reachable_step)
qed

lemma ex_pool_seq_reachable: "reachable (\<lambda>s. s = pool_start (\<lambda>_. 0) 24) seq_trans ex_pool"
proof -
  let ?R = "reachable (\<lambda>s. s = pool_start (\<lambda>_. 0) 24) seq_trans"
  have c: "call_step (CallTake r) x = pool_step (TakeSlot r) x" for r x by simp
  have "?R (pool_start (\<lambda>_. 0) 24)" by (rule reachable_init) simp
  then have "?R ex_pool1"
    by (rule reachable_step) (use ex_pool_steps(1,2,7) in \<open>unfold seq_trans_def allocate_step_def c pool_allowed.simps, metis\<close>)
  then have "?R ex_pool2"
    by (rule reachable_step) (use ex_pool_steps(3,4,8) in \<open>unfold seq_trans_def allocate_step_def c pool_allowed.simps, metis\<close>)
  moreover
  have "psec ex_pool2 = FIdle" using ex_pool_steps(5) by simp
  from free_uninterrupted [OF this, of 4120] ex_pool_steps(6) have "call_step (CallGive 4120) ex_pool2 = Inr ex_pool" by simp
  with ex_pool_steps(5) have "seq_trans ex_pool2 ex_pool" unfolding seq_trans_def by auto
  ultimately show ?thesis by (rule reachable_step)
qed

lemma ex_slot_class: "slot_class 24"
  by (simp add: slot_class_def pool_consts)

theorem pool_slots_disjoint_witness:
  "(\<exists>t. pool_step (LinkFree 4120) ex_pool2 = Inr t) \<and> distinct (plive ex_pool2) \<and> plive ex_pool2 = [4144, 4120] \<and>
    (\<exists>b. b \<in> set (powned ex_pool2) \<and> b + 8 \<le> 4120 \<and> 4120 + 24 \<le> b + 4096)"
proof -
  note d = pool_slots_disjoint [OF ex_slot_class ex_pool2_reachable, of "LinkFree 4120"]
  have l: "plive ex_pool2 = [4144, 4120]" by (simp add: ex_pool1_def ex_pool2_def pool_eval)
  have "4120 \<in> set (plive ex_pool2)" by (simp add: l)
  with d have "\<exists>b\<in>set (powned ex_pool2). b + 8 \<le> 4120 \<and> 4120 + 24 \<le> b + 4096" by blast
  moreover have "\<exists>t. pool_step (LinkFree 4120) ex_pool2 = Inr t" using conjunct1 [OF d] ex_pool_steps(5) by simp
  ultimately show ?thesis unfolding l by auto
qed

text \<open>A pool of 512-byte slots whose block at 4096 is used up, with the first slot given back.\<close>

definition ex_used :: "nat \<Rightarrow> pool_state" where
  "ex_used n = \<lparr>pheap = (\<lambda>_. 0),
     pcore = \<lparr>BlockSize = 4096, SlotSize = 512, firstBlock = 4096, curSlot = 4608 + 512 * n, freeList = 0, lastSlot = 7681\<rparr>,
     plive = map (\<lambda>i. 4608 + 512 * i) (rev [0..<n]), phanded = map (\<lambda>i. 4608 + 512 * i) (rev [0..<n]), powned = [4096], psec = FIdle\<rparr>"

lemma ex_used_step: "n < 7 \<Longrightarrow> pool_trans (ex_used n) (ex_used (Suc n))"
  unfolding pool_trans_def
  by (rule exI [of _ "TakeSlot None"]) (simp add: ex_used_def allocate_block_def sizeof_Slot_def sz_simps)

lemma ex_used_reachable: "n \<le> 6 \<Longrightarrow> reachable (\<lambda>s. s = pool_start (\<lambda>_. 0) 512) pool_trans (ex_used (Suc n))"
proof (induction n)
  case 0
  have "pool_trans (pool_start (\<lambda>_. 0) 512) (ex_used 1)"
    unfolding pool_trans_def
    by (rule exI [of _ "TakeSlot (Some 4096)"]) (simp add: ex_used_def pool_eval fun_upd_idem)
  then show ?case by (intro reachable_step [OF reachable_init]) simp_all
next
  case (Suc n)
  then show ?case using reachable_step ex_used_step [of "Suc n"] by fastforce
qed

lemma pool_null_dereference_reached:
  "\<exists>t. reachable (\<lambda>s. s = pool_start (\<lambda>_. 0) 512) pool_trans t \<and> pool_allowed PopNext t \<and> pool_step PopNext t = Inl NullDeref"
proof -
  let ?R = "reachable (\<lambda>s. s = pool_start (\<lambda>_. 0) 512) pool_trans"
  let ?s1 = "(ex_used 7)\<lparr>plive := remove1 4608 (plive (ex_used 7)), psec := FLinked 4608\<rparr>"
  let ?s2 = "?s1\<lparr>pcore := (pcore ?s1)\<lparr>freeList := 4608\<rparr>, psec := FIdle\<rparr>"
  have r: "?R (ex_used 7)" using ex_used_reachable [of 6] by (simp add: eval_nat_numeral)
  have "pool_trans (ex_used 7) ?s1"
    unfolding pool_trans_def by (rule exI [of _ "LinkFree 4608"]) (simp add: ex_used_def fun_upd_idem)
  then have "?R ?s1" by (rule reachable_step [OF r])
  moreover have "pool_trans ?s1 ?s2" unfolding pool_trans_def by (rule exI [of _ StoreFree]) simp
  ultimately have "?R ?s2" by (rule reachable_step)
  moreover have "slot_class 512" by (simp add: slot_class_def pool_consts)
  moreover have "fresh_block (pcore ?s2) (powned ?s2) 16384" by (simp add: ex_used_def fresh_block_def ptrdiff_max_def apart_def)
  ultimately show ?thesis by (intro pool_pop_races_new_block [where s = ?s2 and b = 16384]) (simp_all add: ex_used_def)
qed

theorem pool_destructor_deletes_blocks_witness:
  "MemoryPool_destroy 2 (pheap ex_pool, pcore ex_pool) = Some (powned ex_pool) \<and> distinct (powned ex_pool)"
  by (rule pool_destructor_deletes_blocks [OF ex_slot_class ex_pool_reachable]) (simp add: ex_pool_def)

theorem sequential_pool_loses_nothing_witness:
  "\<exists>free. chain (pheap ex_pool) (freeList (pcore ex_pool)) free \<and> set (phanded ex_pool) = set (plive ex_pool) \<union> set free \<and>
    set (plive ex_pool) \<inter> set free = {} \<and> distinct free"
  by (rule sequential_pool_loses_nothing [OF ex_slot_class ex_pool_seq_reachable])

theorem size_class_fits_witness:
  "\<exists>slot. getMemoryPool (pool_index 20) (initMemoryPool (HashBucket_static (\<lambda>_. 0))) =
      Inr (MemoryPool_init slot (MemoryPool_new 4096)) \<and> slot_class slot \<and> 20 \<le> slot \<and> slot < 20 + 8"
  by (rule size_class_fits) (simp_all add: pool_consts)

definition ex_buckets :: HashBucket where
  "ex_buckets = \<lparr>bheap = (\<lambda>_. 0), pools = replicate 64 (pcore ex_pool)\<rparr>"

theorem free_then_use_returns_same_witness:
  "\<exists>d B1. freeMemory 4144 20 ex_buckets = Inr (d, B1) \<and>
    d = None \<and> (\<exists>B2. useMemory None 20 B1 = Inr (4144, B2) \<and> pools B2 = pools ex_buckets \<and> bheap B2 = bheap B1)"
proof -
  obtain d B1 where f: "freeMemory 4144 20 ex_buckets = Inr (d, B1)"
    by (simp add: freeMemory_def getMemoryPool_def ex_buckets_def pool_index_def pool_consts sz_simps deallocate_def)
  then show ?thesis
    using free_then_use_returns_same [OF _ _ _ _ f, of None] by (simp add: pool_consts ex_buckets_def)
qed

end
