(* ===== verification/Net.thy ===== *)
theory Net
  imports Logger EventLoop
begin

unbundle bit_operations_syntax

text \<open>
  Addresses, sockets and the acceptor (\<open>include/InetAddress.h\<close>, \<open>src/InetAddress.cc\<close>,
  \<open>include/Socket.h\<close>, \<open>src/Socket.cc\<close>, \<open>include/Acceptor.h\<close>, \<open>src/Acceptor.cc\<close>).

  A \<open>sockaddr_in\<close> holds the port in network byte order and the four bytes of the address. \<open>inet_pton\<close>
  and \<open>inet_ntop\<close> are those of the C library for IPv4: dotted decimal without leading zeros. The
  methods of \<open>Socket\<close> issue system calls, which are recorded in order; their answers are arguments.
\<close>

section \<open>InetAddress\<close>

type_synonym in_addr = "8 word \<times> 8 word \<times> 8 word \<times> 8 word"

record sockaddr_in =
  sin_family :: nat
  sin_port :: "16 word"
  sin_addr :: in_addr

definition AF_INET :: nat where "AF_INET = 2"

text \<open>On a little-endian host the conversion of a port swaps its two bytes.\<close>

definition htons :: "16 word \<Rightarrow> 16 word" where
  "htons p = push_bit 8 p OR drop_bit 8 p"

definition ntohs :: "16 word \<Rightarrow> 16 word" where
  "ntohs p = push_bit 8 p OR drop_bit 8 p"

fun split_dots :: "string \<Rightarrow> string list" where
  "split_dots [] = [[]]"
| "split_dots (c # cs) =
     (if c = CHR ''.'' then [] # split_dots cs
      else (case split_dots cs of [] \<Rightarrow> [[c]] | p # ps \<Rightarrow> (c # p) # ps))"

definition is_digit :: "char \<Rightarrow> bool" where
  "is_digit c \<longleftrightarrow> c \<in> set ''0123456789''"

definition parse_octet :: "string \<Rightarrow> 8 word option" where
  "parse_octet s =
     (if s \<noteq> [] \<and> length s \<le> 3 \<and> list_all is_digit s \<and> (hd s = CHR ''0'' \<longrightarrow> length s = 1) \<and> parse_nat s \<le> 255
      then Some (word_of_int (parse_nat s)) else None)"

definition inet_pton :: "string \<Rightarrow> in_addr option" where
  "inet_pton s =
     (case split_dots s of
        [p, q, r, t] \<Rightarrow>
          (case (parse_octet p, parse_octet q, parse_octet r, parse_octet t) of
             (Some a, Some b, Some c, Some d) \<Rightarrow> Some (a, b, c, d)
           | _ \<Rightarrow> None)
      | _ \<Rightarrow> None)"

definition octet_text :: "8 word \<Rightarrow> string" where
  "octet_text w = decimal_nat (unat w)"

fun inet_ntop :: "in_addr \<Rightarrow> string" where
  "inet_ntop (a, b, c, d) = octet_text a @ ''.'' @ octet_text b @ ''.'' @ octet_text c @ ''.'' @ octet_text d"

text \<open>The constructor ignores the result of \<open>inet_pton\<close>: an address that does not parse stays zero.\<close>

definition InetAddress_new :: "16 word \<Rightarrow> string \<Rightarrow> sockaddr_in" where
  "InetAddress_new port ip =
     \<lparr>sin_family = AF_INET, sin_port = htons port,
      sin_addr = (case inet_pton ip of Some a \<Rightarrow> a | None \<Rightarrow> (0, 0, 0, 0))\<rparr>"

definition toIp :: "sockaddr_in \<Rightarrow> string result" where
  "toIp a = bind_r (vec_write (replicate 64 (CHR 0x00)) 0 (inet_ntop (sin_addr a) @ [CHR 0x00])) (\<lambda>buf. Inr (c_string buf))"

definition toIpPort :: "sockaddr_in \<Rightarrow> string result" where
  "toIpPort a =
     bind_r (vec_write (replicate 64 (CHR 0x00)) 0 (inet_ntop (sin_addr a) @ [CHR 0x00])) (\<lambda>buf.
     bind_r (vec_write buf (length (c_string buf)) ('':'' @ decimal_nat (unat (ntohs (sin_port a))) @ [CHR 0x00])) (\<lambda>buf1.
       Inr (c_string buf1)))"

definition toPort :: "sockaddr_in \<Rightarrow> 16 word" where
  "toPort a = ntohs (sin_port a)"

lemma ntohs_htons: "ntohs (htons p) = p"
  by (rule bit_eqI) (auto simp: ntohs_def htons_def bit_simps)

lemma digit_is_digit: "n < 10 \<Longrightarrow> is_digit (digit n)"
  unfolding is_digit_def digit_def by (intro nth_mem) simp

lemma decimal_nat_digits: "list_all is_digit (decimal_nat n)"
  by (induction n rule: decimal_nat.induct) (simp add: decimal_nat.simps digit_is_digit)

lemma decimal_nat_no_zero: "0 < n \<Longrightarrow> hd (decimal_nat n) \<noteq> CHR ''0'' \<and> decimal_nat n \<noteq> []"
proof (induction n rule: decimal_nat.induct)
  case (1 n)
  show ?case
  proof (cases "n < 10")
    case True
    then have "n \<in> {1, 2, 3, 4, 5, 6, 7, 8, 9}" using 1 by auto
    then show ?thesis by (auto simp: decimal_nat.simps [of n] digit_def)
  next
    case False
    then show ?thesis using 1 by (simp add: decimal_nat.simps [of n])
  qed
qed

lemma octet_lt: "unat (w :: 8 word) < 256"
  using unsigned_less [of w] by simp

lemma port_lt: "unat (p :: 16 word) < 65536"
  using unsigned_less [of p] by simp

lemma parse_octet_text: "parse_octet (octet_text w) = Some w"
proof -
  note lt = octet_lt [of w]
  have len: "length (octet_text w) \<le> 3" using length_decimal_nat [of "unat w" 2] lt by (simp add: octet_text_def)
  have ne: "octet_text w \<noteq> []" by (simp add: octet_text_def decimal_nat.simps [of "unat w"])
  have z: "hd (octet_text w) = CHR ''0'' \<longrightarrow> length (octet_text w) = 1"
  proof (cases "unat w = 0")
    case True
    then show ?thesis by (simp add: octet_text_def decimal_nat.simps [of 0])
  next
    case False
    then show ?thesis using decimal_nat_no_zero [of "unat w"] by (simp add: octet_text_def)
  qed
  have v: "parse_nat (octet_text w) = int (unat w)" using parse_decimal_nat by (simp add: octet_text_def)
  have le: "parse_nat (octet_text w) \<le> 255" using v lt by linarith
  have "word_of_int (parse_nat (octet_text w)) = w" using v by simp
  then show ?thesis
    unfolding parse_octet_def using len ne z le decimal_nat_digits [of "unat w"] by (simp add: octet_text_def)
qed

lemma octet_no_dot: "CHR ''.'' \<notin> set (octet_text w)"
proof -
  have "\<forall>c \<in> set (octet_text w). is_digit c" using decimal_nat_digits by (simp add: octet_text_def list_all_iff)
  moreover have "\<not> is_digit (CHR ''.'')" by (simp add: is_digit_def)
  ultimately show ?thesis by blast
qed

lemma split_dots_last: "CHR ''.'' \<notin> set p \<Longrightarrow> split_dots p = [p]"
  by (induction p) auto

lemma split_dots_append: "CHR ''.'' \<notin> set p \<Longrightarrow> split_dots (p @ CHR ''.'' # s) = p # split_dots s"
  by (induction p) auto

lemma inet_pton_ntop: "inet_pton (inet_ntop a) = Some a"
  by (cases a) (simp add: inet_pton_def split_dots_append split_dots_last octet_no_dot parse_octet_text)

text \<open>The longest text of an address has 15 characters; none of them is the terminator.\<close>

lemma octet_text_chars: "list_all is_digit (octet_text w)" "length (octet_text w) \<le> 3"
  using decimal_nat_digits [of "unat w"] length_decimal_nat [of "unat w" 2] octet_lt [of w]
  by (simp_all add: octet_text_def)

lemma digits_no_nul: "list_all is_digit s \<Longrightarrow> CHR 0x00 \<notin> set s"
proof -
  assume "list_all is_digit s"
  moreover have "\<not> is_digit (CHR 0x00)" by (simp add: is_digit_def)
  ultimately show ?thesis by (auto simp: list_all_iff)
qed

lemma inet_ntop_chars: "length (inet_ntop a) \<le> 15" "CHR 0x00 \<notin> set (inet_ntop a)"
proof -
  obtain b c d e where a: "a = (b, c, d, e)" by (cases a)
  show "length (inet_ntop a) \<le> 15"
    using octet_text_chars(2) [of b] octet_text_chars(2) [of c] octet_text_chars(2) [of d] octet_text_chars(2) [of e]
    by (simp add: a)
  show "CHR 0x00 \<notin> set (inet_ntop a)" using octet_text_chars(1) [THEN digits_no_nul] by (simp add: a)
qed

lemma c_string_terminated: "CHR 0x00 \<notin> set s \<Longrightarrow> c_string (s @ CHR 0x00 # t) = s"
  by (induction s) (auto simp: c_string_def)

lemma write_text:
  assumes "length (pre @ s) < length buf" "take (length pre) buf = pre" "CHR 0x00 \<notin> set (pre @ s)"
  shows "\<exists>buf'. vec_write buf (length pre) (s @ [CHR 0x00]) = Inr buf' \<and> length buf' = length buf \<and>
    c_string buf' = pre @ s \<and> take (length (pre @ s)) buf' = pre @ s"
proof -
  let ?rest = "drop (length pre + length (s @ [CHR 0x00])) buf"
  let ?buf = "(pre @ s) @ CHR 0x00 # ?rest"
  have "vec_write buf (length pre) (s @ [CHR 0x00]) = Inr ?buf" using assms by (simp add: vec_write_def)
  moreover have "c_string ?buf = pre @ s" by (rule c_string_terminated [OF assms(3)])
  ultimately show ?thesis using assms(1) by (intro exI [of _ ?buf]) simp
qed

lemma toIpPort_eq: "toIpPort a = Inr (inet_ntop (sin_addr a) @ '':'' @ decimal_nat (unat (toPort a)))"
  and toIp_eq: "toIp a = Inr (inet_ntop (sin_addr a))"
proof -
  let ?ip = "inet_ntop (sin_addr a)" and ?port = "'':'' @ decimal_nat (unat (toPort a))"
  have len: "length ?ip \<le> 15" and nul: "CHR 0x00 \<notin> set ?ip" by (rule inet_ntop_chars)+
  have plen: "length ?port \<le> 6" using length_decimal_nat [of "unat (toPort a)" 4] port_lt [of "toPort a"] by simp
  have pnul: "CHR 0x00 \<notin> set ?port" using digits_no_nul [OF decimal_nat_digits] by simp
  from write_text [of "[]" ?ip "replicate 64 (CHR 0x00)"] len nul obtain buf where
    b: "vec_write (replicate 64 (CHR 0x00)) 0 (?ip @ [CHR 0x00]) = Inr buf" "length buf = 64" "c_string buf = ?ip"
      "take (length ?ip) buf = ?ip" by auto
  show "toIp a = Inr ?ip" by (simp add: toIp_def b)
  from write_text [of ?ip ?port buf] b len plen nul pnul obtain buf1 where
    "vec_write buf (length ?ip) (?port @ [CHR 0x00]) = Inr buf1" "c_string buf1 = ?ip @ ?port" by auto
  then show "toIpPort a = Inr (?ip @ ?port)" by (simp add: toIpPort_def b toPort_def)
qed

section \<open>Socket\<close>

datatype sock_call =
    CallBind int sockaddr_in
  | CallListen int nat
  | CallAccept4 int
  | CallShutdownWr int
  | CallSetNonBlock int
  | CallSetsockopt int string int
  | CallClose int
  | CallFatal
  | CallLogError

text \<open>Every method appends its system calls, and what it logs when a call fails, to the record.\<close>

definition Socket_destroy :: "int \<Rightarrow> sock_call list \<Rightarrow> sock_call list" where
  "Socket_destroy sockfd w = w @ [CallClose sockfd]"

definition bindAddress :: "bool \<Rightarrow> int \<Rightarrow> sockaddr_in \<Rightarrow> sock_call list \<Rightarrow> sock_call list" where
  "bindAddress fails sockfd a w = w @ CallBind sockfd a # (if fails then [CallFatal] else [])"

definition Socket_listen :: "bool \<Rightarrow> int \<Rightarrow> sock_call list \<Rightarrow> sock_call list" where
  "Socket_listen fails sockfd w = w @ CallListen sockfd 1024 # (if fails then [CallFatal] else [])"

definition shutdownWrite :: "bool \<Rightarrow> int \<Rightarrow> sock_call list \<Rightarrow> sock_call list" where
  "shutdownWrite fails sockfd w = w @ CallShutdownWr sockfd # (if fails then [CallLogError] else [])"

definition setNonBlocking :: "int \<Rightarrow> sock_call list \<Rightarrow> sock_call list" where
  "setNonBlocking sockfd w = w @ [CallSetNonBlock sockfd]"

definition setOption :: "string \<Rightarrow> int \<Rightarrow> bool \<Rightarrow> sock_call list \<Rightarrow> sock_call list" where
  "setOption opt sockfd on w = w @ [CallSetsockopt sockfd opt (if on then 1 else 0)]"

definition setTcpNoDelay :: "int \<Rightarrow> bool \<Rightarrow> sock_call list \<Rightarrow> sock_call list" where
  "setTcpNoDelay = setOption ''TCP_NODELAY''"

definition setReuseAddr :: "int \<Rightarrow> bool \<Rightarrow> sock_call list \<Rightarrow> sock_call list" where
  "setReuseAddr = setOption ''SO_REUSEADDR''"

definition setReusePort :: "int \<Rightarrow> bool \<Rightarrow> sock_call list \<Rightarrow> sock_call list" where
  "setReusePort = setOption ''SO_REUSEPORT''"

definition setKeepAlive :: "int \<Rightarrow> bool \<Rightarrow> sock_call list \<Rightarrow> sock_call list" where
  "setKeepAlive = setOption ''SO_KEEPALIVE''"

text \<open>\<open>Socket::accept\<close>: a descriptor with the peer's address, or an errno; then the address is not set.\<close>

type_synonym accept_reply = "errno + int \<times> sockaddr_in"

definition Socket_accept :: "accept_reply \<Rightarrow> int \<Rightarrow> sock_call list \<Rightarrow> (errno + int \<times> sockaddr_in) \<times> sock_call list" where
  "Socket_accept reply sockfd w = (reply, w @ [CallAccept4 sockfd])"

section \<open>Acceptor\<close>

text \<open>
  The acceptor: its channel lives in the poller of the base loop. The callback is a parameter where it
  is called; \<open>sockets\<close> is the record of system calls.
\<close>

record 'k Acceptor =
  acceptSocket :: int
  acceptChannel :: chan_id
  apoller :: "'k EPollPoller"
  listenning :: bool
  sockets :: "sock_call list"

text \<open>\<open>createNonblocking\<close>: a failed \<open>socket\<close> is logged, and the negative descriptor is used all the same.\<close>

definition createNonblocking :: "int \<Rightarrow> int \<times> sock_call list" where
  "createNonblocking reply = (reply, if reply < 0 then [CallFatal] else [])"

definition Acceptor_new :: "int \<Rightarrow> bool \<Rightarrow> chan_id \<Rightarrow> 'k EPollPoller \<Rightarrow> sockaddr_in \<Rightarrow> bool \<Rightarrow> 'k Acceptor" where
  "Acceptor_new reply bind_fails cid p listenAddr reuseport =
     (let (fd, w0) = createNonblocking reply;
          w1 = setReuseAddr fd True w0;
          w2 = setReusePort fd True w1;
          w3 = bindAddress bind_fails fd listenAddr w2
      in \<lparr>acceptSocket = fd, acceptChannel = cid,
          apoller = p\<lparr>chans := (chans p)(cid \<mapsto> Channel_setCallback ReadCallback (Channel_new fd))\<rparr>,
          listenning = False, sockets = w3\<rparr>)"

definition acceptor_do :: "'k epoll_ctl \<Rightarrow> chan_op \<Rightarrow> 'k Acceptor \<Rightarrow> 'k Acceptor result" where
  "acceptor_do ctl oper a = bind_r (chan_do ctl oper (acceptChannel a) (apoller a)) (\<lambda>p. Inr (a\<lparr>apoller := p\<rparr>))"

definition Acceptor_listen :: "'k epoll_ctl \<Rightarrow> bool \<Rightarrow> 'k Acceptor \<Rightarrow> 'k Acceptor result" where
  "Acceptor_listen ctl fails a =
     bind_r (acceptor_do ctl EnableReading
       (a\<lparr>listenning := True, sockets := Socket_listen fails (acceptSocket a) (sockets a)\<rparr>)) (acceptor_do ctl EnableET)"

definition Acceptor_destroy :: "'k epoll_ctl \<Rightarrow> 'k Acceptor \<Rightarrow> 'k Acceptor result" where
  "Acceptor_destroy ctl a =
     bind_r (acceptor_do ctl DisableAll a) (\<lambda>a1.
     bind_r (acceptor_do ctl Remove a1) (\<lambda>a2.
       Inr (a2\<lparr>sockets := Socket_destroy (acceptSocket a2) (sockets a2)\<rparr>)))"

text \<open>
  \<open>handleRead\<close>: the loop over the answers of \<open>accept4\<close>. The state of the callback's owner is threaded
  through; without a callback the connection is closed.
\<close>

fun Acceptor_handleRead :: "(int \<Rightarrow> sockaddr_in \<Rightarrow> 's \<Rightarrow> 's result) option \<Rightarrow> accept_reply list \<Rightarrow>
    'k Acceptor \<times> 's \<Rightarrow> ('k Acceptor \<times> 's) result option" where
  "Acceptor_handleRead cb [] (a, s) = None"
| "Acceptor_handleRead cb (reply # rs) (a, s) =
     (case Socket_accept reply (acceptSocket a) (sockets a) of
        (Inr (connfd, peer), w) \<Rightarrow>
          (case cb of
             Some f \<Rightarrow>
               (case f connfd peer s of
                  Inl x \<Rightarrow> Some (Inl x)
                | Inr s1 \<Rightarrow> Acceptor_handleRead cb rs (a\<lparr>sockets := w\<rparr>, s1))
           | None \<Rightarrow> Acceptor_handleRead cb rs (a\<lparr>sockets := w @ [CallClose connfd]\<rparr>, s))
      | (Inl savedErrno, w) \<Rightarrow>
          if savedErrno = EAGAIN \<or> savedErrno = EWOULDBLOCK then Some (Inr (a\<lparr>sockets := w\<rparr>, s))
          else Some (Inr (a\<lparr>sockets := w @ CallLogError # (if savedErrno = EMFILE then [CallLogError] else [])\<rparr>, s)))"

section \<open>Properties\<close>

text \<open>C30: An address survives its conversions: for every IPv4 address and port, an \<open>InetAddress\<close> built from
  the dotted-decimal text and the port gives back the text, the port and \<open>ip:port\<close>, and none of the
  conversions writes outside its 64-byte buffer.\<close>

theorem inet_address_round_trip:
  "toPort (InetAddress_new port (inet_ntop a)) = port \<and> toIp (InetAddress_new port (inet_ntop a)) = Inr (inet_ntop a) \<and>
   toIpPort (InetAddress_new port (inet_ntop a)) = Inr (inet_ntop a @ '':'' @ decimal_nat (unat port)) \<and>
   sin_addr (InetAddress_new port (inet_ntop a)) = a"
  by (simp add: toIp_eq toIpPort_eq InetAddress_new_def toPort_def ntohs_htons inet_pton_ntop)

text \<open>A text that is not an address is taken for \<open>0.0.0.0\<close>, without a message.\<close>

lemma bad_address_is_any: "inet_pton ip = None \<Longrightarrow> toIp (InetAddress_new port ip) = Inr ''0.0.0.0''"
  by (simp add: toIp_eq InetAddress_new_def octet_text_def decimal_nat.simps [of 0] digit_def)

text \<open>
  One readiness event: the loop hands over every connection the kernel reports, in order, until the
  first failing call, which ends it; the answers behind it are not asked for.
\<close>

fun hand_over :: "(int \<Rightarrow> sockaddr_in \<Rightarrow> 's \<Rightarrow> 's result) \<Rightarrow> (int \<times> sockaddr_in) list \<Rightarrow> 's \<Rightarrow> 's result" where
  "hand_over f [] s = Inr s"
| "hand_over f ((fd, peer) # cs) s = bind_r (f fd peer s) (hand_over f cs)"

lemma accept_loop:
  "\<exists>a'. Acceptor_handleRead (Some f) (map Inr cs @ Inl e # rs) (a, s) = Some (bind_r (hand_over f cs s) (\<lambda>s'. Inr (a', s'))) \<and>
    apoller a' = apoller a \<and> acceptChannel a' = acceptChannel a"
proof (induction f cs s arbitrary: a rule: hand_over.induct)
  case (1 f s)
  then show ?case by (auto simp: Socket_accept_def)
next
  case (2 f fd peer cs s)
  show ?case
  proof (cases "f fd peer s")
    case (Inl x)
    then show ?thesis by (auto simp: Socket_accept_def intro: exI [of _ a])
  next
    case (Inr s1)
    then show ?thesis
      using 2 [where a = "a\<lparr>sockets := sockets a @ [CallAccept4 (acceptSocket a)]\<rparr>" and x = s1] by (simp add: Socket_accept_def)
  qed
qed

text \<open>Without a callback every accepted connection is closed at once.\<close>

lemma accept_loop_closes:
  "\<exists>a'. Acceptor_handleRead None (map Inr cs @ Inl EAGAIN # rs) (a, s) = Some (Inr (a', s)) \<and>
    filter (\<lambda>c. \<exists>fd. c = CallClose fd) (sockets a') = filter (\<lambda>c. \<exists>fd. c = CallClose fd) (sockets a) @ map (CallClose \<circ> fst) cs"
proof (induction cs arbitrary: a)
  case Nil
  then show ?case by (simp add: Socket_accept_def)
next
  case (Cons x cs)
  then show ?case
    using Cons.IH [of "a\<lparr>sockets := sockets a @ [CallAccept4 (acceptSocket a), CallClose (fst x)]\<rparr>"]
    by (cases x) (simp add: Socket_accept_def)
qed

text \<open>The constructor sets the options before it binds; the argument \<open>reuseport\<close> has no effect.\<close>

lemma acceptor_setup_order:
  "0 \<le> fd \<Longrightarrow> sockets (Acceptor_new fd bindFails cid p addr reuseport) =
     [CallSetsockopt fd ''SO_REUSEADDR'' 1, CallSetsockopt fd ''SO_REUSEPORT'' 1, CallBind fd addr] @ (if bindFails then [CallFatal] else [])"
  by (simp add: Acceptor_new_def createNonblocking_def setReuseAddr_def setReusePort_def setOption_def bindAddress_def Let_def)

lemma reuseport_ignored: "Acceptor_new fd fails cid p addr reuseport = Acceptor_new fd fails cid p addr (\<not> reuseport)"
  by (simp add: Acceptor_new_def)

lemma acceptor_listen_ok:
  assumes sp: "epoll_spec ctl interest" and ok: "poller_ok interest p" and fresh: "chans p cid = None" "channels p fd = None"
  obtains a ch where "Acceptor_listen ctl listenFails (Acceptor_new fd bindFails cid p addr reuseport) = Inr a" "listenning a"
    "poller_ok interest (apoller a)" "interest (kernel (apoller a)) = (interest (kernel p))(fd \<mapsto> (kReadEvent, cid))"
    "chans (apoller a) cid = Some ch" "events ch = kReadEvent OR EPOLLET"
    "sockets a = sockets (Acceptor_new fd bindFails cid p addr reuseport) @ CallListen fd 1024 # (if listenFails then [CallFatal] else [])"
proof -
  obtain p2 where p2:
    "chan_do ctl EnableReading cid (p\<lparr>chans := (chans p)(cid \<mapsto> Channel_setCallback ReadCallback (Channel_new fd))\<rparr>) = Inr p2"
    "poller_ok interest p2"
    "chans p2 = (chans p)(cid \<mapsto> (Channel_setCallback ReadCallback (Channel_new fd))\<lparr>events := kReadEvent, index := kAdded\<rparr>)"
    "interest (kernel p2) = (interest (kernel p))(fd \<mapsto> (kReadEvent, cid))"
    by (rule enable_reading_new [OF assms])
  have "op_allowed EnableET cid p2" using p2(3) by (simp add: op_allowed_def)
  from chan_do_ok [OF sp p2(2) this] obtain p3 where p3: "chan_do ctl EnableET cid p2 = Inr p3" "poller_ok interest p3" by blast
  from p3(1) obtain ch where p3': "kernel p3 = kernel p2" "chans p3 cid = Some ch" "events ch = kReadEvent OR EPOLLET"
    using p2(3) by (auto simp: chan_do_def enableET_def)
  show thesis
    by (rule that [of "(Acceptor_new fd bindFails cid p addr reuseport)\<lparr>listenning := True,
        sockets := Socket_listen listenFails fd (sockets (Acceptor_new fd bindFails cid p addr reuseport)), apoller := p3\<rparr>" ch])
      (use p2 p3 p3' in \<open>auto simp: Acceptor_listen_def acceptor_do_def Acceptor_new_def createNonblocking_def Let_def Socket_listen_def\<close>)
qed

text \<open>The listening socket is level-triggered: \<open>listen\<close> registers it with the kernel for reading and only
  then sets the edge-triggered flag, which stays in the channel and does not reach the kernel.\<close>

theorem listening_socket_level_triggered:
  assumes sp: "epoll_spec ctl interest" and ok: "poller_ok interest p" and fresh: "chans p cid = None" "channels p fd = None"
  shows "\<exists>a ch. Acceptor_listen ctl False (Acceptor_new fd False cid p addr reuseport) = Inr a \<and> listenning a \<and>
    interest (kernel (apoller a)) = (interest (kernel p))(fd \<mapsto> (kReadEvent, cid)) \<and> kReadEvent AND EPOLLET = 0 \<and>
    chans (apoller a) cid = Some ch \<and> events ch AND EPOLLET \<noteq> 0"
  by (rule acceptor_listen_ok [OF assms]) (use read_mask in auto)

theorem listening_socket_level_triggered_witness:
  "\<exists>a ch. Acceptor_listen list_ctl False (Acceptor_new 5 False 0 (EPollPoller_new Map.empty) (InetAddress_new 8080 ''127.0.0.1'') True) = Inr a \<and>
    listenning a \<and> kernel (apoller a) = [5 \<mapsto> (kReadEvent, 0)] \<and> kReadEvent AND EPOLLET = 0 \<and>
    chans (apoller a) 0 = Some ch \<and> events ch AND EPOLLET \<noteq> 0"
proof -
  have "poller_ok (\<lambda>k. k) (EPollPoller_new Map.empty)" by (simp add: poller_ok_def EPollPoller_new_def)
  then show ?thesis
    using listening_socket_level_triggered [OF list_ctl_spec, of "EPollPoller_new Map.empty" 0 5]
    by (simp add: EPollPoller_new_def)
qed

end
