(* ===== verification/Threads.thy ===== *)
theory Threads
  imports Logger
begin

text \<open>
  Threads and the pool of loops (\<open>include/CurrentThread.h\<close>, \<open>src/CurrentThread.cc\<close>, \<open>include/Thread.h\<close>,
  \<open>src/Thread.cc\<close>, \<open>include/EventLoopThread.h\<close>, \<open>src/EventLoopThread.cc\<close>,
  \<open>include/EventLoopThreadPool.h\<close>, \<open>src/EventLoopThreadPool.cc\<close>).

  Event loops are named by numbers. Starting a loop thread is a handshake of two threads over a
  semaphore, a mutex and a condition variable: its state has a program counter for the parent and one
  for the child, and each action is one atomic step of one of them, or not possible.
\<close>

section \<open>Thread identifiers\<close>

text \<open>The cached identifier is 0 until the first call asks the kernel.\<close>

definition cacheTid :: "int \<Rightarrow> int \<Rightarrow> int" where
  "cacheTid gettid t_cachedTid = (if t_cachedTid = 0 then gettid else t_cachedTid)"

definition tid :: "int \<Rightarrow> int \<Rightarrow> int \<times> int" where
  "tid gettid t_cachedTid =
     (let c = (if t_cachedTid = 0 then cacheTid gettid t_cachedTid else t_cachedTid) in (c, c))"

section \<open>Thread\<close>

record Thread =
  tstarted :: bool
  tjoined :: bool
  ttid :: int
  tname :: string

definition setDefaultName :: "int \<Rightarrow> Thread \<Rightarrow> Thread" where
  "setDefaultName numCreated t =
     (if tname t = [] then t\<lparr>tname := c_string (snprintf (replicate 32 (CHR 0x00)) (''Thread'' @ decimal numCreated))\<rparr> else t)"

text \<open>The constructor also counts the threads created; the count is the second component.\<close>

definition Thread_new :: "string \<Rightarrow> int \<Rightarrow> Thread \<times> int" where
  "Thread_new nm numCreated =
     (let n = numCreated + 1
      in (setDefaultName n \<lparr>tstarted = False, tjoined = False, ttid = 0, tname = nm\<rparr>, n))"

datatype thread_effect = Detach | Join | Quit nat

definition Thread_destroy :: "Thread \<Rightarrow> thread_effect list" where
  "Thread_destroy t = (if tstarted t \<and> \<not> tjoined t then [Detach] else [])"

definition Thread_join :: "Thread \<Rightarrow> Thread \<times> thread_effect list" where
  "Thread_join t = (t\<lparr>tjoined := True\<rparr>, [Join])"

section \<open>Starting a loop thread\<close>

type_synonym loop_id = nat

datatype parent_pc = PIdle | PSemWait | PCondWait | PReturned "loop_id option"
datatype child_pc = CNone | CTid | CPost | CCreate | CCallback | CPublish | CLoop | CClear | CDestroy | CEnd

text \<open>
  \<open>loop\<close> is the member \<open>loop_\<close>; \<open>stack_loop\<close> is the loop object on the child's stack while it exists,
  \<open>initialised\<close> the loops the callback has been run on.
\<close>

record EventLoopThread =
  elt_thread :: Thread
  loop_ptr :: "loop_id option"
  hasCallback :: bool
  exiting :: bool
  ppc :: parent_pc
  cpc :: child_pc
  sem :: nat
  stack_loop :: "loop_id option"
  initialised :: "loop_id list"

definition EventLoopThread_new :: "bool \<Rightarrow> string \<Rightarrow> int \<Rightarrow> EventLoopThread \<times> int" where
  "EventLoopThread_new cb nm numCreated =
     (let (t, n) = Thread_new nm numCreated
      in (\<lparr>elt_thread = t, loop_ptr = None, hasCallback = cb, exiting = False, ppc = PIdle, cpc = CNone, sem = 0,
           stack_loop = None, initialised = []\<rparr>, n))"

text \<open>
  The steps of \<open>Thread::start\<close>: the parent starts the child and waits for the semaphore, the child
  stores its identifier and posts. Then those of \<open>startLoop\<close>, in the parent, and \<open>threadFunc\<close>, in the
  child. The loop's identity and the kernel's thread identifier come with the step.
\<close>

datatype elt_action =
    Start | SemWait | CondWait
  | StoreTid int | Post | CreateLoop loop_id | InitCallback | Publish | LoopEnds | Clear | DestroyLoop

fun thread_start_step :: "elt_action \<Rightarrow> EventLoopThread \<Rightarrow> EventLoopThread option" where
  "thread_start_step Start e =
     (if ppc e = PIdle then Some (e\<lparr>elt_thread := (elt_thread e)\<lparr>tstarted := True\<rparr>, sem := 0, ppc := PSemWait, cpc := CTid\<rparr>) else None)"
| "thread_start_step SemWait e = (if ppc e = PSemWait \<and> 0 < sem e then Some (e\<lparr>sem := sem e - 1, ppc := PCondWait\<rparr>) else None)"
| "thread_start_step (StoreTid t) e =
     (if cpc e = CTid then Some (e\<lparr>elt_thread := (elt_thread e)\<lparr>ttid := fst (tid t 0)\<rparr>, cpc := CPost\<rparr>) else None)"
| "thread_start_step Post e = (if cpc e = CPost then Some (e\<lparr>sem := sem e + 1, cpc := CCreate\<rparr>) else None)"
| "thread_start_step _ e = None"

fun elt_step :: "elt_action \<Rightarrow> EventLoopThread \<Rightarrow> EventLoopThread option" where
  "elt_step Start e = thread_start_step Start e"
| "elt_step SemWait e = thread_start_step SemWait e"
| "elt_step (StoreTid t) e = thread_start_step (StoreTid t) e"
| "elt_step Post e = thread_start_step Post e"
| "elt_step CondWait e = (if ppc e = PCondWait \<and> loop_ptr e \<noteq> None then Some (e\<lparr>ppc := PReturned (loop_ptr e)\<rparr>) else None)"
| "elt_step (CreateLoop l) e =
     (if cpc e = CCreate then Some (e\<lparr>stack_loop := Some l, cpc := (if hasCallback e then CCallback else CPublish)\<rparr>) else None)"
| "elt_step InitCallback e =
     (if cpc e = CCallback then Some (e\<lparr>initialised := the (stack_loop e) # initialised e, cpc := CPublish\<rparr>) else None)"
| "elt_step Publish e = (if cpc e = CPublish then Some (e\<lparr>loop_ptr := stack_loop e, cpc := CLoop\<rparr>) else None)"
| "elt_step LoopEnds e = (if cpc e = CLoop then Some (e\<lparr>cpc := CClear\<rparr>) else None)"
| "elt_step Clear e = (if cpc e = CClear then Some (e\<lparr>loop_ptr := None, cpc := CDestroy\<rparr>) else None)"
| "elt_step DestroyLoop e = (if cpc e = CDestroy then Some (e\<lparr>stack_loop := None, cpc := CEnd\<rparr>) else None)"

text \<open>The destructor; the destructor of the thread member runs after it.\<close>

definition EventLoopThread_destroy :: "EventLoopThread \<Rightarrow> EventLoopThread \<times> thread_effect list" where
  "EventLoopThread_destroy e =
     (let e1 = e\<lparr>exiting := True\<rparr>;
          (e2, fx) = (case loop_ptr e1 of
                        None \<Rightarrow> (e1, [])
                      | Some l \<Rightarrow> (let (t, fx) = Thread_join (elt_thread e1) in (e1\<lparr>elt_thread := t\<rparr>, Quit l # fx)))
      in (e2, fx @ Thread_destroy (elt_thread e2)))"

section \<open>The pool of loop threads\<close>

record EventLoopThreadPool =
  baseLoop :: loop_id
  ename :: string
  estarted :: bool
  numThreads :: int
  nextLoop :: nat
  threads :: "string list"
  loops :: "loop_id list"

definition EventLoopThreadPool_new :: "loop_id \<Rightarrow> string \<Rightarrow> EventLoopThreadPool" where
  "EventLoopThreadPool_new base nm =
     \<lparr>baseLoop = base, ename = nm, estarted = False, numThreads = 0, nextLoop = 0, threads = [], loops = []\<rparr>"

definition setThreadNum :: "int \<Rightarrow> EventLoopThreadPool \<Rightarrow> EventLoopThreadPool" where
  "setThreadNum n P = P\<lparr>numThreads := n\<rparr>"

text \<open>
  \<open>start\<close>: the loop over the threads gets from each \<open>startLoop\<close> the loop it returns; the results are the
  pool and the loops the callback is run on by this thread.
\<close>

fun start_threads :: "(nat \<Rightarrow> loop_id) \<Rightarrow> nat \<Rightarrow> nat \<Rightarrow> EventLoopThreadPool \<Rightarrow> EventLoopThreadPool" where
  "start_threads startLoop i 0 P = P"
| "start_threads startLoop i (Suc n) P =
     start_threads startLoop (i + 1) n
       (P\<lparr>threads := threads P @ [c_string (snprintf (replicate (length (ename P) + 32) (CHR 0x00)) (ename P @ decimal (int i)))],
          loops := loops P @ [startLoop i]\<rparr>)"

definition EventLoopThreadPool_start :: "(nat \<Rightarrow> loop_id) \<Rightarrow> bool \<Rightarrow> EventLoopThreadPool \<Rightarrow> EventLoopThreadPool \<times> loop_id list" where
  "EventLoopThreadPool_start startLoop cb P =
     (start_threads startLoop 0 (nat (numThreads P)) (P\<lparr>estarted := True\<rparr>),
      if numThreads P = 0 \<and> cb then [baseLoop P] else [])"

definition getNextLoop :: "EventLoopThreadPool \<Rightarrow> (loop_id \<times> EventLoopThreadPool) result" where
  "getNextLoop P =
     (if loops P = [] then Inr (baseLoop P, P)
      else if nextLoop P < length (loops P)
      then (let n = nextLoop P + 1
            in Inr (loops P ! nextLoop P, P\<lparr>nextLoop := (if length (loops P) \<le> n then 0 else n)\<rparr>))
      else Inl OutOfBounds)"

definition getAllLoops :: "EventLoopThreadPool \<Rightarrow> loop_id list" where
  "getAllLoops P = (if loops P = [] then [baseLoop P] else loops P)"

section \<open>Round robin\<close>

definition epool_ok :: "EventLoopThreadPool \<Rightarrow> bool" where
  "epool_ok P \<longleftrightarrow> (if loops P = [] then nextLoop P = 0 else nextLoop P < length (loops P))"

lemma start_threads_ok:
  "loops (start_threads startLoop i n P) = loops P @ map startLoop [i..<i + n] \<and>
   baseLoop (start_threads startLoop i n P) = baseLoop P \<and> nextLoop (start_threads startLoop i n P) = nextLoop P \<and>
   length (threads (start_threads startLoop i n P)) = length (threads P) + n"
  by (induction startLoop i n P rule: start_threads.induct) (simp_all add: upt_rec)

lemma getNextLoop_ok:
  assumes "epool_ok P"
  shows "getNextLoop P = Inr (getAllLoops P ! nextLoop P, P\<lparr>nextLoop := (nextLoop P + 1) mod length (getAllLoops P)\<rparr>) \<and>
    epool_ok (P\<lparr>nextLoop := (nextLoop P + 1) mod length (getAllLoops P)\<rparr>)"
proof (cases "loops P = []")
  case True
  moreover from this assms have "P\<lparr>nextLoop := 0\<rparr> = P" by (cases P) (simp add: epool_ok_def)
  ultimately show ?thesis using assms by (simp add: getNextLoop_def getAllLoops_def epool_ok_def)
next
  case False
  then have n: "nextLoop P < length (loops P)" using assms by (simp add: epool_ok_def)
  then have w: "(if length (loops P) \<le> nextLoop P + 1 then 0 else nextLoop P + 1) = (nextLoop P + 1) mod length (loops P)"
    by (cases "nextLoop P + 1 = length (loops P)") auto
  have "getNextLoop P = Inr (loops P ! nextLoop P, P\<lparr>nextLoop := (nextLoop P + 1) mod length (loops P)\<rparr>)"
    unfolding getNextLoop_def Let_def w using n False by simp
  moreover have "(nextLoop P + 1) mod length (loops P) < length (loops P)" using False by simp
  ultimately show ?thesis using False by (simp add: getAllLoops_def epool_ok_def)
qed

text \<open>The loops a sequence of calls returns.\<close>

fun next_loops :: "nat \<Rightarrow> EventLoopThreadPool \<Rightarrow> (loop_id list \<times> EventLoopThreadPool) result" where
  "next_loops 0 P = Inr ([], P)"
| "next_loops (Suc k) P =
     bind_r (getNextLoop P) (\<lambda>(l, P1). bind_r (next_loops k P1) (\<lambda>(ls, P2). Inr (l # ls, P2)))"

lemma next_loops_ok:
  "epool_ok P \<Longrightarrow> \<exists>P'. next_loops k P = Inr (map (\<lambda>i. getAllLoops P ! ((nextLoop P + i) mod length (getAllLoops P))) [0..<k], P')"
proof (induction k arbitrary: P)
  case 0
  then show ?case by simp
next
  case (Suc k)
  let ?n = "length (getAllLoops P)"
  let ?P1 = "P\<lparr>nextLoop := (nextLoop P + 1) mod ?n\<rparr>"
  from getNextLoop_ok [OF Suc.prems] have g: "getNextLoop P = Inr (getAllLoops P ! nextLoop P, ?P1)" "epool_ok ?P1" by blast+
  have all: "getAllLoops ?P1 = getAllLoops P" "nextLoop ?P1 = (nextLoop P + 1) mod ?n" by (simp_all add: getAllLoops_def)
  from Suc.IH [OF g(2), unfolded all] obtain P' where
    IH: "next_loops k ?P1 = Inr (map (\<lambda>i. getAllLoops P ! (((nextLoop P + 1) mod ?n + i) mod ?n)) [0..<k], P')" by blast
  have "nextLoop P mod ?n = nextLoop P" using Suc.prems by (cases "loops P = []") (auto simp: epool_ok_def getAllLoops_def)
  moreover have up: "[1..<Suc k] = map Suc [0..<k]" by (simp add: map_Suc_upt del: upt_Suc)
  have "map (\<lambda>i. getAllLoops P ! (((nextLoop P + 1) mod ?n + i) mod ?n)) [0..<k] =
      map (\<lambda>i. getAllLoops P ! ((nextLoop P + i) mod ?n)) [1..<Suc k]"
    unfolding up by (simp add: mod_add_left_eq o_def)
  moreover have "[0..<Suc k] = 0 # [1..<Suc k]" by (simp add: upt_rec del: upt_Suc)
  ultimately show ?case using g(1) IH by (simp del: upt_Suc)
qed

section \<open>The handshake\<close>

text \<open>
  The loop the parent gets, and the loop the member points to, exist and have been initialised. Where
  the child stands tells which of them is set.
\<close>

definition elt_inv :: "EventLoopThread \<Rightarrow> bool" where
  "elt_inv e \<longleftrightarrow>
     (case cpc e of
        CNone \<Rightarrow> ppc e = PIdle \<and> loop_ptr e = None \<and> stack_loop e = None
      | CTid \<Rightarrow> ppc e = PSemWait \<and> sem e = 0 \<and> loop_ptr e = None \<and> stack_loop e = None
      | CPost \<Rightarrow> ppc e = PSemWait \<and> sem e = 0 \<and> loop_ptr e = None \<and> stack_loop e = None
      | CCreate \<Rightarrow> ppc e \<in> {PSemWait, PCondWait} \<and> loop_ptr e = None \<and> stack_loop e = None
      | CCallback \<Rightarrow> ppc e \<in> {PSemWait, PCondWait} \<and> loop_ptr e = None \<and> stack_loop e \<noteq> None
      | CPublish \<Rightarrow> ppc e \<in> {PSemWait, PCondWait} \<and> loop_ptr e = None \<and> (\<exists>l. stack_loop e = Some l \<and> (hasCallback e \<longrightarrow> l \<in> set (initialised e)))
      | CLoop \<Rightarrow> loop_ptr e = stack_loop e \<and> (\<exists>l. stack_loop e = Some l \<and> (hasCallback e \<longrightarrow> l \<in> set (initialised e)))
      | CClear \<Rightarrow> loop_ptr e = stack_loop e \<and> (\<exists>l. stack_loop e = Some l \<and> (hasCallback e \<longrightarrow> l \<in> set (initialised e)))
      | CDestroy \<Rightarrow> loop_ptr e = None
      | CEnd \<Rightarrow> loop_ptr e = None \<and> stack_loop e = None) \<and>
     (cpc e \<noteq> CNone \<longrightarrow> ppc e \<noteq> PIdle \<and> tstarted (elt_thread e)) \<and>
     (\<forall>r. ppc e = PReturned r \<longrightarrow> (\<exists>l. r = Some l \<and> (hasCallback e \<longrightarrow> l \<in> set (initialised e)) \<and>
        (cpc e \<in> {CLoop, CClear} \<longrightarrow> loop_ptr e = Some l)))"

definition elt_initial :: "EventLoopThread \<Rightarrow> bool" where
  "elt_initial e \<longleftrightarrow> (\<exists>cb nm n. e = fst (EventLoopThread_new cb nm n))"

definition elt_trans :: "EventLoopThread \<Rightarrow> EventLoopThread \<Rightarrow> bool" where
  "elt_trans e e' \<longleftrightarrow> (\<exists>act. elt_step act e = Some e')"

lemma elt_step_inv:
  assumes inv: "elt_inv e" and st: "elt_step act e = Some e'"
  shows "elt_inv e'"
proof (cases act)
  case Start
  then have "ppc e = PIdle" "e' = e\<lparr>elt_thread := (elt_thread e)\<lparr>tstarted := True\<rparr>, sem := 0, ppc := PSemWait, cpc := CTid\<rparr>"
    using st by (simp_all split: if_splits)
  moreover have "cpc e = CNone" using inv \<open>ppc e = PIdle\<close> unfolding elt_inv_def by blast
  ultimately show ?thesis using inv by (simp add: elt_inv_def)
next
  case SemWait
  then have "ppc e = PSemWait" "0 < sem e" "e' = e\<lparr>sem := sem e - 1, ppc := PCondWait\<rparr>" using st by (simp_all split: if_splits)
  then show ?thesis using inv by (cases "cpc e") (simp_all add: elt_inv_def)
next
  case CondWait
  then have "ppc e = PCondWait" "loop_ptr e \<noteq> None" "e' = e\<lparr>ppc := PReturned (loop_ptr e)\<rparr>" using st by (simp_all split: if_splits)
  then show ?thesis using inv by (cases "cpc e") (auto simp: elt_inv_def)
next
  case (StoreTid t)
  then show ?thesis using inv st by (simp add: elt_inv_def split: if_splits) auto
next
  case Post
  then show ?thesis using inv st by (simp add: elt_inv_def split: if_splits) auto
next
  case (CreateLoop l)
  then show ?thesis using inv st by (simp add: elt_inv_def split: if_splits) auto
next
  case InitCallback
  then show ?thesis using inv st by (simp add: elt_inv_def split: if_splits) auto
next
  case Publish
  then show ?thesis using inv st by (simp add: elt_inv_def split: if_splits) auto
next
  case LoopEnds
  then show ?thesis using inv st by (simp add: elt_inv_def split: if_splits) auto
next
  case Clear
  then show ?thesis using inv st by (simp add: elt_inv_def split: if_splits) auto
next
  case DestroyLoop
  then show ?thesis using inv st by (simp add: elt_inv_def split: if_splits) auto
qed

interpretation handshake: invariant_system elt_initial elt_trans elt_inv
proof
  show "elt_inv e" if "elt_initial e" for e
    using that by (auto simp: elt_initial_def EventLoopThread_new_def Thread_new_def elt_inv_def Let_def)
  show "elt_inv t" if "elt_inv s" "elt_trans s t" for s t
    using that elt_step_inv by (auto simp: elt_trans_def)
qed

section \<open>Properties\<close>

text \<open>C28: \<open>startLoop\<close> returns a loop that is ready: in every interleaving of the starting thread with the new
  one, when \<open>startLoop\<close> has returned it has returned a loop, the thread's init callback has been run on
  it before, and as long as the thread has not left \<open>loop()\<close> the member \<open>loop_\<close> still points to that loop
  and the loop object exists.\<close>

theorem startLoop_returns_ready_loop:
  assumes "reachable elt_initial elt_trans e" "ppc e = PReturned r"
  shows "\<exists>l. r = Some l \<and> (hasCallback e \<longrightarrow> l \<in> set (initialised e)) \<and> tstarted (elt_thread e) \<and>
    (cpc e \<in> {CLoop, CClear} \<longrightarrow> loop_ptr e = Some l \<and> stack_loop e = Some l)"
proof -
  have inv: "elt_inv e" using assms(1) by (rule handshake.reachable_inv)
  then obtain l where l: "r = Some l" "hasCallback e \<longrightarrow> l \<in> set (initialised e)" "cpc e \<in> {CLoop, CClear} \<longrightarrow> loop_ptr e = Some l"
    using assms(2) unfolding elt_inv_def by blast
  moreover have "cpc e \<noteq> CNone" using inv assms(2) by (auto simp: elt_inv_def)
  then have "tstarted (elt_thread e)" using inv by (simp add: elt_inv_def)
  moreover have "cpc e \<in> {CLoop, CClear} \<longrightarrow> stack_loop e = Some l" using inv l(3) by (auto simp: elt_inv_def)
  ultimately show ?thesis by blast
qed

text \<open>The member never points to a loop that is gone.\<close>

lemma loop_ptr_valid: "reachable elt_initial elt_trans e \<Longrightarrow> loop_ptr e = None \<or> loop_ptr e = stack_loop e"
  using handshake.reachable_inv [of e] by (auto simp: elt_inv_def split: child_pc.splits)

text \<open>C29: \<open>getNextLoop\<close> is round robin: on a started pool the calls return the loops of the pool in turn, the
  base loop when the pool has none, without ever indexing outside the vector.\<close>

theorem getNextLoop_round_robin:
  assumes "EventLoopThreadPool_start startLoop cb (setThreadNum n (EventLoopThreadPool_new base nm)) = (P, fx)"
  shows "\<exists>P'. next_loops k P = Inr (map (\<lambda>i. if n \<le> 0 then base else startLoop (i mod nat n)) [0..<k], P')"
proof -
  let ?P0 = "EventLoopThreadPool_new base nm"
  have P: "loops P = map startLoop [0..<nat n]" "baseLoop P = base" "nextLoop P = 0"
    using assms start_threads_ok [of startLoop 0 "nat n" "(setThreadNum n ?P0)\<lparr>estarted := True\<rparr>"]
    by (auto simp: EventLoopThreadPool_start_def setThreadNum_def EventLoopThreadPool_new_def)
  then have "epool_ok P" by (simp add: epool_ok_def)
  from next_loops_ok [OF this, of k] obtain P' where
    r: "next_loops k P = Inr (map (\<lambda>i. getAllLoops P ! (i mod length (getAllLoops P))) [0..<k], P')" using P by auto
  have "getAllLoops P ! (i mod length (getAllLoops P)) = (if n \<le> 0 then base else startLoop (i mod nat n))" for i
    using P by (simp add: getAllLoops_def)
  then show ?thesis using r by simp
qed

theorem getNextLoop_round_robin_witness:
  "\<exists>P'. next_loops 5 (fst (EventLoopThreadPool_start (\<lambda>i. i + 10) False (setThreadNum 3 (EventLoopThreadPool_new 0 ''Echo'')))) =
     Inr ([10, 11, 12, 10, 11], P')"
proof -
  let ?S = "EventLoopThreadPool_start (\<lambda>i. i + 10) False (setThreadNum 3 (EventLoopThreadPool_new 0 ''Echo''))"
  have "map (\<lambda>i. if (3::int) \<le> 0 then 0 else (\<lambda>i. i + 10) (i mod nat 3)) [0..<5] = [10, 11, 12, 10, 11 :: nat]"
    by (simp add: upt_rec)
  then show ?thesis
    using getNextLoop_round_robin [of "\<lambda>i. i + 10" False 3 0 "''Echo''" "fst ?S" "snd ?S" 5] by simp
qed

text \<open>A run of the handshake up to the return of \<open>startLoop\<close>.\<close>

fun elt_run :: "elt_action list \<Rightarrow> EventLoopThread \<Rightarrow> EventLoopThread option" where
  "elt_run [] e = Some e"
| "elt_run (a # as) e = (case elt_step a e of None \<Rightarrow> None | Some e1 \<Rightarrow> elt_run as e1)"

lemma elt_run_reachable:
  "reachable elt_initial elt_trans e \<Longrightarrow> elt_run as e = Some e' \<Longrightarrow> reachable elt_initial elt_trans e'"
proof (induction as arbitrary: e)
  case (Cons a as)
  then obtain e1 where e1: "elt_step a e = Some e1" "elt_run as e1 = Some e'" by (auto split: option.splits)
  have "elt_trans e e1" using e1(1) unfolding elt_trans_def by blast
  then have "reachable elt_initial elt_trans e1" by (rule reachable_step [OF Cons.prems(1)])
  then show ?case using e1(2) by (rule Cons.IH)
qed simp

theorem startLoop_returns_ready_loop_witness:
  "\<exists>e. elt_run [Start, StoreTid 77, Post, CreateLoop 4, SemWait, InitCallback, Publish, CondWait]
      (fst (EventLoopThread_new True ''io0'' 0)) = Some e \<and> ppc e = PReturned (Some 4) \<and> cpc e = CLoop \<and> stack_loop e = Some 4"
proof -
  let ?e0 = "fst (EventLoopThread_new True ''io0'' 0)"
  obtain e where e: "elt_run [Start, StoreTid 77, Post, CreateLoop 4, SemWait, InitCallback, Publish, CondWait] ?e0 = Some e"
    "ppc e = PReturned (Some 4)" "cpc e = CLoop"
    by (simp add: EventLoopThread_new_def Thread_new_def setDefaultName_def)
  have "reachable elt_initial elt_trans ?e0" by (rule reachable_init) (auto simp: elt_initial_def)
  then have "reachable elt_initial elt_trans e" using e(1) by (rule elt_run_reachable)
  from startLoop_returns_ready_loop [OF this e(2)] e show ?thesis by auto
qed

end
