(* ===== verification/TcpServer.thy ===== *)
theory TcpServer
  imports Net Threads
begin

text \<open>
  The server (\<open>include/TcpServer.h\<close>, \<open>src/TcpServer.cc\<close>): the table of connections, their names and the
  loops they are assigned to.

  A connection object is known here by its identity, name, loop and descriptor. What the server hands
  to a loop with \<open>runInLoop\<close> or \<open>queueInLoop\<close> is recorded in order, with the loop; running the recorded
  removal is a step of its own. Connections are modelled in theory \<open>TcpConnection\<close>.
\<close>

section \<open>State and operations\<close>

record conn_ref =
  conn_id :: nat
  conn_name :: string
  conn_loop :: loop_id
  conn_fd :: int

datatype posted = PostListen | PostEstablished conn_ref | PostRemove conn_ref | PostDestroyed conn_ref

record TcpServer =
  ipPort :: string
  sname :: string
  threadPool :: EventLoopThreadPool
  sstarted :: int
  nextConnId :: int
  connections :: "string \<Rightarrow> conn_ref option"
  post :: "(loop_id \<times> posted) list"
  created :: nat

definition post_to :: "loop_id \<Rightarrow> posted \<Rightarrow> TcpServer \<Rightarrow> TcpServer" where
  "post_to l f s = s\<lparr>post := post s @ [(l, f)]\<rparr>"

definition TcpServer_new :: "loop_id \<Rightarrow> sockaddr_in \<Rightarrow> string \<Rightarrow> TcpServer result" where
  "TcpServer_new loop listenAddr nameArg =
     bind_r (toIpPort listenAddr) (\<lambda>ip.
       Inr \<lparr>ipPort = ip, sname = nameArg, threadPool = EventLoopThreadPool_new loop nameArg, sstarted = 0,
            nextConnId = 1, connections = Map.empty, post = [], created = 0\<rparr>)"

definition TcpServer_setThreadNum :: "int \<Rightarrow> TcpServer \<Rightarrow> TcpServer" where
  "TcpServer_setThreadNum n s = s\<lparr>threadPool := setThreadNum n (threadPool s)\<rparr>"

text \<open>\<open>start\<close>; the loops the pool's threads create come from \<open>startLoop\<close>, the init callback is never set.\<close>

definition TcpServer_start :: "(nat \<Rightarrow> loop_id) \<Rightarrow> TcpServer \<Rightarrow> TcpServer" where
  "TcpServer_start startLoop s =
     (let s1 = s\<lparr>sstarted := sstarted s + 1\<rparr>
      in if sstarted s = 0
         then post_to (baseLoop (threadPool s1)) PostListen
                (s1\<lparr>threadPool := fst (EventLoopThreadPool_start startLoop False (threadPool s1))\<rparr>)
         else s1)"

definition connName :: "TcpServer \<Rightarrow> int \<Rightarrow> string" where
  "connName s n = sname s @ c_string (snprintf (replicate 64 (CHR 0x00)) (''-'' @ ipPort s @ ''#'' @ decimal n))"

definition newConnection :: "int \<Rightarrow> sockaddr_in \<Rightarrow> TcpServer \<Rightarrow> TcpServer result" where
  "newConnection sockfd peerAddr s =
     bind_r (getNextLoop (threadPool s)) (\<lambda>(ioLoop, P).
       let nm = connName s (nextConnId s) in
       if nextConnId s = 2 ^ 31 - 1 then Inl IntOverflow
       else
         (let conn = \<lparr>conn_id = created s, conn_name = nm, conn_loop = ioLoop, conn_fd = sockfd\<rparr>;
              s1 = s\<lparr>threadPool := P, nextConnId := nextConnId s + 1, created := created s + 1,
                     connections := (connections s)(nm \<mapsto> conn)\<rparr>
          in Inr (post_to ioLoop (PostEstablished conn) s1)))"

definition removeConnection :: "conn_ref \<Rightarrow> TcpServer \<Rightarrow> TcpServer" where
  "removeConnection conn s = post_to (baseLoop (threadPool s)) (PostRemove conn) s"

definition removeConnectionInLoop :: "conn_ref \<Rightarrow> TcpServer \<Rightarrow> TcpServer" where
  "removeConnectionInLoop conn s =
     post_to (conn_loop conn) (PostDestroyed conn) (s\<lparr>connections := (connections s)(conn_name conn := None)\<rparr>)"

text \<open>The destructor, with the keys of the table in the order the iteration visits them.\<close>

fun destroy_all :: "string list \<Rightarrow> TcpServer \<Rightarrow> TcpServer" where
  "destroy_all [] s = s"
| "destroy_all (n # ns) s =
     (case connections s n of
        None \<Rightarrow> destroy_all ns s
      | Some conn \<Rightarrow> destroy_all ns (post_to (conn_loop conn) (PostDestroyed conn) (s\<lparr>connections := (connections s)(n := None)\<rparr>)))"

definition TcpServer_destroy :: "string list \<Rightarrow> TcpServer \<Rightarrow> TcpServer" where
  "TcpServer_destroy keys s = destroy_all keys s"

section \<open>Names\<close>

lemma c_string_snprintf:
  assumes "length t < length buf" "CHR 0x00 \<notin> set t"
  shows "c_string (snprintf buf t) = t"
proof -
  have "snprintf buf t = t @ CHR 0x00 # drop (length t + 1) buf" using assms(1) by (simp add: snprintf_def Let_def)
  then show ?thesis using assms(2) by (simp add: c_string_terminated)
qed

lemma decimal_chars: "CHR 0x00 \<notin> set (decimal i)"
  using digits_no_nul [OF decimal_nat_digits] by (simp add: decimal_def)

lemma connName_eq:
  assumes "length (ipPort s) \<le> 21" "CHR 0x00 \<notin> set (ipPort s)" "0 \<le> n" "n < 2 ^ 31"
  shows "connName s n = sname s @ ''-'' @ ipPort s @ ''#'' @ decimal n"
proof -
  have "length (decimal n) \<le> 20" by (rule length_decimal) (use assms(3,4) in simp_all)
  then have "length (''-'' @ ipPort s @ ''#'' @ decimal n) < length (replicate 64 (CHR 0x00))" using assms(1) by simp
  moreover have "CHR 0x00 \<notin> set (''-'' @ ipPort s @ ''#'' @ decimal n)" using assms(2) decimal_chars by simp
  ultimately show ?thesis using c_string_snprintf by (simp add: connName_def)
qed

lemma decimal_inj: "decimal i = decimal j \<Longrightarrow> i = j"
  by (metis parse_decimal)

lemma connName_inj:
  assumes "length (ipPort s) \<le> 21" "CHR 0x00 \<notin> set (ipPort s)" "0 \<le> i" "i < 2 ^ 31" "0 \<le> j" "j < 2 ^ 31" "connName s i = connName s j"
  shows "i = j"
  using connName_eq [OF assms(1-4)] connName_eq [OF assms(1,2,5,6)] assms(7) decimal_inj by simp

section \<open>Runs\<close>

text \<open>
  The server in use. Besides its state, a run has the connections accepted, in order, and those whose
  removal has been run. A removal may be run more than once.
\<close>

datatype server_op = Accept int sockaddr_in | CloseConn conn_ref | RunRemove conn_ref

fun server_step :: "server_op \<Rightarrow> TcpServer \<Rightarrow> TcpServer result" where
  "server_step (Accept fd peer) s = newConnection fd peer s"
| "server_step (CloseConn c) s = Inr (removeConnection c s)"
| "server_step (RunRemove c) s = Inr (removeConnectionInLoop c s)"

fun server_run :: "server_op list \<Rightarrow> TcpServer \<Rightarrow> TcpServer result" where
  "server_run [] s = Inr s"
| "server_run (x # xs) s = bind_r (server_step x s) (server_run xs)"

text \<open>The specification: the connections accepted by a run, from a count and a rotation on, and the table.\<close>

definition nth_conn :: "TcpServer \<Rightarrow> nat \<Rightarrow> int \<Rightarrow> conn_ref" where
  "nth_conn s k fd =
     (let ls = getAllLoops (threadPool s)
      in \<lparr>conn_id = created s + k, conn_name = connName s (nextConnId s + int k),
          conn_loop = ls ! ((nextLoop (threadPool s) + k) mod length ls), conn_fd = fd\<rparr>)"

fun accepted_from :: "TcpServer \<Rightarrow> nat \<Rightarrow> server_op list \<Rightarrow> conn_ref list" where
  "accepted_from s0 k [] = []"
| "accepted_from s0 k (Accept fd peer # xs) = nth_conn s0 k fd # accepted_from s0 (k + 1) xs"
| "accepted_from s0 k (CloseConn c # xs) = accepted_from s0 k xs"
| "accepted_from s0 k (RunRemove c # xs) = accepted_from s0 k xs"

text \<open>A removal is run only for a connection that has been accepted before.\<close>

fun run_legal :: "TcpServer \<Rightarrow> conn_ref list \<Rightarrow> server_op list \<Rightarrow> bool" where
  "run_legal s0 acc [] \<longleftrightarrow> True"
| "run_legal s0 acc (Accept fd peer # xs) \<longleftrightarrow> run_legal s0 (acc @ [nth_conn s0 (length acc) fd]) xs"
| "run_legal s0 acc (CloseConn c # xs) \<longleftrightarrow> c \<in> set acc \<and> run_legal s0 acc xs"
| "run_legal s0 acc (RunRemove c # xs) \<longleftrightarrow> c \<in> set acc \<and> run_legal s0 acc xs"

definition removed_in :: "server_op list \<Rightarrow> conn_ref set" where
  "removed_in xs = {c. RunRemove c \<in> set xs}"

fun is_established :: "loop_id \<times> posted \<Rightarrow> bool" where
  "is_established (l, PostEstablished c) = True"
| "is_established _ = False"

section \<open>Invariant\<close>

definition fresh_server :: "TcpServer \<Rightarrow> bool" where
  "fresh_server s \<longleftrightarrow> length (ipPort s) \<le> 21 \<and> CHR 0x00 \<notin> set (ipPort s) \<and> nextConnId s = 1 \<and> created s = 0 \<and>
     connections s = Map.empty \<and> epool_ok (threadPool s) \<and> nextLoop (threadPool s) = 0 \<and> filter is_established (post s) = []"

definition server_ok :: "TcpServer \<Rightarrow> TcpServer \<Rightarrow> conn_ref list \<Rightarrow> conn_ref set \<Rightarrow> bool" where
  "server_ok s0 s acc rem \<longleftrightarrow> ipPort s = ipPort s0 \<and> sname s = sname s0 \<and> created s = length acc \<and> nextConnId s = 1 + int (length acc) \<and>
     getAllLoops (threadPool s) = getAllLoops (threadPool s0) \<and> epool_ok (threadPool s) \<and>
     nextLoop (threadPool s) = length acc mod length (getAllLoops (threadPool s0)) \<and>
     (\<forall>k<length acc. \<exists>fd. acc ! k = nth_conn s0 k fd) \<and> rem \<subseteq> set acc \<and>
     (\<forall>n c. connections s n = Some c \<longleftrightarrow> c \<in> set acc \<and> c \<notin> rem \<and> conn_name c = n) \<and>
     filter is_established (post s) = map (\<lambda>c. (conn_loop c, PostEstablished c)) acc"

lemma nth_conn_fields:
  assumes "fresh_server s0"
  shows "conn_name (nth_conn s0 k fd) = connName s0 (1 + int k)"
    "conn_loop (nth_conn s0 k fd) = getAllLoops (threadPool s0) ! (k mod length (getAllLoops (threadPool s0)))"
    "conn_id (nth_conn s0 k fd) = k" "conn_fd (nth_conn s0 k fd) = fd"
  using assms by (simp_all add: nth_conn_def fresh_server_def Let_def)

lemma accepted_name:
  assumes f: "fresh_server s0" and ok: "server_ok s0 s acc rem" and c: "c \<in> set acc"
  obtains k where "k < length acc" "conn_name c = connName s0 (1 + int k)" "c = acc ! k"
proof -
  from c obtain k where "k < length acc" "c = acc ! k" by (metis in_set_conv_nth)
  moreover from this ok obtain fd where "acc ! k = nth_conn s0 k fd" by (auto simp: server_ok_def)
  ultimately show thesis using that [of k] nth_conn_fields(1) [OF f, of k fd] by simp
qed

lemma names_differ:
  assumes f: "fresh_server s0" and k: "int i < 2 ^ 31 - 1" "int j < 2 ^ 31 - 1" "connName s0 (1 + int i) = connName s0 (1 + int j)"
  shows "i = j"
  using connName_inj [of s0 "1 + int i" "1 + int j"] f k by (simp add: fresh_server_def)

lemma fresh_server_ok: "fresh_server s0 \<Longrightarrow> server_ok s0 s0 [] {}"
  by (auto simp: fresh_server_def server_ok_def)

lemma connName_cong: "ipPort s = ipPort s0 \<Longrightarrow> sname s = sname s0 \<Longrightarrow> connName s n = connName s0 n"
  by (simp add: connName_def)

lemma newConnection_ok:
  assumes f: "fresh_server s0" and ok: "server_ok s0 s acc rem" and lt: "int (length acc) < 2 ^ 31 - 2"
  obtains s' where "newConnection fd peer s = Inr s'" "server_ok s0 s' (acc @ [nth_conn s0 (length acc) fd]) rem"
proof -
  note D = ok [unfolded server_ok_def]
  let ?P = "threadPool s" and ?ls = "getAllLoops (threadPool s0)" and ?k = "length acc"
  let ?c = "nth_conn s0 ?k fd"
  let ?P1 = "?P\<lparr>nextLoop := (nextLoop ?P + 1) mod length ?ls\<rparr>"
  have g: "getNextLoop ?P = Inr (?ls ! nextLoop ?P, ?P1)" "epool_ok ?P1"
    using getNextLoop_ok [of ?P] D by simp_all
  have nm: "connName s (nextConnId s) = conn_name ?c"
    using D connName_cong [of s s0] nth_conn_fields(1) [OF f] by simp
  have c: "\<lparr>conn_id = created s, conn_name = conn_name ?c, conn_loop = ?ls ! nextLoop ?P, conn_fd = fd\<rparr> = ?c"
    using D nth_conn_fields [OF f, of ?k fd] by simp
  let ?s1 = "s\<lparr>threadPool := ?P1, nextConnId := nextConnId s + 1, created := created s + 1,
      connections := (connections s)(conn_name ?c \<mapsto> ?c)\<rparr>"
  let ?s' = "post_to (conn_loop ?c) (PostEstablished ?c) ?s1"
  have "nextConnId s \<noteq> 2 ^ 31 - 1" using D lt by simp
  moreover have "?ls ! nextLoop ?P = conn_loop ?c" using c by (metis conn_ref.select_convs(3))
  ultimately have "newConnection fd peer s = Inr ?s'"
    using g(1) nm c by (simp add: newConnection_def Let_def)
  moreover have "server_ok s0 ?s' (acc @ [?c]) rem"
  proof -
    have new: "conn_name c' \<noteq> conn_name ?c" if c': "c' \<in> set acc" for c'
    proof -
      obtain k where k: "k < ?k" "conn_name c' = connName s0 (1 + int k)" by (rule accepted_name [OF f ok c'])
      then show ?thesis using names_differ [OF f, of k ?k] lt nth_conn_fields(1) [OF f] by auto
    qed
    then have nr: "?c \<notin> rem" "?c \<notin> set acc" using D by auto
    have tab: "connections ?s' n = Some c \<longleftrightarrow> c \<in> set (acc @ [?c]) \<and> c \<notin> rem \<and> conn_name c = n" for n c
    proof (cases "n = conn_name ?c")
      case True
      then have "connections ?s' n = Some ?c" by (simp add: post_to_def)
      then show ?thesis using True new nr by auto
    next
      case False
      then have "connections ?s' n = connections s n" by (simp add: post_to_def)
      then show ?thesis using D False by auto
    qed
    have conns: "\<forall>k<length (acc @ [?c]). \<exists>fd. (acc @ [?c]) ! k = nth_conn s0 k fd"
      using D by (auto simp: nth_append less_Suc_eq)
    have rot: "(length acc mod length ?ls + 1) mod length ?ls = length (acc @ [?c]) mod length ?ls" by (simp add: mod_Suc_eq)
    have all: "getAllLoops ?P1 = getAllLoops ?P" by (simp add: getAllLoops_def)
    show ?thesis
      unfolding server_ok_def using D tab conns g(2) rot all by (simp add: post_to_def) blast
  qed
  ultimately show thesis using that by blast
qed

lemma server_close_ok: "server_ok s0 s acc rem \<Longrightarrow> server_ok s0 (removeConnection c s) acc rem"
  by (simp add: server_ok_def removeConnection_def post_to_def)

lemma server_remove_ok:
  assumes f: "fresh_server s0" and ok: "server_ok s0 s acc rem" and c: "c \<in> set acc" and lt: "int (length acc) < 2 ^ 31 - 1"
  shows "server_ok s0 (removeConnectionInLoop c s) acc (insert c rem)"
proof -
  note D = ok [unfolded server_ok_def]
  have uniq: "c' = c" if c': "c' \<in> set acc" "conn_name c' = conn_name c" for c'
  proof -
    obtain i where i: "i < length acc" "conn_name c = connName s0 (1 + int i)" "c = acc ! i" by (rule accepted_name [OF f ok c])
    obtain j where j: "j < length acc" "conn_name c' = connName s0 (1 + int j)" "c' = acc ! j" by (rule accepted_name [OF f ok c'(1)])
    have "i = j" by (rule names_differ [OF f]) (use i(1,2) j(1,2) c'(2) lt in simp_all)
    then show ?thesis using i j by simp
  qed
  have tab: "connections (removeConnectionInLoop c s) n = Some d \<longleftrightarrow> d \<in> set acc \<and> d \<notin> insert c rem \<and> conn_name d = n" for n d
  proof (cases "n = conn_name c")
    case True
    then show ?thesis using uniq [of d] by (auto simp: removeConnectionInLoop_def post_to_def)
  next
    case False
    then have "connections (removeConnectionInLoop c s) n = connections s n" by (simp add: removeConnectionInLoop_def post_to_def)
    then show ?thesis using D False by auto
  qed
  show ?thesis
    unfolding server_ok_def using D tab c by (simp add: removeConnectionInLoop_def post_to_def)
qed

lemma server_run_ok:
  assumes f: "fresh_server s0"
  shows "server_ok s0 s acc rem \<Longrightarrow> run_legal s0 acc xs \<Longrightarrow> int (length acc) + int (length xs) < 2 ^ 31 - 1 \<Longrightarrow>
    \<exists>s'. server_run xs s = Inr s' \<and> server_ok s0 s' (acc @ accepted_from s0 (length acc) xs) (rem \<union> removed_in xs)"
proof (induction xs arbitrary: s acc rem)
  case Nil
  then show ?case by (simp add: removed_in_def)
next
  case (Cons x xs)
  have lt: "int (length acc) < 2 ^ 31 - 2" "int (length acc) < 2 ^ 31 - 1" using Cons.prems(3) by simp_all
  show ?case
  proof (cases x)
    case (Accept fd peer)
    obtain s1 where s1: "newConnection fd peer s = Inr s1" "server_ok s0 s1 (acc @ [nth_conn s0 (length acc) fd]) rem"
      by (rule newConnection_ok [OF f Cons.prems(1) lt(1)])
    show ?thesis using Cons.IH [OF s1(2)] Cons.prems(2,3) s1(1) Accept by (simp add: removed_in_def)
  next
    case (CloseConn c)
    show ?thesis using Cons.IH [OF server_close_ok [OF Cons.prems(1)]] Cons.prems(2,3) CloseConn by (simp add: removed_in_def)
  next
    case (RunRemove c)
    then have c: "c \<in> set acc" using Cons.prems(2) by simp
    have r: "insert c rem \<union> removed_in xs = rem \<union> removed_in (x # xs)" using RunRemove by (auto simp: removed_in_def)
    show ?thesis
      using Cons.IH [OF server_remove_ok [OF f Cons.prems(1) c lt(2)]] Cons.prems(2,3) RunRemove r by simp
  qed
qed

section \<open>Starting\<close>

lemma toIpPort_chars:
  assumes "toIpPort a = Inr t"
  shows "length t \<le> 21" "CHR 0x00 \<notin> set t"
proof -
  have t: "t = inet_ntop (sin_addr a) @ '':'' @ decimal_nat (unat (toPort a))" using assms by (simp add: toIpPort_eq)
  show "length t \<le> 21"
    using inet_ntop_chars(1) [of "sin_addr a"] length_decimal_nat [of "unat (toPort a)" 4] port_lt [of "toPort a"] by (simp add: t)
  show "CHR 0x00 \<notin> set t"
    using inet_ntop_chars(2) digits_no_nul [OF decimal_nat_digits] by (simp add: t)
qed

definition started_server :: "(nat \<Rightarrow> loop_id) \<Rightarrow> loop_id \<Rightarrow> int \<Rightarrow> sockaddr_in \<Rightarrow> string \<Rightarrow> TcpServer result" where
  "started_server startLoop base n addr nm =
     bind_r (TcpServer_new base addr nm) (\<lambda>s. Inr (TcpServer_start startLoop (TcpServer_setThreadNum n s)))"

lemma started_server_ok:
  assumes "started_server startLoop base n addr nm = Inr s"
  shows "fresh_server s" "getAllLoops (threadPool s) = (if n \<le> 0 then [base] else map startLoop [0..<nat n])"
    "post s = [(base, PostListen)]"
proof -
  from assms obtain t where t: "toIpPort addr = Inr t"
    and s: "s = TcpServer_start startLoop (TcpServer_setThreadNum n \<lparr>ipPort = t, sname = nm,
      threadPool = EventLoopThreadPool_new base nm, sstarted = 0, nextConnId = 1, connections = Map.empty, post = [], created = 0\<rparr>)"
    by (auto simp: started_server_def TcpServer_new_def bind_r_Inr_iff)
  let ?P = "setThreadNum n (EventLoopThreadPool_new base nm)"
  note st = start_threads_ok [of startLoop 0 "nat n" "?P\<lparr>estarted := True\<rparr>"]
  have P: "loops (threadPool s) = map startLoop [0..<nat n]" "baseLoop (threadPool s) = base" "nextLoop (threadPool s) = 0"
    using st by (simp_all add: s TcpServer_start_def TcpServer_setThreadNum_def EventLoopThreadPool_start_def post_to_def Let_def
        setThreadNum_def EventLoopThreadPool_new_def)
  show post: "post s = [(base, PostListen)]"
    by (simp add: s TcpServer_start_def TcpServer_setThreadNum_def post_to_def Let_def setThreadNum_def EventLoopThreadPool_new_def)
  have "ipPort s = t" "nextConnId s = 1" "created s = 0" "connections s = Map.empty"
    by (simp_all add: s TcpServer_start_def TcpServer_setThreadNum_def post_to_def Let_def)
  then show "fresh_server s"
    using toIpPort_chars [OF t] P post by (simp add: fresh_server_def epool_ok_def)
  show "getAllLoops (threadPool s) = (if n \<le> 0 then [base] else map startLoop [0..<nat n])"
    using P by (simp add: getAllLoops_def)
qed

text \<open>Later calls of \<open>start\<close> only count.\<close>

lemma start_again: "sstarted s \<noteq> 0 \<Longrightarrow> TcpServer_start startLoop s = s\<lparr>sstarted := sstarted s + 1\<rparr>"
  by (simp add: TcpServer_start_def Let_def)

text \<open>The destructor posts the destruction of every connection of the table, once.\<close>

lemma destroy_all_posts:
  "distinct keys \<Longrightarrow> post (destroy_all keys s) =
     post s @ map (\<lambda>c. (conn_loop c, PostDestroyed c)) (List.map_filter (connections s) keys)"
proof (induction keys arbitrary: s)
  case Nil
  then show ?case by (simp add: List.map_filter_def)
next
  case (Cons n ns)
  show ?case
  proof (cases "connections s n")
    case None
    then show ?thesis using Cons by (simp add: List.map_filter_simps)
  next
    case (Some c)
    let ?s = "post_to (conn_loop c) (PostDestroyed c) (s\<lparr>connections := (connections s)(n := None)\<rparr>)"
    have "List.map_filter (connections ?s) ns = List.map_filter (connections s) ns"
      using Cons.prems by (auto simp: List.map_filter_def post_to_def intro!: map_cong filter_cong)
    moreover have "post ?s = post s @ [(conn_loop c, PostDestroyed c)]" by (simp add: post_to_def)
    ultimately show ?thesis using Cons.IH [of ?s] Cons.prems Some by (simp add: List.map_filter_simps)
  qed
qed

section \<open>Properties\<close>

text \<open>C13: The table of connections is exact: for every sequence of accepted connections, closings and
  removals on a started server (up to the range of the connection counter) no step fails, the
  connections get the names \<open>name-ip:port#1\<close>, \<open>#2\<close>, ... and the loops of the pool in turn, each is
  handed to its loop exactly once and in order, and the table holds exactly the connections accepted
  and not removed, each under its own name.\<close>

theorem server_table_exact:
  assumes s: "started_server startLoop base n addr nm = Inr s" and legal: "run_legal s [] xs" and len: "int (length xs) < 2 ^ 31 - 1"
  shows "\<exists>s'. server_run xs s = Inr s' \<and>
    (\<forall>k c. connections s' k = Some c \<longleftrightarrow> c \<in> set (accepted_from s 0 xs) \<and> RunRemove c \<notin> set xs \<and> conn_name c = k) \<and>
    filter is_established (post s') = map (\<lambda>c. (conn_loop c, PostEstablished c)) (accepted_from s 0 xs) \<and>
    (\<forall>i<length (accepted_from s 0 xs).
       conn_name (accepted_from s 0 xs ! i) = nm @ ''-'' @ ipPort s @ ''#'' @ decimal (1 + int i) \<and>
       conn_loop (accepted_from s 0 xs ! i) = (if n \<le> 0 then base else startLoop (i mod nat n)))"
proof -
  note f = started_server_ok [OF s]
  from server_run_ok [OF f(1) fresh_server_ok [OF f(1)] legal] len obtain s' where
    r: "server_run xs s = Inr s'" "server_ok s s' (accepted_from s 0 xs) (removed_in xs)" by auto
  have nm: "sname s = nm"
    using s by (auto simp: started_server_def TcpServer_new_def TcpServer_start_def TcpServer_setThreadNum_def post_to_def
        bind_r_Inr_iff Let_def)
  have le: "length (accepted_from s k xs) \<le> length xs" for k
    by (induction s k xs rule: accepted_from.induct) simp_all
  have "conn_name (accepted_from s 0 xs ! i) = nm @ ''-'' @ ipPort s @ ''#'' @ decimal (1 + int i) \<and>
      conn_loop (accepted_from s 0 xs ! i) = (if n \<le> 0 then base else startLoop (i mod nat n))"
    if i: "i < length (accepted_from s 0 xs)" for i
  proof -
    obtain fd where c: "accepted_from s 0 xs ! i = nth_conn s i fd" using r(2) i by (auto simp: server_ok_def)
    have "connName s (1 + int i) = sname s @ ''-'' @ ipPort s @ ''#'' @ decimal (1 + int i)"
      by (rule connName_eq) (use f(1) i le [of 0] len in \<open>auto simp: fresh_server_def\<close>)
    then show ?thesis using c nth_conn_fields [OF f(1), of i fd] f(2) nm by simp
  qed
  then show ?thesis using r by (auto simp: server_ok_def removed_in_def)
qed

text \<open>A server on 127.0.0.1:8080 with two loop threads that accepts three connections and removes the second.\<close>

definition ex_addr :: sockaddr_in where
  "ex_addr = \<lparr>sin_family = AF_INET, sin_port = htons 8080, sin_addr = (127, 0, 0, 1)\<rparr>"

definition ex_server :: TcpServer where
  "ex_server = (case started_server (\<lambda>i. i + 1) 0 2 ex_addr ''EchoServer'' of Inr s \<Rightarrow> s | Inl _ \<Rightarrow> undefined)"

lemma ex_server: "started_server (\<lambda>i. i + 1) 0 2 ex_addr ''EchoServer'' = Inr ex_server"
  by (simp add: ex_server_def started_server_def TcpServer_new_def toIpPort_eq)

definition ex_run :: "server_op list" where
  "ex_run = [Accept 7 ex_addr, Accept 8 ex_addr, CloseConn (nth_conn ex_server 1 8), Accept 9 ex_addr, RunRemove (nth_conn ex_server 1 8)]"

theorem server_table_exact_witness:
  "\<exists>s'. server_run ex_run ex_server = Inr s' \<and>
    filter is_established (post s') = map (\<lambda>c. (conn_loop c, PostEstablished c))
      [nth_conn ex_server 0 7, nth_conn ex_server 1 8, nth_conn ex_server 2 9]"
proof -
  have "run_legal ex_server [] ex_run" "int (length ex_run) < 2 ^ 31 - 1" by (simp_all add: ex_run_def)
  from server_table_exact [OF ex_server this] obtain s' where "server_run ex_run ex_server = Inr s'"
    "filter is_established (post s') = map (\<lambda>c. (conn_loop c, PostEstablished c)) (accepted_from ex_server 0 ex_run)" by blast
  then show ?thesis by (simp add: ex_run_def numeral_2_eq_2)
qed

end
