(* ===== verification/EchoServer.thy ===== *)
theory EchoServer
  imports TcpConnection TcpServer AsyncLogging
begin

text \<open>
  The demonstration program (\<open>src/main.cc\<close>): the callbacks of \<open>EchoServer\<close>, its set-up, and the output
  function of the logger. The message callback runs in the loop thread of its connection; the answer
  of the kernel to its direct \<open>write\<close> is a parameter, a function of the connection's state.
\<close>

section \<open>Callbacks\<close>

definition CRLF :: string where "CRLF = [CHR 0x0D, CHR 0x0A]"

definition http_body :: string where "http_body = ''Hello Muduo!''"

definition http_resp :: string where
  "http_resp = ''HTTP/1.1 200 OK'' @ CRLF @ ''Content-Length: '' @ decimal_nat (length http_body) @ CRLF @
     ''Connection: keep-alive'' @ CRLF @ CRLF @ http_body"

definition onMessage :: "'k epoll_ctl \<Rightarrow> ('k TcpConnection \<Rightarrow> nat sysret) \<Rightarrow> 'k TcpConnection \<Rightarrow> 'k TcpConnection result" where
  "onMessage ctl kwrite c =
     bind_r (retrieveAllAsString (inputBuffer c)) (\<lambda>(msg, b).
       let c1 = c\<lparr>inputBuffer := b\<rparr> in send ctl (kwrite c1) http_resp c1)"

definition onConnection :: "sockaddr_in \<Rightarrow> 'k TcpConnection \<Rightarrow> string result" where
  "onConnection peer c =
     bind_r (toIpPort peer) (\<lambda>t. Inr ((if connected c then ''Connection UP :'' else ''Connection DOWN :'') @ t))"

text \<open>The constructor of \<open>EchoServer\<close> asks for 16 loop threads; \<open>main\<close> listens on port 8080.\<close>

definition EchoServer_new :: "loop_id \<Rightarrow> sockaddr_in \<Rightarrow> string \<Rightarrow> TcpServer result" where
  "EchoServer_new loop addr nm = bind_r (TcpServer_new loop addr nm) (\<lambda>s. Inr (TcpServer_setThreadNum 16 s))"

text \<open>The output function of the logger: lines go to the asynchronous log when there is one. (\<open>junk\<close> is
  the initial memory of a buffer that the append may have to allocate.)\<close>

definition asyncLog :: "char list \<Rightarrow> AsyncLogging option \<Rightarrow> char list \<Rightarrow> AsyncLogging option result" where
  "asyncLog junk g_asyncLog msg =
     (case g_asyncLog of
        None \<Rightarrow> Inr None
      | Some logging \<Rightarrow> bind_r (AsyncLogging_append junk logging msg) (\<lambda>l. Inr (Some l)))"

section \<open>The contract of the message callback\<close>

text \<open>
  The kernel keeps its contract, the connection is open and satisfies its invariant, and there is room
  in the output buffer for \<open>n\<close> more responses.
\<close>

definition echo_inv :: "'k epoll_ctl \<Rightarrow> ('k \<Rightarrow> int \<Rightarrow> (mask \<times> chan_id) option) \<Rightarrow> ('k TcpConnection \<Rightarrow> nat sysret) \<Rightarrow>
    nat \<Rightarrow> 'k TcpConnection \<Rightarrow> bool" where
  "echo_inv ctl interest kwrite n c \<longleftrightarrow> epoll_spec ctl interest \<and>
     (\<forall>c. \<not> fatal_reply (kwrite c) \<and> (\<forall>k. kwrite c = SysOk k \<longrightarrow> k \<le> length http_resp)) \<and>
     conn_ok interest c \<and> cstate c = kConnected \<and>
     writerIndex (outputBuffer c) + n * length http_resp \<le> ptrdiff_max"

lemma retrieve_all_ok:
  assumes "buf_ok b"
  shows "\<exists>msg b'. retrieveAllAsString b = Inr (msg, b') \<and> msg = content b \<and> buf_ok b' \<and> content b' = [] \<and> buffer b' = buffer b"
proof -
  have "retrieveAllAsString b = Inr (take (readableBytes b) (content b), retrieve b (readableBytes b))"
    using retrieveAsString_ok [OF assms order_refl] by (simp add: retrieveAllAsString_def)
  moreover have "buffer (retrieve b (readableBytes b)) = buffer b" by (simp add: retrieve_def retrieveAll_def)
  ultimately show ?thesis using retrieve_ok [OF assms, of "readableBytes b"] length_content [OF assms] by simp
qed

lemma conn_ok_input: "conn_ok interest c \<Longrightarrow> buf_ok b \<Longrightarrow> conn_ok interest (c\<lparr>inputBuffer := b\<rparr>)"
  by (auto simp: conn_ok_def conn_live_def conn_reg_def)

lemma onMessage_ok:
  assumes inv: "echo_inv ctl interest kwrite (Suc n) c"
  shows "\<exists>c'. onMessage ctl kwrite c = Inr c' \<and> echo_inv ctl interest kwrite n c' \<and> content (inputBuffer c') = [] \<and>
    out_stream c' = out_stream c @ http_resp \<and> length (buffer (inputBuffer c')) \<le> length (buffer (inputBuffer c))"
proof -
  note D = inv [unfolded echo_inv_def]
  from D have "buf_ok (inputBuffer c)" by (auto simp: conn_ok_def conn_live_def)
  from retrieve_all_ok [OF this] obtain b where
    b: "retrieveAllAsString (inputBuffer c) = Inr (content (inputBuffer c), b)" "buf_ok b" "content b = []" "buffer b = buffer (inputBuffer c)"
    by blast
  let ?c1 = "c\<lparr>inputBuffer := b\<rparr>"
  obtain c' where c': "send ctl (kwrite ?c1) http_resp ?c1 = Inr c'" "conn_ok interest c'" "cstate c' = cstate ?c1"
    "out_stream c' = out_stream ?c1 @ (if cstate ?c1 = kConnected then http_resp else [])"
    "writerIndex (outputBuffer c') \<le> writerIndex (outputBuffer ?c1) + length http_resp" "inputBuffer c' = inputBuffer ?c1"
  proof (rule send_ok)
    show "epoll_spec ctl interest" using D by blast
    show "conn_ok interest ?c1" using D conn_ok_input b(2) by blast
    show "\<And>k. kwrite ?c1 = SysOk k \<Longrightarrow> k \<le> length http_resp" "\<not> fatal_reply (kwrite ?c1)" using D by blast+
    show "writerIndex (outputBuffer ?c1) + length http_resp \<le> ptrdiff_max" using D by simp
  qed
  have "onMessage ctl kwrite c = Inr c'" using b(1) c'(1) by (simp add: onMessage_def Let_def)
  moreover have "echo_inv ctl interest kwrite n c'" using D c' by (simp add: echo_inv_def)
  ultimately show ?thesis using c' b D by (simp add: out_stream_def)
qed

interpretation echo: message_callback "onMessage ctl kwrite" "echo_inv ctl interest kwrite" "\<lambda>_. []" "\<lambda>_. http_resp"
  for ctl interest kwrite
proof
  show "buf_ok (inputBuffer c)" if "echo_inv ctl interest kwrite n c" for n c
    using that by (auto simp: echo_inv_def conn_ok_def conn_live_def)
  show "echo_inv ctl interest kwrite n (c\<lparr>inputBuffer := b\<rparr>)" if "echo_inv ctl interest kwrite n c" "buf_ok b" for n c b
    using that conn_ok_input [of interest c b] by (simp add: echo_inv_def)
  show "\<exists>c'. onMessage ctl kwrite c = Inr c' \<and> echo_inv ctl interest kwrite n c' \<and> content (inputBuffer c') = [] \<and>
      out_stream c' = out_stream c @ http_resp \<and> length (buffer (inputBuffer c')) \<le> length (buffer (inputBuffer c))"
    if "echo_inv ctl interest kwrite (Suc n) c" for n c
    by (rule onMessage_ok [OF that])
qed

lemma echo_session: "session (\<lambda>_. []) (\<lambda>_. r) p xs = (if xs = [] then p else [], concat (replicate (length xs) r))"
  by (induction xs arbitrary: p) simp_all

text \<open>The length announced in the header is the length of what follows the empty line.\<close>

lemma http_resp_length:
  "\<exists>hd n. http_resp = hd @ ''Content-Length: '' @ n @ CRLF @ ''Connection: keep-alive'' @ CRLF @ CRLF @ http_body \<and>
    parse_nat n = int (length http_body)"
  using parse_decimal_nat [of "length http_body"]
  by (intro exI [of _ "''HTTP/1.1 200 OK'' @ CRLF"] exI [of _ "decimal_nat (length http_body)"]) (simp add: http_resp_def)

end
