(* ===== verification/CrossThread.thy ===== *)
theory CrossThread
  imports TcpConnection
begin

text \<open>
  \<open>send\<close> and \<open>shutdown\<close> called from a thread that is not the one of the connection's loop. Both test and change the state at
  once, in the caller's thread, and queue a functor for the loop. The functor of \<open>send\<close> has \<open>buf.c_str()\<close> and \<open>buf.size()\<close>,
  an address and a length, but not the bytes: it reads the caller's string when it runs.

  The strings of the other threads are a store from addresses to contents; a string that has been destroyed is at no
  address, and a read there is the error \<open>NullDeref\<close>. The functors are run in the order of queueing (theory \<open>EventLoop\<close>), between them the
  loop sends for its own callbacks and handles reports that the socket is writable. The connection exists throughout: the functors
  hold its bare address, and nothing in the code keeps it alive for them.

  The reference is a connection whose \<open>send\<close> takes the string by value (\<open>value_step\<close>). The code does what it does as long as nobody
  changes or destroys a string while a functor refers to it; what happens otherwise, and what a \<open>shutdown\<close> does to sends that
  are still queued, is at the end.
\<close>

section \<open>Operations\<close>

datatype loop_functor = FSend nat nat | FShutdown

record 'k shared_conn =
  sconn :: "'k TcpConnection"
  smem :: "nat \<Rightarrow> char list option"
  sfun :: "loop_functor list"

definition send_other :: "nat \<Rightarrow> 'k shared_conn \<Rightarrow> 'k shared_conn result" where
  "send_other buf x =
     (if cstate (sconn x) = kConnected
      then (case smem x buf of None \<Rightarrow> Inl NullDeref | Some d \<Rightarrow> Inr (x\<lparr>sfun := sfun x @ [FSend buf (length d)]\<rparr>))
      else Inr x)"

definition shutdown_other :: "'k shared_conn \<Rightarrow> 'k shared_conn" where
  "shutdown_other x =
     (if cstate (sconn x) = kConnected
      then x\<lparr>sconn := setState kDisconnecting (sconn x), sfun := sfun x @ [FShutdown]\<rparr>
      else x)"

fun run_functor :: "'k epoll_ctl \<Rightarrow> nat sysret \<Rightarrow> loop_functor \<Rightarrow> 'k shared_conn \<Rightarrow> 'k TcpConnection result" where
  "run_functor ctl reply (FSend buf len) x =
     (case smem x buf of
        None \<Rightarrow> Inl NullDeref
      | Some d \<Rightarrow> bind_r (vec_read d 0 len) (\<lambda>data. sendInLoop ctl reply data (sconn x)))"
| "run_functor ctl reply FShutdown x = shutdownInLoop (sconn x)"

text \<open>
  A caller stores a string, destroys it or has it sent, or shuts the connection down; the loop runs its next functor, sends
  for a callback, or handles a report that the socket is writable.
\<close>

datatype shared_op =
    StoreString nat "char list"
  | FreeString nat
  | SendOther nat
  | ShutdownOther
  | RunFunctor "nat sysret"
  | SendInLoop "nat sysret" "char list"
  | Writable "nat sysret list"

fun shared_step :: "'k epoll_ctl \<Rightarrow> shared_op \<Rightarrow> 'k shared_conn \<Rightarrow> 'k shared_conn result option" where
  "shared_step ctl (StoreString buf d) x = Some (Inr (x\<lparr>smem := (smem x)(buf \<mapsto> d)\<rparr>))"
| "shared_step ctl (FreeString buf) x = Some (Inr (x\<lparr>smem := (smem x)(buf := None)\<rparr>))"
| "shared_step ctl (SendOther buf) x = Some (send_other buf x)"
| "shared_step ctl ShutdownOther x = Some (Inr (shutdown_other x))"
| "shared_step ctl (RunFunctor reply) x =
     Some (case sfun x of
        [] \<Rightarrow> Inr x
      | f # fs \<Rightarrow> bind_r (run_functor ctl reply f x) (\<lambda>c. Inr (x\<lparr>sconn := c, sfun := fs\<rparr>)))"
| "shared_step ctl (SendInLoop reply d) x = Some (bind_r (send ctl reply d (sconn x)) (\<lambda>c. Inr (x\<lparr>sconn := c\<rparr>)))"
| "shared_step ctl (Writable rs) x = map_option (\<lambda>r. bind_r r (\<lambda>c. Inr (x\<lparr>sconn := c\<rparr>))) (handleWrite ctl rs (sconn x))"

fun shared_run :: "'k epoll_ctl \<Rightarrow> shared_op list \<Rightarrow> 'k shared_conn \<Rightarrow> 'k shared_conn result option" where
  "shared_run ctl [] x = Some (Inr x)"
| "shared_run ctl (oper # ops) x =
     (case shared_step ctl oper x of
        None \<Rightarrow> None
      | Some (Inl e) \<Rightarrow> Some (Inl e)
      | Some (Inr y) \<Rightarrow> shared_run ctl ops y)"

section \<open>Sending by value\<close>

text \<open>The stream to the peer, the texts that wait, and the strings of the callers.\<close>

type_synonym value_conn = "char list \<times> char list list \<times> (nat \<Rightarrow> char list option)"

fun value_step :: "shared_op \<Rightarrow> value_conn \<Rightarrow> value_conn" where
  "value_step (StoreString buf d) (s, p, m) = (s, p, m(buf \<mapsto> d))"
| "value_step (FreeString buf) (s, p, m) = (s, p, m(buf := None))"
| "value_step (SendOther buf) (s, p, m) = (s, p @ (case m buf of None \<Rightarrow> [] | Some d \<Rightarrow> [d]), m)"
| "value_step (RunFunctor reply) (s, p, m) = (case p of [] \<Rightarrow> (s, p, m) | d # ds \<Rightarrow> (s @ d, ds, m))"
| "value_step (SendInLoop reply d) (s, p, m) = (s @ d, p, m)"
| "value_step _ v = v"

text \<open>What the connection has of the reference: a queued functor stands for the text it would read now.\<close>

fun functor_text :: "(nat \<Rightarrow> char list option) \<Rightarrow> loop_functor \<Rightarrow> char list" where
  "functor_text m (FSend buf len) = (case m buf of None \<Rightarrow> [] | Some d \<Rightarrow> take len d)"
| "functor_text m FShutdown = []"

definition as_value :: "'k shared_conn \<Rightarrow> value_conn" where
  "as_value x = (out_stream (sconn x), map (functor_text (smem x)) (sfun x), smem x)"

text \<open>
  What the callers keep to: they send strings that exist, and change or destroy no string a functor refers to; nobody shuts the
  connection down. What the kernel keeps to: it takes no more than it is offered, and the peer has not reset the connection.
\<close>

fun strings_kept :: "shared_op \<Rightarrow> 'k shared_conn \<Rightarrow> bool" where
  "strings_kept (StoreString buf d) x \<longleftrightarrow> (\<forall>f\<in>set (sfun x). \<forall>len. f \<noteq> FSend buf len)"
| "strings_kept (FreeString buf) x \<longleftrightarrow> (\<forall>f\<in>set (sfun x). \<forall>len. f \<noteq> FSend buf len)"
| "strings_kept (SendOther buf) x \<longleftrightarrow> smem x buf \<noteq> None"
| "strings_kept ShutdownOther x \<longleftrightarrow> False"
| "strings_kept _ x \<longleftrightarrow> True"

fun reply_fair :: "shared_op \<Rightarrow> 'k shared_conn \<Rightarrow> bool" where
  "reply_fair (RunFunctor reply) x \<longleftrightarrow> \<not> fatal_reply reply \<and>
     (case sfun x of FSend buf len # fs \<Rightarrow> (case reply of SysOk n \<Rightarrow> n \<le> len | SysErr e \<Rightarrow> True) | _ \<Rightarrow> True)"
| "reply_fair (SendInLoop reply d) x \<longleftrightarrow> op_fair (OpSend reply d) (sconn x)"
| "reply_fair (Writable rs) x \<longleftrightarrow> op_fair (OpWritable rs) (sconn x)"
| "reply_fair _ x \<longleftrightarrow> True"

fun shared_fair :: "'k epoll_ctl \<Rightarrow> shared_op list \<Rightarrow> 'k shared_conn \<Rightarrow> bool" where
  "shared_fair ctl [] x \<longleftrightarrow> True"
| "shared_fair ctl (oper # ops) x \<longleftrightarrow> strings_kept oper x \<and> reply_fair oper x \<and>
     (case shared_step ctl oper x of Some (Inr y) \<Rightarrow> shared_fair ctl ops y | _ \<Rightarrow> True)"

text \<open>Everything the reference has been given.\<close>

fun value_size :: "value_conn \<Rightarrow> nat" where
  "value_size (s, p, m) = length s + sum_list (map length p)"

section \<open>Simulation\<close>

definition shared_inv :: "('k \<Rightarrow> int \<Rightarrow> (mask \<times> chan_id) option) \<Rightarrow> 'k shared_conn \<Rightarrow> bool" where
  "shared_inv interest x \<longleftrightarrow> conn_ok interest (sconn x) \<and> cstate (sconn x) = kConnected \<and>
     writerIndex (outputBuffer (sconn x)) \<le> CheapPrepend + length (out_stream (sconn x)) \<and>
     (\<forall>f\<in>set (sfun x). \<exists>buf d. f = FSend buf (length d) \<and> smem x buf = Some d)"

lemma value_size_mono: "value_size v \<le> value_size (value_step oper v)"
  by (cases "(oper, v)" rule: value_step.cases) (auto split: option.splits list.splits)

lemma value_size_fold: "value_size v \<le> value_size (fold value_step ops v)"
proof (induction ops arbitrary: v)
  case (Cons oper ops)
  show ?case using order_trans [OF value_size_mono Cons.IH] by simp
qed simp

text \<open>Changing a string no functor refers to changes no text that waits.\<close>

lemma other_string:
  assumes "\<forall>f\<in>set fs. \<forall>len. f \<noteq> FSend buf len"
  shows "map (functor_text (m(buf := v))) fs = map (functor_text m) fs"
proof (rule map_cong [OF refl])
  show "functor_text (m(buf := v)) f = functor_text m f" if "f \<in> set fs" for f
    using assms that by (cases f) auto
qed

lemma other_string_inv:
  assumes "shared_inv interest x" "\<forall>f\<in>set (sfun x). \<forall>len. f \<noteq> FSend buf len"
  shows "shared_inv interest (x\<lparr>smem := (smem x)(buf := v)\<rparr>)"
proof -
  have "\<exists>b d. f = FSend b (length d) \<and> ((smem x)(buf := v)) b = Some d" if f: "f \<in> set (sfun x)" for f
  proof -
    from assms(1) f obtain b d where b: "f = FSend b (length d)" "smem x b = Some d" unfolding shared_inv_def by blast
    with assms(2) f have "b \<noteq> buf" by blast
    with b show ?thesis by auto
  qed
  then show ?thesis using assms(1) by (simp add: shared_inv_def)
qed

lemma shared_step_ok:
  assumes sp: "epoll_spec ctl interest" and inv: "shared_inv interest x"
    and ok: "strings_kept oper x" "reply_fair oper x"
    and fits: "CheapPrepend + value_size (value_step oper (as_value x)) \<le> ptrdiff_max"
  shows "\<exists>y. shared_step ctl oper x = Some (Inr y) \<and> shared_inv interest y \<and> as_value y = value_step oper (as_value x)"
proof (cases oper)
  case (StoreString buf d)
  then show ?thesis using other_string [of "sfun x" buf] other_string_inv [OF inv, of buf "Some d"] ok(1) by (simp add: as_value_def)
next
  case (FreeString buf)
  then show ?thesis using other_string [of "sfun x" buf] other_string_inv [OF inv, of buf None] ok(1) by (simp add: as_value_def)
next
  case (SendOther buf)
  with ok(1) obtain d where "smem x buf = Some d" by auto
  then show ?thesis using SendOther inv by (auto simp: send_other_def as_value_def shared_inv_def)
next
  case (RunFunctor reply)
  show ?thesis
  proof (cases "sfun x")
    case Nil
    then show ?thesis using RunFunctor inv by (simp add: as_value_def)
  next
    case (Cons f fs)
    then obtain buf d where f: "f = FSend buf (length d)" "smem x buf = Some d" using inv by (auto simp: shared_inv_def)
    obtain c' where c': "sendInLoop ctl reply d (sconn x) = Inr c'" "conn_live interest c'" "out_stream c' = out_stream (sconn x) @ d"
      "same_conn (sconn x) c'" "writerIndex (outputBuffer c') \<le> writerIndex (outputBuffer (sconn x)) + length d"
      by (rule sendInLoop_ok [OF sp, of "sconn x" reply d])
        (use inv ok(2) fits RunFunctor Cons f in \<open>auto simp: shared_inv_def conn_ok_def as_value_def\<close>)
    then have "shared_step ctl oper x = Some (Inr (x\<lparr>sconn := c', sfun := fs\<rparr>))" using RunFunctor Cons f by (simp add: vec_read_def)
    moreover have "shared_inv interest (x\<lparr>sconn := c', sfun := fs\<rparr>)"
      using inv c' Cons by (auto simp: shared_inv_def conn_ok_def same_conn_def)
    ultimately show ?thesis using c'(3) RunFunctor Cons f by (simp add: as_value_def)
  qed
next
  case (SendInLoop reply d)
  obtain c' where "send ctl reply d (sconn x) = Inr c'" "conn_ok interest c'" "cstate c' = cstate (sconn x)"
    "out_stream c' = out_stream (sconn x) @ (if cstate (sconn x) = kConnected then d else [])"
    "writerIndex (outputBuffer c') \<le> writerIndex (outputBuffer (sconn x)) + length d"
    by (rule send_ok [OF sp, of "sconn x" reply d]) (use inv ok(2) fits SendInLoop in \<open>auto simp: shared_inv_def as_value_def\<close>)
  then show ?thesis using SendInLoop inv by (auto simp: shared_inv_def as_value_def)
next
  case (Writable rs)
  obtain c' where "handleWrite ctl rs (sconn x) = Some (Inr c')" "conn_ok interest c'" "cstate c' = cstate (sconn x)"
    "out_stream c' = out_stream (sconn x)" "writerIndex (outputBuffer c') \<le> writerIndex (outputBuffer (sconn x))"
    by (rule handleWrite_ok [OF sp, of "sconn x" rs]) (use inv ok(2) Writable in \<open>auto simp: shared_inv_def\<close>)
  then show ?thesis using Writable inv by (auto simp: shared_inv_def as_value_def)
qed (use ok(1) in simp)

lemma shared_run_ok:
  assumes sp: "epoll_spec ctl interest"
  shows "shared_inv interest x \<Longrightarrow> shared_fair ctl ops x \<Longrightarrow> CheapPrepend + value_size (fold value_step ops (as_value x)) \<le> ptrdiff_max \<Longrightarrow>
    \<exists>y. shared_run ctl ops x = Some (Inr y) \<and> as_value y = fold value_step ops (as_value x)"
proof (induction ops arbitrary: x)
  case (Cons oper ops)
  from Cons.prems(3) value_size_fold [of "value_step oper (as_value x)" ops]
  have fits: "CheapPrepend + value_size (value_step oper (as_value x)) \<le> ptrdiff_max" by simp
  from shared_step_ok [OF sp Cons.prems(1) _ _ fits] Cons.prems(2) obtain y where
    y: "shared_step ctl oper x = Some (Inr y)" "shared_inv interest y" "as_value y = value_step oper (as_value x)" by auto
  then show ?case using Cons.IH [OF y(2)] Cons.prems(2,3) by simp
qed simp

section \<open>Properties\<close>

text \<open>C37: Sends from other threads reach the peer in the order of the calls and in one stream with what the loop sends itself, as if
  every call had copied its string, in every interleaving of the callers with the loop in which no string is
  changed or destroyed while a queued functor refers to it: no step fails, the bytes the kernel has followed by those still
  buffered are those of the connection that sends by value, and the functors that wait hold its texts that wait.\<close>

theorem cross_thread_sends_by_value:
  assumes sp: "epoll_spec ctl interest" and p: "poller_ok interest p" "chans p cid = None" "channels p fd = None"
    and c: "TcpConnection_new p cid fd = Inr c" "connectEstablished ctl (setWriteCompleteCallback wc c) = Inr c1"
    and x: "x = \<lparr>sconn = c1, smem = m, sfun = []\<rparr>" and v: "fold value_step ops ([], [], m) = (s, w, m')"
    and run: "shared_fair ctl ops x" "CheapPrepend + length s + sum_list (map length w) \<le> ptrdiff_max"
  shows "\<exists>y. shared_run ctl ops x = Some (Inr y) \<and> sent (sconn y) @ content (outputBuffer (sconn y)) = s \<and>
    map (functor_text m') (sfun y) = w \<and> smem y = m'"
proof -
  from connectEstablished_ok [OF sp p c(1), of wc] c(2) have e: "conn_ok interest c1" "cstate c1 = kConnected" "out_stream c1 = []"
    "writerIndex (outputBuffer c1) = CheapPrepend" by auto
  then have "shared_inv interest x" "as_value x = ([], [], m)" by (simp_all add: x shared_inv_def as_value_def)
  from shared_run_ok [OF sp this(1) run(1)] run(2) this(2) v obtain y where
    "shared_run ctl ops x = Some (Inr y)" "as_value y = (s, w, m')" by (auto simp: add.assoc)
  then show ?thesis by (auto simp: as_value_def out_stream_def)
qed

section \<open>Concrete runs\<close>

text \<open>Two threads send; the kernel takes one byte of the first text, and the second is still queued.\<close>

definition ex_shared :: "(int \<Rightarrow> (mask \<times> chan_id) option) shared_conn" where
  "ex_shared = \<lparr>sconn = ex_live, smem = Map.empty, sfun = []\<rparr>"

definition ex_calls :: "shared_op list" where
  "ex_calls = [StoreString 16 ''ab'', SendOther 16, StoreString 32 ''cd'', SendOther 32, RunFunctor (SysOk 1), FreeString 16]"

lemma ex_calls_fair: "shared_fair list_ctl ex_calls ex_shared"
  by (simp add: ex_calls_def ex_shared_def send_other_def vec_read_def conn_eval split: option.split sum.split)

theorem cross_thread_sends_by_value_witness:
  "\<exists>y. shared_run list_ctl ex_calls ex_shared = Some (Inr y) \<and> sent (sconn y) @ content (outputBuffer (sconn y)) = ''ab'' \<and>
    map (functor_text [32 \<mapsto> ''cd'']) (sfun y) = [''cd''] \<and> smem y = [32 \<mapsto> ''cd'']"
proof -
  have m: "(([16 \<mapsto> ''ab''])(32 \<mapsto> ''cd''))(16 := None) = [32 :: nat \<mapsto> ''cd'']" by auto
  have v: "fold value_step ex_calls ([], [], Map.empty) = (''ab'', [''cd''], [32 \<mapsto> ''cd''])" by (simp add: ex_calls_def m)
  show ?thesis
    by (rule cross_thread_sends_by_value [OF list_ctl_spec empty_poller_ok _ _ ex_conn_new ex_live_new ex_shared_def v ex_calls_fair])
      (simp_all add: EPollPoller_new_def CheapPrepend_def ptrdiff_max_def)
qed

text \<open>A string destroyed before its functor has run is read all the same; in the place of one that was changed, bytes of the
  new text are sent.\<close>

lemma destroyed_string_read:
  "shared_run list_ctl [StoreString 16 ''hi'', SendOther 16, FreeString 16, RunFunctor (SysOk 2)] ex_shared = Some (Inl NullDeref)"
  by (simp add: ex_shared_def send_other_def ex_live(4))

lemma changed_string_sent:
  "\<exists>y. shared_run list_ctl [StoreString 16 ''hi'', SendOther 16, StoreString 16 ''password'', RunFunctor (SysOk 2)] ex_shared = Some (Inr y) \<and>
    sent (sconn y) = ''pa''"
  by (simp add: ex_shared_def send_other_def vec_read_def conn_eval)

text \<open>
  \<open>shutdown\<close> sets the state in the caller's thread, ahead of the functors of earlier sends: when the loop empties its buffer
  before it comes to them, it half-closes the connection, and what they send then is lost.
\<close>

lemma shutdown_overtakes_send:
  "\<exists>y z. shared_run list_ctl [StoreString 16 ''cd'', SendInLoop (SysErr EAGAIN) ''ab'', SendOther 16, ShutdownOther,
      Writable [SysOk 2, SysErr EAGAIN]] ex_shared = Some (Inr y) \<and> sent (sconn y) = ''ab'' \<and>
    count_list (effects (sconn y)) ShutdownWrite = 1 \<and> sfun y = [FSend 16 2, FShutdown] \<and>
    shared_run list_ctl [RunFunctor (SysErr EPIPE), RunFunctor (SysErr EPIPE)] y = Some (Inr z) \<and> sfun z = [] \<and> out_stream (sconn z) = ''ab''"
  by (simp add: ex_shared_def send_other_def shutdown_other_def vec_read_def conn_eval handleWrite_def writeFd_def output_drained_def
      retrieve_def retrieveAll_def out_stream_def content_def CheapPrepend_def)

end
