(* ===== verification/Lifecycle.thy ===== *)
theory Lifecycle
  imports EchoServer
begin

unbundle bit_operations_syntax

text \<open>
  The server with all its connections and loops: theories \<open>TcpServer\<close>, \<open>TcpConnection\<close>, \<open>Poller\<close> and the
  queues of functors put together, in every interleaving of the loop threads.

  The state has the server, one poller and one queue of functors per loop, and the connection objects
  that exist. A connection object is owned by \<open>shared_ptr\<close>s: the entry of the server's table and one in
  every queued functor; when the last of them is gone the object is destroyed, and with it its
  socket and its channel (\<open>release\<close>). The poller and the kernel hold bare pointers to channels; using
  one whose channel has been destroyed is the error \<open>NullDeref\<close>, and so is running a functor whose object
  does not exist.

  The body of the destructor of the server runs in the thread of the base loop, after that loop has ended; it hands every connection to
  \<open>connectDestroyed\<close> in its loop, and the loops of the threads go on until they are joined; the members of the server, with
  the thread pool that joins the loops, are destroyed after it (theory \<open>Destruction\<close>). Close callbacks and removals hold
  the bare address of the server: a removal that runs after the destructor is the error \<open>NullDeref\<close> too.

  One event is the callbacks of one reported channel (the reports of one \<open>epoll_wait\<close> are taken one by one), one functor, or one call of the application in the thread
  of a connection's loop. Functors of one loop run in the order of queueing (theory \<open>EventLoop\<close>). Calls of
  \<open>runInLoop\<close> from the thread of the loop itself run at once. The functors are those of the server (\<open>posted\<close>); those that
  \<open>send\<close> and \<open>shutdown\<close> queue when another thread calls them are in theory \<open>CrossThread\<close>.
\<close>

section \<open>State and events\<close>

record 'k system =
  server :: TcpServer
  pollers :: "loop_id \<Rightarrow> 'k EPollPoller"
  queues :: "loop_id \<Rightarrow> posted list"
  objects :: "nat \<Rightarrow> (conn_ref \<times> 'k TcpConnection) option"
  accepted :: "conn_ref list"
  removed :: "conn_ref list"
  down :: bool

text \<open>
  \<open>accepted\<close> and \<open>removed\<close> are histories; \<open>down\<close> tells that the destructor of the server has been entered. Channels 0 and 1 of a loop are its wakeup channel and the acceptor's; connection
  \<open>i\<close> has channel \<open>i + 2\<close>.
\<close>

definition chan_of :: "nat \<Rightarrow> chan_id" where "chan_of i = i + 2"

definition base_loop :: "'k system \<Rightarrow> loop_id" where
  "base_loop S = baseLoop (threadPool (server S))"

definition all_loops :: "'k system \<Rightarrow> loop_id list" where
  "all_loops S = base_loop S # getAllLoops (threadPool (server S))"

fun posted_ref :: "posted \<Rightarrow> conn_ref option" where
  "posted_ref PostListen = None"
| "posted_ref (PostEstablished c) = Some c"
| "posted_ref (PostRemove c) = Some c"
| "posted_ref (PostDestroyed c) = Some c"

definition enqueue :: "loop_id \<Rightarrow> posted \<Rightarrow> 'k system \<Rightarrow> 'k system" where
  "enqueue l f S = S\<lparr>queues := (queues S)(l := queues S l @ [f])\<rparr>"

text \<open>An operation on the object of a connection, with the poller of its loop.\<close>

definition on_object :: "loop_id \<Rightarrow> nat \<Rightarrow> ('k TcpConnection \<Rightarrow> 'k TcpConnection result) \<Rightarrow> 'k system \<Rightarrow> 'k system result" where
  "on_object l i f S =
     (case objects S i of
        None \<Rightarrow> Inl NullDeref
      | Some (c, k) \<Rightarrow>
          bind_r (f (k\<lparr>cpoller := pollers S l\<rparr>)) (\<lambda>k'.
            Inr (S\<lparr>objects := (objects S)(i \<mapsto> (c, k')), pollers := (pollers S)(l := cpoller k')\<rparr>)))"

text \<open>
  The last \<open>shared_ptr\<close> to a connection goes: the object is destroyed with its channel and its socket. The pollers and the
  kernel are not told: what they still point to dangles.
\<close>

definition referenced :: "'k system \<Rightarrow> conn_ref \<Rightarrow> bool" where
  "referenced S c \<longleftrightarrow> connections (server S) (conn_name c) = Some c \<or>
     (\<exists>l\<in>set (all_loops S). Some c \<in> set (map posted_ref (queues S l)))"

definition release :: "conn_ref \<Rightarrow> 'k system \<Rightarrow> 'k system" where
  "release c S =
     (if referenced S c then S
      else S\<lparr>objects := (objects S)(conn_id c := None),
             pollers := (pollers S)(conn_loop c := (pollers S (conn_loop c))\<lparr>chans := (chans (pollers S (conn_loop c)))(chan_of (conn_id c) := None)\<rparr>)\<rparr>)"

text \<open>
  Running a functor in the thread of loop \<open>me\<close>. What \<open>removeConnectionInLoop\<close> posts goes through \<open>queueInLoop\<close>. The functor
  that starts the acceptor (\<open>PostListen\<close>) has been run before the first connection; it is in theory \<open>Net\<close>.
\<close>

fun run_posted :: "'k epoll_ctl \<Rightarrow> loop_id \<Rightarrow> posted \<Rightarrow> 'k system \<Rightarrow> 'k system result" where
  "run_posted ctl me PostListen S = Inr S"
| "run_posted ctl me (PostEstablished c) S = on_object me (conn_id c) (connectEstablished ctl) S"
| "run_posted ctl me (PostRemove c) S =
     (if down S then Inl NullDeref
      else (let s' = removeConnectionInLoop c (server S); (l, f) = List.last (post s')
            in Inr (enqueue l f (S\<lparr>server := s', removed := removed S @ [c]\<rparr>))))"
| "run_posted ctl me (PostDestroyed c) S = on_object me (conn_id c) (connectDestroyed ctl) S"

text \<open>\<open>runInLoop\<close> called in the thread of loop \<open>me\<close>.\<close>

definition run_in_loop :: "'k epoll_ctl \<Rightarrow> loop_id \<Rightarrow> loop_id \<times> posted \<Rightarrow> 'k system \<Rightarrow> 'k system result" where
  "run_in_loop ctl me p S = (case p of (l, f) \<Rightarrow> if l = me then run_posted ctl me f S else Inr (enqueue l f S))"

text \<open>A new connection, in the thread of the base loop: the server's callback, with the object it creates.\<close>

definition sys_accept :: "'k epoll_ctl \<Rightarrow> int \<Rightarrow> sockaddr_in \<Rightarrow> 'k system \<Rightarrow> 'k system result" where
  "sys_accept ctl fd peer S =
     bind_r (newConnection fd peer (server S)) (\<lambda>s'.
       let (l, f) = List.last (post s') in
       case posted_ref f of
         None \<Rightarrow> Inl NullDeref
       | Some c \<Rightarrow>
           bind_r (TcpConnection_new (pollers S l) (chan_of (conn_id c)) fd) (\<lambda>k.
             run_in_loop ctl (base_loop S) (l, f)
               (S\<lparr>server := s', objects := (objects S)(conn_id c \<mapsto> (c, k)), pollers := (pollers S)(l := cpoller k),
                  accepted := accepted S @ [c]\<rparr>)))"

text \<open>
  The next functor of a loop; its bound \<open>shared_ptr\<close> goes when it has run. (In the code it goes at the end of the batch that
  \<open>doPendingFunctors\<close> has taken: an object lives at most longer than here.)
\<close>

definition sys_run :: "'k epoll_ctl \<Rightarrow> loop_id \<Rightarrow> 'k system \<Rightarrow> 'k system result" where
  "sys_run ctl l S =
     (case queues S l of
        [] \<Rightarrow> Inr S
      | f # fs \<Rightarrow>
          bind_r (run_posted ctl l f (S\<lparr>queues := (queues S)(l := fs)\<rparr>)) (\<lambda>S'.
            Inr (case posted_ref f of None \<Rightarrow> S' | Some c \<Rightarrow> release c S')))"

text \<open>The close callback of a connection is \<open>removeConnection\<close>; it is called in the thread of its loop.\<close>

fun close_calls :: "'k epoll_ctl \<Rightarrow> conn_ref \<Rightarrow> nat \<Rightarrow> 'k system \<Rightarrow> 'k system result" where
  "close_calls ctl c 0 S = Inr S"
| "close_calls ctl c (Suc n) S =
     (let s' = removeConnection c (server S)
      in bind_r (run_in_loop ctl (conn_loop c) (List.last (post s')) (S\<lparr>server := s'\<rparr>)) (close_calls ctl c n))"

text \<open>
  The kernel reports events \<open>r\<close> for a channel of a connection: the poller stores them, the channel calls its
  callbacks. The close callback has been called as often as the handlers have recorded it.
\<close>

definition sys_event :: "'k epoll_ctl \<Rightarrow> ('k TcpConnection \<Rightarrow> 'k TcpConnection result) \<Rightarrow> loop_id \<Rightarrow> chan_id \<Rightarrow> mask \<Rightarrow>
    char list sysret list \<Rightarrow> nat sysret list \<Rightarrow> 'k system \<Rightarrow> 'k system result option" where
  "sys_event ctl mcb l cid r rr wr S =
     (case (fillActiveChannels [(r, cid)] (pollers S l), objects S (cid - 2)) of
        (Inr (_, p), Some (c, k)) \<Rightarrow>
          map_option (\<lambda>res. bind_r res (\<lambda>k'.
            close_calls ctl c (count_list (drop (length (effects k)) (effects k')) CloseCallbackCall)
              (S\<lparr>objects := (objects S)(cid - 2 \<mapsto> (c, k')), pollers := (pollers S)(l := cpoller k')\<rparr>)))
            (conn_handleEvent ctl mcb rr wr (k\<lparr>cpoller := p\<rparr>))
      | _ \<Rightarrow> Some (Inl NullDeref))"

text \<open>
  The body of the destructor of the server, in the thread of the base loop after that loop has ended, with the names of
  the table in the order of the iteration: every connection is handed to \<open>connectDestroyed\<close> in its loop, and the
  table's pointer to it is reset.
\<close>

fun destroy_conns :: "'k epoll_ctl \<Rightarrow> string list \<Rightarrow> 'k system \<Rightarrow> 'k system result" where
  "destroy_conns ctl [] S = Inr S"
| "destroy_conns ctl (n # ns) S =
     (case connections (server S) n of
        None \<Rightarrow> destroy_conns ctl ns S
      | Some c \<Rightarrow>
          (let s' = destroy_all [n] (server S)
           in bind_r (run_in_loop ctl (base_loop S) (List.last (post s')) (S\<lparr>server := s', removed := removed S @ [c]\<rparr>)) (\<lambda>S'.
                destroy_conns ctl ns (release c S'))))"

definition sys_destroy :: "'k epoll_ctl \<Rightarrow> string list \<Rightarrow> 'k system \<Rightarrow> 'k system result" where
  "sys_destroy ctl names S = destroy_conns ctl names (S\<lparr>down := True\<rparr>)"

datatype sys_ev =
    EvAccept int sockaddr_in
  | EvRun loop_id
  | EvChannel loop_id chan_id mask "char list sysret list" "nat sysret list"
  | EvSend nat "nat sysret" "char list"
  | EvShutdown nat
  | EvDestroy "string list"

fun sys_step :: "'k epoll_ctl \<Rightarrow> ('k TcpConnection \<Rightarrow> 'k TcpConnection result) \<Rightarrow> sys_ev \<Rightarrow> 'k system \<Rightarrow> 'k system result option" where
  "sys_step ctl mcb (EvAccept fd peer) S = Some (sys_accept ctl fd peer S)"
| "sys_step ctl mcb (EvRun l) S = Some (sys_run ctl l S)"
| "sys_step ctl mcb (EvChannel l cid r rr wr) S = sys_event ctl mcb l cid r rr wr S"
| "sys_step ctl mcb (EvSend i reply d) S =
     Some (case objects S i of None \<Rightarrow> Inl NullDeref | Some (c, k) \<Rightarrow> on_object (conn_loop c) i (send ctl reply d) S)"
| "sys_step ctl mcb (EvShutdown i) S =
     Some (case objects S i of None \<Rightarrow> Inl NullDeref | Some (c, k) \<Rightarrow> on_object (conn_loop c) i TcpConnection_shutdown S)"
| "sys_step ctl mcb (EvDestroy names) S = Some (sys_destroy ctl names S)"

text \<open>
  What the outside guarantees: \<open>accept4\<close> returns a descriptor that is not open, the kernel reports
  only channels of its interest list, the application uses only connections that exist, the iteration over the table
  meets every name once. Once the server is being destroyed the base loop runs no more; the loops of the
  threads go on until they are joined.
\<close>

definition runs_loop :: "'k system \<Rightarrow> loop_id \<Rightarrow> bool" where
  "runs_loop S l \<longleftrightarrow> \<not> (down S \<and> l = base_loop S)"

fun ev_ok :: "('k \<Rightarrow> int \<Rightarrow> (mask \<times> chan_id) option) \<Rightarrow> sys_ev \<Rightarrow> 'k system \<Rightarrow> bool" where
  "ev_ok interest (EvAccept fd peer) S \<longleftrightarrow> \<not> down S \<and> (\<forall>l cid ch. chans (pollers S l) cid = Some ch \<longrightarrow> cfd ch \<noteq> fd)"
| "ev_ok interest (EvRun l) S \<longleftrightarrow> runs_loop S l \<and> queues S l \<noteq> []"
| "ev_ok interest (EvChannel l cid r rr wr) S \<longleftrightarrow> runs_loop S l \<and> 2 \<le> cid \<and> (\<exists>fd m. interest (kernel (pollers S l)) fd = Some (m, cid))"
| "ev_ok interest (EvSend i reply d) S \<longleftrightarrow> (\<exists>c k. objects S i = Some (c, k) \<and> runs_loop S (conn_loop c))"
| "ev_ok interest (EvShutdown i) S \<longleftrightarrow> (\<exists>c k. objects S i = Some (c, k) \<and> runs_loop S (conn_loop c))"
| "ev_ok interest (EvDestroy names) S \<longleftrightarrow> \<not> down S \<and> distinct names \<and> set names = dom (connections (server S))"

section \<open>What a connection can do\<close>

text \<open>
  The elementary actions of the handlers of one connection: switching its interest in writing, exchanging
  data, recording an effect, starting the half-close, closing.
\<close>

inductive conn_act :: "'k epoll_ctl \<Rightarrow> 'k TcpConnection \<Rightarrow> 'k TcpConnection \<Rightarrow> bool" for ctl where
  act_write: "conn_do ctl oper c = Inr c' \<Longrightarrow> oper \<in> {EnableWriting, DisableWriting} \<Longrightarrow> conn_act ctl c c'"
| act_effect: "e \<noteq> CloseCallbackCall \<Longrightarrow> conn_act ctl c (effect e c)"
| act_input: "conn_act ctl c (c\<lparr>inputBuffer := b\<rparr>)"
| act_output: "conn_act ctl c (c\<lparr>outputBuffer := b\<rparr>)"
| act_sent: "conn_act ctl c (c\<lparr>sent := d\<rparr>)"
| act_shutdown: "cstate c = kConnected \<Longrightarrow> conn_act ctl c (setState kDisconnecting c)"
| act_close: "handleClose ctl c = Inr c' \<Longrightarrow> conn_act ctl c c'"

abbreviation conn_acts :: "'k epoll_ctl \<Rightarrow> 'k TcpConnection \<Rightarrow> 'k TcpConnection \<Rightarrow> bool" where
  "conn_acts ctl \<equiv> (conn_act ctl)\<^sup>*\<^sup>*"

lemma conn_act_acts: "conn_act ctl c c' \<Longrightarrow> conn_acts ctl c c'"
  by (rule r_into_rtranclp)

lemmas conn_act_steps = conn_act.intros [THEN conn_act_acts]

lemma acts_output_sent: "conn_acts ctl c (c\<lparr>outputBuffer := b, sent := d\<rparr>)"
  using act_output [of ctl c b] act_sent [of ctl "c\<lparr>outputBuffer := b\<rparr>" d] by (meson converse_rtranclp_into_rtranclp r_into_rtranclp)

lemma acts_effect_if: "e \<noteq> CloseCallbackCall \<Longrightarrow> conn_acts ctl c (if b then effect e c else c)"
  by (simp add: conn_act_steps(2))

lemma shutdownInLoop_acts: "shutdownInLoop c = Inr c' \<Longrightarrow> conn_acts ctl c c'"
  by (auto simp: shutdownInLoop_def bind_r_Inr_iff intro: conn_act_steps split: if_splits)

lemma shutdown_acts:
  assumes "TcpConnection_shutdown c = Inr c'"
  shows "conn_acts ctl c c'"
proof (cases "cstate c = kConnected")
  case True
  then have "conn_acts ctl (setState kDisconnecting c) c'"
    using assms shutdownInLoop_acts by (simp add: TcpConnection_shutdown_def)
  then show ?thesis using act_shutdown [OF True, of ctl] by (rule converse_rtranclp_into_rtranclp [rotated])
qed (use assms in \<open>simp add: TcpConnection_shutdown_def\<close>)

lemma output_drained_acts:
  assumes "output_drained ctl c = Inr c'"
  shows "conn_acts ctl c c'"
proof -
  from assms obtain c1 where c1: "conn_do ctl DisableWriting c = Inr c1"
    and r: "(let c2 = (if hasWriteComplete c1 then effect QueueWriteComplete c1 else c1)
       in if cstate c2 = kDisconnecting then shutdownInLoop c2 else Inr c2) = Inr c'"
    by (auto simp: output_drained_def bind_r_Inr_iff)
  have "conn_acts ctl c c1" using c1 by (auto intro: conn_act_steps)
  also have "conn_acts ctl c1 (if hasWriteComplete c1 then effect QueueWriteComplete c1 else c1)" by (rule acts_effect_if) simp
  also have "conn_acts ctl \<dots> c'" using r shutdownInLoop_acts by (auto simp: Let_def split: if_splits)
  finally show ?thesis .
qed

lemma write_loop_acts: "write_loop ctl rs c = Some (Inr c') \<Longrightarrow> conn_acts ctl c c'"
proof (induction ctl rs c rule: write_loop.induct)
  case (2 ctl r rs c)
  from "2.prems" obtain data n e where w: "writeFd (outputBuffer c) r = Inr (data, n, e)"
    by (auto split: sum.splits)
  let ?c1 = "c\<lparr>outputBuffer := retrieve (outputBuffer c) (nat n), sent := sent c @ take (nat n) data\<rparr>"
  show ?case
  proof (cases "0 < n")
    case n: True
    have a: "conn_acts ctl c ?c1" by (rule acts_output_sent)
    show ?thesis
    proof (cases "readableBytes (outputBuffer ?c1) = 0")
      case True
      with "2.prems" n w obtain c2 where c2: "output_drained ctl ?c1 = Inr c2" "write_loop ctl rs c2 = Some (Inr c')"
        by (auto simp: Let_def split: sum.splits)
      then have "conn_acts ctl c2 c'" using "2.IH"(1) [OF w] n True by blast
      with a output_drained_acts [OF c2(1)] show ?thesis by (blast intro: rtranclp_trans)
    next
      case False
      then have "write_loop ctl rs ?c1 = Some (Inr c')" using "2.prems" n w by (auto simp: Let_def)
      then have "conn_acts ctl ?c1 c'" using "2.IH"(2) [OF w] n False by blast
      with a show ?thesis by (blast intro: rtranclp_trans)
    qed
  next
    case False
    then show ?thesis using "2.prems" w by (auto intro: conn_act_steps split: if_splits)
  qed
qed simp

lemma handleWrite_acts: "handleWrite ctl rs c = Some (Inr c') \<Longrightarrow> conn_acts ctl c c'"
  by (auto simp: handleWrite_def intro: write_loop_acts conn_act_steps split: sum.splits if_splits)

lemma direct_write_acts:
  assumes "direct_write reply data ch c = (c1, nw, rem, fault)"
  shows "conn_acts ctl c c1"
proof -
  have s: "conn_acts ctl c (if b then effect QueueWriteComplete (c\<lparr>sent := d\<rparr>) else c\<lparr>sent := d\<rparr>)" for b d
    using conn_act_steps(5) [of ctl c d] acts_effect_if [of QueueWriteComplete ctl "c\<lparr>sent := d\<rparr>" b] by (auto intro: rtranclp_trans)
  show ?thesis
    using assms s [of True] s [of False]
    by (auto simp: direct_write_def Let_def intro: conn_act_steps split: if_splits sysret.splits)
qed

lemma buffer_rest_acts:
  assumes "buffer_rest ctl rest ch c = Inr c'"
  shows "conn_acts ctl c c'"
proof -
  define c2 where "c2 = (if highWaterMark c \<le> sz_add (readableBytes (outputBuffer c)) (length rest) \<and>
      readableBytes (outputBuffer c) < highWaterMark c \<and> hasHighWaterMark c
      then effect (QueueHighWaterMark (sz_add (readableBytes (outputBuffer c)) (length rest))) c else c)"
  from assms obtain b where b: "(if \<not> isWriting ch then conn_do ctl EnableWriting (c2\<lparr>outputBuffer := b\<rparr>) else Inr (c2\<lparr>outputBuffer := b\<rparr>)) = Inr c'"
    unfolding buffer_rest_def c2_def [symmetric] Let_def by (auto simp: bind_r_Inr_iff)
  have "conn_acts ctl c c2" unfolding c2_def by (rule acts_effect_if) simp
  also have "conn_acts ctl c2 (c2\<lparr>outputBuffer := b\<rparr>)" by (rule conn_act_steps)
  also have "conn_acts ctl \<dots> c'" using b by (auto intro: conn_act_steps split: if_splits)
  finally show ?thesis .
qed

lemma send_acts:
  assumes "send ctl reply data c = Inr c'"
  shows "conn_acts ctl c c'"
proof (cases "cstate c = kConnected")
  case True
  with assms obtain ch where "conn_channel c = Inr ch"
    and s: "(case direct_write reply data ch c of (c1, nwrote, remaining, faultError) \<Rightarrow>
          if \<not> faultError \<and> 0 < remaining then buffer_rest ctl (take remaining (drop nwrote data)) ch c1 else Inr c1) = Inr c'"
    by (auto simp: send_def sendInLoop_def Let_def bind_r_Inr_iff)
  obtain c1 nw rem fault where d: "direct_write reply data ch c = (c1, nw, rem, fault)" by (metis prod_cases4)
  have "conn_acts ctl c1 c'" using s d buffer_rest_acts by (auto split: if_splits)
  with direct_write_acts [OF d] show ?thesis by (rule rtranclp_trans)
qed (use assms in \<open>simp add: send_def\<close>)

text \<open>A message callback that acts on the connection only through its interface.\<close>

definition callback_acts :: "'k epoll_ctl \<Rightarrow> ('k TcpConnection \<Rightarrow> 'k TcpConnection result) \<Rightarrow> bool" where
  "callback_acts ctl mcb \<longleftrightarrow> (\<forall>c c'. mcb c = Inr c' \<longrightarrow> conn_acts ctl c c')"

lemma onMessage_acts: "callback_acts ctl (onMessage ctl kwrite)"
  unfolding callback_acts_def
proof (intro allI impI)
  fix c c' :: "'a TcpConnection"
  assume "onMessage ctl kwrite c = Inr c'"
  then obtain b where "send ctl (kwrite (c\<lparr>inputBuffer := b\<rparr>)) http_resp (c\<lparr>inputBuffer := b\<rparr>) = Inr c'"
    by (auto simp: onMessage_def bind_r_Inr_iff Let_def)
  from send_acts [OF this] conn_act_steps(3) [of ctl c b] show "conn_acts ctl c c'" by (blast intro: rtranclp_trans)
qed

lemma handleError_acts: "handleError ctl c = Inr c' \<Longrightarrow> conn_acts ctl c c'"
  using conn_act_steps(2) [of LogError ctl c] conn_act_steps(7) [of ctl "effect LogError c" c']
  by (auto simp: handleError_def intro: rtranclp_trans)

lemma handleRead_acts:
  assumes "callback_acts ctl mcb"
  shows "handleRead ctl mcb rs c = Some (Inr c') \<Longrightarrow> conn_acts ctl c c'"
proof (induction rs arbitrary: c)
  case (Cons r rs)
  from Cons.prems obtain b n e where r: "readFd (inputBuffer c) r = Inr (b, n, e)" by (auto split: sum.splits)
  let ?c1 = "c\<lparr>inputBuffer := b\<rparr>"
  have a: "conn_acts ctl c ?c1" by (rule conn_act_steps)
  have "conn_acts ctl ?c1 c'"
  proof (cases "0 < n")
    case True
    with Cons.prems r obtain c2 where "mcb ?c1 = Inr c2" "handleRead ctl mcb rs c2 = Some (Inr c')"
      by (auto simp: Let_def split: sum.splits)
    then show ?thesis using Cons.IH assms by (auto simp: callback_acts_def intro: rtranclp_trans)
  next
    case False
    have er: "conn_acts ctl ?c1 c'" if "handleError ctl (effect LogError ?c1) = Inr c'"
      using conn_act_steps(2) [of LogError ctl ?c1] handleError_acts [OF that] by (auto intro: rtranclp_trans)
    show ?thesis using Cons.prems r False er by (auto simp: Let_def intro: conn_act_steps split: if_splits)
  qed
  with a show ?case by (rule rtranclp_trans)
qed simp

lemma run_callbacks_acts:
  assumes "callback_acts ctl mcb"
  shows "run_callbacks ctl mcb rr wr cbs c = Some (Inr c') \<Longrightarrow> conn_acts ctl c c'"
proof (induction cbs arbitrary: c)
  case (Cons cb cbs)
  from Cons.prems obtain c1 where c1: "(case cb of
              ReadCallback \<Rightarrow> handleRead ctl mcb rr c
            | WriteCallback \<Rightarrow> handleWrite ctl wr c
            | CloseCallback \<Rightarrow> Some (handleClose ctl c)
            | ErrorCallback \<Rightarrow> Some (handleError ctl c)) = Some (Inr c1)" "run_callbacks ctl mcb rr wr cbs c1 = Some (Inr c')"
    by (auto split: option.splits sum.splits)
  have "conn_acts ctl c c1"
    using c1(1) handleRead_acts [OF assms] handleWrite_acts handleError_acts conn_act_steps(7)
    by (cases cb) (auto split: option.splits)
  with Cons.IH [OF c1(2)] show ?case by (blast intro: rtranclp_trans)
qed simp

lemma conn_handleEvent_acts:
  "callback_acts ctl mcb \<Longrightarrow> conn_handleEvent ctl mcb rr wr c = Some (Inr c') \<Longrightarrow> conn_acts ctl c c'"
  by (auto simp: conn_handleEvent_def intro: run_callbacks_acts split: sum.splits)

text \<open>
  A connection that has been established and not yet destroyed: its channel is in the poller's table; while it
  is open, the kernel watches the channel for reading.
\<close>

definition alive :: "('k \<Rightarrow> int \<Rightarrow> (mask \<times> chan_id) option) \<Rightarrow> Channel \<Rightarrow> 'k TcpConnection \<Rightarrow> bool" where
  "alive interest ch c \<longleftrightarrow> poller_ok interest (cpoller c) \<and> chans (cpoller c) (cchan c) = Some ch \<and> index ch \<noteq> kNew \<and>
     (cstate c = kDisconnected \<or> cstate c \<in> {kConnected, kDisconnecting} \<and> index ch = kAdded \<and> isReading ch)"

definition evolved :: "('k \<Rightarrow> int \<Rightarrow> (mask \<times> chan_id) option) \<Rightarrow> Channel \<Rightarrow> 'k TcpConnection \<Rightarrow> 'k TcpConnection \<Rightarrow> bool" where
  "evolved interest ch c c' \<longleftrightarrow>
     (\<exists>ch' es. alive interest ch' c' \<and> cfd ch' = cfd ch \<and> cchan c' = cchan c \<and>
        chans (cpoller c') = (chans (cpoller c))(cchan c \<mapsto> ch') \<and> effects c' = effects c @ es \<and>
        (CloseCallbackCall \<in> set es \<longrightarrow> cstate c' = kDisconnected) \<and>
        (cstate c = kDisconnected \<longrightarrow> cstate c' = kDisconnected) \<and>
        (cstate c' = kDisconnected \<longrightarrow> cstate c = kDisconnected \<or> CloseCallbackCall \<in> set es))"

lemma evolvedI:
  assumes "alive interest ch' c'" "cfd ch' = cfd ch" "cchan c' = cchan c"
    "chans (cpoller c') = (chans (cpoller c))(cchan c \<mapsto> ch')" "effects c' = effects c @ es"
    "CloseCallbackCall \<in> set es \<Longrightarrow> cstate c' = kDisconnected" "cstate c = kDisconnected \<Longrightarrow> cstate c' = kDisconnected"
    "cstate c' = kDisconnected \<Longrightarrow> cstate c = kDisconnected \<or> CloseCallbackCall \<in> set es"
  shows "evolved interest ch c c'"
  unfolding evolved_def by (rule exI [of _ ch'], rule exI [of _ es]) (use assms in blast)

definition evolves :: "('k \<Rightarrow> int \<Rightarrow> (mask \<times> chan_id) option) \<Rightarrow> 'k TcpConnection \<Rightarrow> 'k TcpConnection \<Rightarrow> bool" where
  "evolves interest c c' \<longleftrightarrow> (\<forall>ch. alive interest ch c \<longrightarrow> evolved interest ch c c')"

lemma evolvesI: "(\<And>ch. alive interest ch c \<Longrightarrow> evolved interest ch c c') \<Longrightarrow> evolves interest c c'"
  by (simp add: evolves_def)

lemma evolves_same:
  assumes "cpoller c' = cpoller c" "cchan c' = cchan c" "effects c' = effects c @ es" "CloseCallbackCall \<notin> set es"
    "cstate c' = cstate c \<or> cstate c = kConnected \<and> cstate c' = kDisconnecting"
  shows "evolves interest c c'"
proof (rule evolvesI)
  fix ch
  assume a: "alive interest ch c"
  then have "(chans (cpoller c))(cchan c \<mapsto> ch) = chans (cpoller c)" by (auto simp: alive_def)
  with a assms show "evolved interest ch c c'"
    by (intro evolvedI [of _ ch _ _ _ es]) (auto simp: alive_def)
qed

lemma evolves_trans:
  assumes "evolves interest a b" "evolves interest b c"
  shows "evolves interest a c"
proof (rule evolvesI)
  fix ch
  assume "alive interest ch a"
  with assms(1) obtain ch1 es1 where 1: "alive interest ch1 b" "cfd ch1 = cfd ch" "cchan b = cchan a"
    "chans (cpoller b) = (chans (cpoller a))(cchan a \<mapsto> ch1)" "effects b = effects a @ es1"
    "CloseCallbackCall \<in> set es1 \<longrightarrow> cstate b = kDisconnected" "cstate a = kDisconnected \<longrightarrow> cstate b = kDisconnected"
    "cstate b = kDisconnected \<longrightarrow> cstate a = kDisconnected \<or> CloseCallbackCall \<in> set es1"
    unfolding evolves_def evolved_def by blast
  from assms(2) 1(1) obtain ch2 es2 where 2: "alive interest ch2 c" "cfd ch2 = cfd ch1" "cchan c = cchan b"
    "chans (cpoller c) = (chans (cpoller b))(cchan b \<mapsto> ch2)" "effects c = effects b @ es2"
    "CloseCallbackCall \<in> set es2 \<longrightarrow> cstate c = kDisconnected" "cstate b = kDisconnected \<longrightarrow> cstate c = kDisconnected"
    "cstate c = kDisconnected \<longrightarrow> cstate b = kDisconnected \<or> CloseCallbackCall \<in> set es2"
    unfolding evolves_def evolved_def by blast
  show "evolved interest ch a c"
    by (rule evolvedI [of _ ch2 _ _ _ "es1 @ es2"]) (use 1 2 in auto)
qed

lemma alive_update:
  assumes sp: "epoll_spec ctl interest" and al: "alive interest ch c"
    and oper: "oper \<in> {EnableWriting, DisableWriting, DisableAll}"
  obtains p ch' where "conn_do ctl oper c = Inr (c\<lparr>cpoller := p\<rparr>)" "poller_ok interest p"
    "chans p = (chans (cpoller c))(cchan c \<mapsto> ch')" "cfd ch' = cfd ch" "index ch' \<noteq> kNew"
    "oper \<noteq> DisableAll \<Longrightarrow> isReading ch \<Longrightarrow> index ch = kAdded \<Longrightarrow> isReading ch' \<and> index ch' = kAdded"
proof -
  note al' = al [unfolded alive_def]
  define ch1 where "ch1 = ch\<lparr>events := new_events oper (events ch)\<rparr>"
  define ch' where "ch' = ch1\<lparr>index := if index ch1 = kAdded \<and> isNoneEvent ch1 then kDeleted else kAdded\<rparr>"
  have u: "poller_ok interest (updateChannel ctl (cchan c) ch1 (cpoller c))"
    "chans (updateChannel ctl (cchan c) ch1 (cpoller c)) = (chans (cpoller c))(cchan c \<mapsto> ch')"
    using updateChannel_ok [OF sp, of "cpoller c" "cchan c" ch ch1] al' by (auto simp: ch1_def ch'_def)
  have d: "conn_do ctl oper c = Inr (c\<lparr>cpoller := updateChannel ctl (cchan c) ch1 (cpoller c)\<rparr>)"
    using al' oper by (auto simp: conn_do_def chan_do_def Let_def ch1_def)
  have "isReading ch' \<and> index ch' = kAdded" if "oper \<noteq> DisableAll" "isReading ch" "index ch = kAdded"
  proof -
    have r: "isReading ch1" using that oper by (auto simp: isReading_def ch1_def write_mask)
    then have "\<not> isNoneEvent ch1" by (auto simp: isReading_def isNoneEvent_def kNoneEvent_def)
    with r show ?thesis by (simp add: ch'_def isReading_def)
  qed
  then show thesis by (rule that [OF d u, rotated 2]) (simp_all add: ch'_def ch1_def)
qed

lemma conn_act_evolves:
  assumes sp: "epoll_spec ctl interest" and a: "conn_act ctl c c'"
  shows "evolves interest c c'"
  using a
proof cases
  case (act_write oper)
  show ?thesis
  proof (rule evolvesI)
    fix ch
    assume al: "alive interest ch c"
    obtain p ch' where p: "conn_do ctl oper c = Inr (c\<lparr>cpoller := p\<rparr>)" "poller_ok interest p"
      "chans p = (chans (cpoller c))(cchan c \<mapsto> ch')" "cfd ch' = cfd ch" "index ch' \<noteq> kNew"
      "oper \<noteq> DisableAll \<Longrightarrow> isReading ch \<Longrightarrow> index ch = kAdded \<Longrightarrow> isReading ch' \<and> index ch' = kAdded"
      by (rule alive_update [OF sp al, of oper]) (use act_write(2) in auto)
    have "c' = c\<lparr>cpoller := p\<rparr>" using p(1) act_write(1) by simp
    moreover have "oper \<noteq> DisableAll" using act_write(2) by auto
    ultimately show "evolved interest ch c c'"
      by (intro evolvedI [of _ ch' _ _ _ "[]"]) (use p al in \<open>auto simp: alive_def\<close>)
  qed
next
  case act_close
  show ?thesis
  proof (rule evolvesI)
    fix ch
    assume al: "alive interest ch c"
    then have "alive interest ch (setState kDisconnected c)" by (auto simp: alive_def)
    then obtain p ch' where p: "conn_do ctl DisableAll (setState kDisconnected c) = Inr ((setState kDisconnected c)\<lparr>cpoller := p\<rparr>)"
      "poller_ok interest p" "chans p = (chans (cpoller c))(cchan c \<mapsto> ch')" "cfd ch' = cfd ch" "index ch' \<noteq> kNew"
      by (rule alive_update [OF sp, of ch "setState kDisconnected c" DisableAll]) auto
    have "c' = effect CloseCallbackCall (effect (ConnectionCallback kDisconnected) ((setState kDisconnected c)\<lparr>cpoller := p\<rparr>))"
      using act_close p(1) by (simp add: handleClose_def)
    then show "evolved interest ch c c'"
      by (intro evolvedI [of _ ch' _ _ _ "[ConnectionCallback kDisconnected, CloseCallbackCall]"]) (use p in \<open>auto simp: alive_def\<close>)
  qed
qed (auto intro: evolves_same [where es = "[]"] evolves_same [where es = "[e]" for e])

lemma conn_acts_evolve:
  assumes "epoll_spec ctl interest" "conn_acts ctl c c'"
  shows "evolves interest c c'"
  using assms(2)
proof (induction rule: rtranclp_induct)
  case base
  then show ?case by (intro evolves_same [where es = "[]"]) simp_all
next
  case (step b c')
  then show ?case using conn_act_evolves [OF assms(1)] evolves_trans by blast
qed

section \<open>Invariant\<close>

text \<open>
  The life of one connection, with the calls of \<open>connectEstablished\<close> and \<open>connectDestroyed\<close> queued for it in its loop, the number
  of removals queued in the base loop, and whether it has been removed from the table. Before it is established the
  poller does not know its channel, and its first call is \<open>connectEstablished\<close>; while it is open the channel is watched; an open
  connection has been removed from the table only by the destructor of the server, and then its destruction is queued;
  after it has been closed a removal or a destruction is queued, a removal as long as it is in the table, and
  when no destruction is queued any more the channel has been removed.
\<close>

fun phase_ok :: "StateE \<Rightarrow> conn_ref \<Rightarrow> Channel \<Rightarrow> posted list \<Rightarrow> nat \<Rightarrow> bool \<Rightarrow> bool" where
  "phase_ok kConnecting c ch q r rm \<longleftrightarrow> index ch = kNew \<and> q = PostEstablished c # (if rm then [PostDestroyed c] else []) \<and> r = 0"
| "phase_ok kConnected c ch q r rm \<longleftrightarrow> index ch = kAdded \<and> isReading ch \<and> q = (if rm then [PostDestroyed c] else []) \<and> r = 0"
| "phase_ok kDisconnecting c ch q r rm \<longleftrightarrow> index ch = kAdded \<and> isReading ch \<and> q = (if rm then [PostDestroyed c] else []) \<and> r = 0"
| "phase_ok kDisconnected c ch q r rm \<longleftrightarrow> PostEstablished c \<notin> set q \<and> (q \<noteq> [] \<or> 0 < r) \<and> (\<not> rm \<longrightarrow> 0 < r) \<and> (rm \<longrightarrow> q \<noteq> [] \<or> index ch = kNew)"

definition calls_of :: "conn_ref \<Rightarrow> posted list \<Rightarrow> posted list" where
  "calls_of c q = filter (\<lambda>f. f = PostEstablished c \<or> f = PostDestroyed c) q"

lemma calls_of_simps [simp]:
  "calls_of c [] = []" "calls_of c (xs @ ys) = calls_of c xs @ calls_of c ys"
  "calls_of c (f # q) = (if f = PostEstablished c \<or> f = PostDestroyed c then f # calls_of c q else calls_of c q)"
  "calls_of c (replicate n f) = (if f = PostEstablished c \<or> f = PostDestroyed c then replicate n f else [])"
  by (simp_all add: calls_of_def filter_replicate)

lemma calls_of_other: "c' \<noteq> c \<Longrightarrow> calls_of c' (filter (\<lambda>g. posted_ref g \<noteq> Some c) q) = calls_of c' q"
  unfolding calls_of_def filter_filter by (rule filter_cong) auto

lemma set_calls_of: "f \<in> set (calls_of c q) \<longleftrightarrow> f \<in> set q \<and> (f = PostEstablished c \<or> f = PostDestroyed c)"
  by (auto simp: calls_of_def)

lemma removals_other: "c' \<noteq> c \<Longrightarrow> count_list (filter (\<lambda>g. posted_ref g \<noteq> Some c) q) (PostRemove c') = count_list q (PostRemove c')"
  by (induction q) auto

definition functors_of :: "'k system \<Rightarrow> conn_ref \<Rightarrow> posted list \<times> nat" where
  "functors_of S c = (calls_of c (queues S (conn_loop c)), count_list (queues S (base_loop S)) (PostRemove c))"

definition object_ok :: "'k system \<Rightarrow> nat \<Rightarrow> conn_ref \<Rightarrow> 'k TcpConnection \<Rightarrow> bool" where
  "object_ok S i c k \<longleftrightarrow> i < length (accepted S) \<and> accepted S ! i = c \<and> cchan k = chan_of i \<and>
     (\<exists>ch. chans (pollers S (conn_loop c)) (chan_of i) = Some ch \<and> cfd ch = conn_fd c \<and>
        (case functors_of S c of (q, r) \<Rightarrow> phase_ok (cstate k) c ch q r (c \<in> set (removed S))))"

text \<open>A functor is queued in the right loop, and its object exists.\<close>

definition functor_ok :: "'k system \<Rightarrow> loop_id \<Rightarrow> posted \<Rightarrow> bool" where
  "functor_ok S l f \<longleftrightarrow> (\<exists>c\<in>set (accepted S). objects S (conn_id c) \<noteq> None \<and>
     (f = PostEstablished c \<and> l = conn_loop c \<and> l \<noteq> base_loop S \<or> f = PostRemove c \<and> l = base_loop S \<or>
      f = PostDestroyed c \<and> l = conn_loop c \<and> c \<in> set (removed S)))"

definition sys_ok :: "('k \<Rightarrow> int \<Rightarrow> (mask \<times> chan_id) option) \<Rightarrow> TcpServer \<Rightarrow> 'k system \<Rightarrow> bool" where
  "sys_ok interest s0 S \<longleftrightarrow>
     server_ok s0 (server S) (accepted S) (set (removed S)) \<and> int (length (accepted S)) < 2 ^ 31 - 1 \<and>
     (\<forall>l. poller_ok interest (pollers S l)) \<and>
     (\<forall>l f. f \<in> set (queues S l) \<longrightarrow> functor_ok S l f) \<and>
     (\<forall>i c k. objects S i = Some (c, k) \<longrightarrow> object_ok S i c k) \<and>
     (\<forall>c\<in>set (accepted S). c \<notin> set (removed S) \<longrightarrow> objects S (conn_id c) \<noteq> None) \<and>
     (\<forall>l cid ch l' cid' ch'. chans (pollers S l) cid = Some ch \<longrightarrow> chans (pollers S l') cid' = Some ch' \<longrightarrow>
        cfd ch = cfd ch' \<longrightarrow> l = l' \<and> cid = cid') \<and>
     (\<forall>l cid ch. chans (pollers S l) cid = Some ch \<longrightarrow> 2 \<le> cid \<longrightarrow>
        (\<exists>c k. objects S (cid - 2) = Some (c, k) \<and> conn_loop c = l \<and> conn_fd c = cfd ch))"

lemma sys_okD:
  assumes "sys_ok interest s0 S"
  shows "server_ok s0 (server S) (accepted S) (set (removed S))" "poller_ok interest (pollers S l)"
    "f \<in> set (queues S l) \<Longrightarrow> functor_ok S l f" "objects S i = Some (c, k) \<Longrightarrow> object_ok S i c k"
    "c \<in> set (accepted S) \<Longrightarrow> c \<notin> set (removed S) \<Longrightarrow> objects S (conn_id c) \<noteq> None"
    "chans (pollers S l) cid = Some ch \<Longrightarrow> chans (pollers S l') cid' = Some ch' \<Longrightarrow> cfd ch = cfd ch' \<Longrightarrow> l = l' \<and> cid = cid'"
    "chans (pollers S l) cid = Some ch \<Longrightarrow> 2 \<le> cid \<Longrightarrow> \<exists>c k. objects S (cid - 2) = Some (c, k) \<and> conn_loop c = l \<and> conn_fd c = cfd ch"
    "int (length (accepted S)) < 2 ^ 31 - 1"
  using assms unfolding sys_ok_def by blast+

lemma accepted_id:
  assumes "fresh_server s0" "server_ok s0 s acc rem" "k < length acc"
  shows "conn_id (acc ! k) = k"
  using assms nth_conn_fields(3) [OF assms(1)] by (auto simp: server_ok_def)

lemma accepted_inj:
  assumes "fresh_server s0" "server_ok s0 s acc rem" "c \<in> set acc" "c' \<in> set acc" "conn_id c = conn_id c'"
  shows "c = c'"
  using accepted_id [OF assms(1,2)] assms(3-5) by (metis in_set_conv_nth)

text \<open>
  A step that touches one connection \<open>c\<close>, its object, its channel and its functors, keeps the invariant when the
  connection itself satisfies it afterwards. The connection may be new.
\<close>

lemma sys_ok_update:
  assumes f0: "fresh_server s0" and ok: "sys_ok interest s0 S"
    and srv: "server_ok s0 (server S') (accepted S') (set (removed S'))" "int (length (accepted S')) < 2 ^ 31 - 1" and base: "base_loop S' = base_loop S"
    and acc: "accepted S' = accepted S @ xs" "set xs \<subseteq> {c}" "j < length (accepted S')" "accepted S' ! j = c"
    and rem: "\<And>c'. c' \<noteq> c \<Longrightarrow> c' \<in> set (removed S') \<longleftrightarrow> c' \<in> set (removed S)"
    and obj: "objects S' = (objects S)(j := oj)"
    and pol: "\<And>l. poller_ok interest (pollers S' l)" "\<And>l. l \<noteq> conn_loop c \<Longrightarrow> chans (pollers S' l) = chans (pollers S l)"
      "chans (pollers S' (conn_loop c)) = (chans (pollers S (conn_loop c)))(chan_of j := chj)"
    and own: "\<And>l cid ch. chans (pollers S l) cid = Some ch \<Longrightarrow> cfd ch = conn_fd c \<Longrightarrow> l = conn_loop c \<and> cid = chan_of j"
    and que: "\<And>l. filter (\<lambda>g. posted_ref g \<noteq> Some c) (queues S' l) = filter (\<lambda>g. posted_ref g \<noteq> Some c) (queues S l)"
      "\<And>l g. g \<in> set (queues S' l) \<Longrightarrow> posted_ref g = Some c \<Longrightarrow> functor_ok S' l g"
    and gone: "oj = None \<Longrightarrow> chj = None \<and> c \<in> set (removed S')"
    and here: "oj \<noteq> None \<Longrightarrow> \<exists>k ch. oj = Some (c, k) \<and> chj = Some ch \<and> cfd ch = conn_fd c \<and> object_ok S' j c k"
  shows "sys_ok interest s0 S'"
proof -
  note id = accepted_id [OF f0 srv(1)]
  have cj: "conn_id c = j" using id acc(3,4) by blast
  have other: "conn_id c' \<noteq> j" if "c' \<in> set (accepted S')" "c' \<noteq> c" for c'
    using accepted_inj [OF f0 srv(1) that(1), of c] that(2) acc(3,4) cj nth_mem [OF acc(3)] by auto
  have queue: "functor_ok S' l g" if g: "g \<in> set (queues S' l)" for l g
  proof (cases "posted_ref g = Some c")
    case False
    then have "g \<in> set (filter (\<lambda>g. posted_ref g \<noteq> Some c) (queues S' l))" using g by simp
    then have "g \<in> set (queues S l)" unfolding que(1) by simp
    from sys_okD(3) [OF ok this] obtain c' where c': "c' \<in> set (accepted S)" "objects S (conn_id c') \<noteq> None"
      "g = PostEstablished c' \<and> l = conn_loop c' \<and> l \<noteq> base_loop S \<or> g = PostRemove c' \<and> l = base_loop S \<or>
       g = PostDestroyed c' \<and> l = conn_loop c' \<and> c' \<in> set (removed S)" unfolding functor_ok_def by blast
    then have "c' \<noteq> c" using False by auto
    with c' acc(1) other [of c'] obj rem base show ?thesis unfolding functor_ok_def by (intro bexI [of _ c']) auto
  qed (use que(2) g in blast)
  have objs: "object_ok S' i c' k" if i: "objects S' i = Some (c', k)" for i c' k
  proof (cases "i = j")
    case True
    then show ?thesis using i obj here by auto
  next
    case False
    with i obj sys_okD(4) [OF ok, of i c' k] have o: "object_ok S i c' k" by simp
    then have c': "i < length (accepted S)" "accepted S ! i = c'" by (simp_all add: object_ok_def)
    then have "c' \<noteq> c" using False id [of i] cj acc(1) by (auto simp: nth_append)
    then have "functors_of S' c' = functors_of S c'" "c' \<in> set (removed S') \<longleftrightarrow> c' \<in> set (removed S)"
      using calls_of_other [of c' c] removals_other [of c' c] que(1) rem base unfolding functors_of_def by metis+
    moreover have "chans (pollers S' (conn_loop c')) (chan_of i) = chans (pollers S (conn_loop c')) (chan_of i)"
      using pol(2,3) False by (cases "conn_loop c' = conn_loop c") (simp_all add: chan_of_def)
    ultimately show ?thesis using o acc(1) by (simp add: object_ok_def nth_append)
  qed
  have kept: "objects S' (conn_id c') \<noteq> None" if "c' \<in> set (accepted S')" "c' \<notin> set (removed S')" for c'
  proof (cases "c' = c")
    case True
    then show ?thesis using that gone obj cj by (cases oj) auto
  next
    case False
    then have "c' \<in> set (accepted S)" "c' \<notin> set (removed S)" using that acc(1,2) rem by auto
    then show ?thesis using sys_okD(5) [OF ok] other [OF that(1) False] obj by simp
  qed
  have chans': "chans (pollers S' l) cid = (if l = conn_loop c \<and> cid = chan_of j then chj else chans (pollers S l) cid)" for l cid
    using pol(2,3) by (cases "l = conn_loop c") simp_all
  have slot: "l = conn_loop c \<and> cid = chan_of j \<and> cfd ch = conn_fd c \<or> chans (pollers S l) cid = Some ch \<and> cfd ch \<noteq> conn_fd c"
    if ch: "chans (pollers S' l) cid = Some ch" for l cid ch
  proof (cases "l = conn_loop c \<and> cid = chan_of j")
    case True
    then have "oj \<noteq> None" using ch gone by (cases oj) (auto simp: chans')
    then show ?thesis using True ch here by (auto simp: chans')
  next
    case False
    then have "chans (pollers S l) cid = Some ch" using ch by (simp only: chans' if_False)
    then show ?thesis using own [of l cid ch] False by blast
  qed
  have fds: "l = l' \<and> cid = cid'" if "chans (pollers S' l) cid = Some ch" "chans (pollers S' l') cid' = Some ch'" "cfd ch = cfd ch'"
    for l cid ch l' cid' ch'
    using slot [OF that(1)] slot [OF that(2)] that(3) sys_okD(6) [OF ok, of l cid ch l' cid' ch'] by metis
  have owners: "\<exists>c' k. objects S' (cid - 2) = Some (c', k) \<and> conn_loop c' = l \<and> conn_fd c' = cfd ch"
    if ch: "chans (pollers S' l) cid = Some ch" "2 \<le> cid" for l cid ch
  proof (cases "cid - 2 = j")
    case True
    then have cid: "cid = chan_of j" using ch(2) by (simp add: chan_of_def)
    show ?thesis
    proof (cases "l = conn_loop c")
      case l: True
      then show ?thesis using ch(1) here gone obj True by (cases "oj = None") (auto simp: chans' cid)
    next
      case False
      then have "chans (pollers S l) cid = Some ch" using ch(1) by (simp add: chans')
      from sys_okD(7) [OF ok this ch(2)] True obtain d k where d: "objects S j = Some (d, k)" "conn_loop d = l" by auto
      from sys_okD(4) [OF ok d(1)] have "accepted S ! j = d" "j < length (accepted S)" by (simp_all add: object_ok_def)
      then have "d = c" using acc(1,4) by (simp add: nth_append)
      with d(2) False show ?thesis by simp
    qed
  next
    case False
    then have "chans (pollers S l) cid = Some ch" using ch by (auto simp: chans' chan_of_def split: if_splits)
    from sys_okD(7) [OF ok this ch(2)] False obj show ?thesis by auto
  qed
  show ?thesis unfolding sys_ok_def using srv pol(1) queue objs kept fds owners by blast
qed

section \<open>Steps of one object\<close>

lemma poller_ok_same_index:
  assumes "poller_ok interest p" "chans p cid = Some ch" "cfd ch' = cfd ch" "index ch' = index ch"
  shows "poller_ok interest (p\<lparr>chans := (chans p)(cid \<mapsto> ch')\<rparr>)"
  using assms unfolding poller_ok_def by auto

lemma poller_ok_forget:
  assumes ok: "poller_ok interest p" and ch: "chans p cid = Some ch" "index ch = kNew"
  shows "poller_ok interest (p\<lparr>chans := (chans p)(cid := None)\<rparr>)"
  using assms unfolding poller_ok_def by (auto split: if_splits)

lemma poller_ok_create:
  assumes "poller_ok interest p" "chans p cid = None" "index ch = kNew"
  shows "poller_ok interest (p\<lparr>chans := (chans p)(cid \<mapsto> ch)\<rparr>)"
  using assms unfolding poller_ok_def by (auto split: if_splits)

text \<open>The table has no entry for a channel that is new, as long as no two channels share a descriptor.\<close>

lemma new_not_in_table:
  assumes ok: "poller_ok interest p" and ch: "chans p cid = Some ch" "index ch = kNew"
    and uniq: "\<And>cid' ch'. chans p cid' = Some ch' \<Longrightarrow> cfd ch' = cfd ch \<Longrightarrow> cid' = cid"
  shows "channels p (cfd ch) = None"
proof (cases "channels p (cfd ch)")
  case (Some d)
  with poller_okD(1) [OF ok, of "cfd ch" d] obtain ch' where "chans p d = Some ch'" "cfd ch' = cfd ch" "index ch' \<noteq> kNew" by auto
  with uniq [of d ch'] ch show ?thesis by auto
qed

lemma established_object:
  assumes sp: "epoll_spec ctl interest" and ok: "poller_ok interest p"
    and ch: "chans p (cchan k) = Some ch" "index ch = kNew" "channels p (cfd ch) = None"
  obtains k' ch' where "connectEstablished ctl (k\<lparr>cpoller := p\<rparr>) = Inr k'" "poller_ok interest (cpoller k')"
    "chans (cpoller k') = (chans p)(cchan k \<mapsto> ch')" "cfd ch' = cfd ch" "index ch' = kAdded" "isReading ch'"
    "cstate k' = kConnected" "cchan k' = cchan k" "effects k' = effects k @ [ConnectionCallback kConnected]"
proof -
  let ?ch1 = "enableET (Channel_tie ch)"
  let ?p1 = "p\<lparr>chans := (chans p)(cchan k \<mapsto> ?ch1)\<rparr>"
  have c1: "cfd ?ch1 = cfd ch" "index ?ch1 = kNew" using ch by (simp_all add: enableET_def Channel_tie_def)
  have ok1: "poller_ok interest ?p1" by (rule poller_ok_same_index [OF ok ch(1)]) (use c1 ch in simp_all)
  let ?ch2 = "?ch1\<lparr>events := events ?ch1 OR kReadEvent\<rparr>"
  let ?p2 = "updateChannel ctl (cchan k) ?ch2 ?p1"
  have u: "poller_ok interest ?p2" "chans ?p2 = (chans ?p1)(cchan k \<mapsto> ?ch2\<lparr>index := kAdded\<rparr>)"
    using updateChannel_ok [OF sp ok1, of "cchan k" ?ch1 ?ch2] c1 ch(3) by simp_all
  have e: "connectEstablished ctl (k\<lparr>cpoller := p\<rparr>) =
      Inr (effect (ConnectionCallback kConnected) ((setState kConnected (k\<lparr>cpoller := p\<rparr>))\<lparr>cpoller := ?p2\<rparr>))"
    using ch(1) by (simp add: connectEstablished_def conn_channel_def conn_do_def chan_do_def Let_def setState_def)
  have "(events ?ch1 OR kReadEvent) AND kReadEvent = kReadEvent" by (rule bit_eqI) (auto simp: bit_simps)
  then have "isReading (?ch2\<lparr>index := kAdded\<rparr>)" using kReadEvent_nz by (simp add: isReading_def)
  then show thesis by (intro that [OF e]) (use u c1 in simp_all)
qed

lemma destroyed_object:
  assumes sp: "epoll_spec ctl interest" and ok: "poller_ok interest p" and ch: "chans p (cchan k) = Some ch"
    and new: "index ch = kNew \<Longrightarrow> channels p (cfd ch) = None" and st: "cstate k = kConnected \<Longrightarrow> index ch = kAdded"
  obtains k' ch' where "connectDestroyed ctl (k\<lparr>cpoller := p\<rparr>) = Inr k'" "poller_ok interest (cpoller k')"
    "chans (cpoller k') = (chans p)(cchan k \<mapsto> ch')" "cfd ch' = cfd ch" "index ch' = kNew" "cchan k' = cchan k"
    "cstate k' = (if cstate k = kConnected then kDisconnected else cstate k)"
proof (cases "cstate k = kConnected")
  case False
  let ?p = "removeChannel ctl (cchan k) ch p"
  have "connectDestroyed ctl (k\<lparr>cpoller := p\<rparr>) = Inr (k\<lparr>cpoller := ?p\<rparr>)"
    using ch False by (simp add: connectDestroyed_def conn_do_def chan_do_def)
  then show thesis by (rule that [of _ "ch\<lparr>index := kNew\<rparr>"]) (use removeChannel_ok [OF sp ok ch new] False in simp_all)
next
  case True
  let ?ch1 = "ch\<lparr>events := kNoneEvent\<rparr>"
  let ?p1 = "updateChannel ctl (cchan k) ?ch1 p"
  let ?ch2 = "?ch1\<lparr>index := kDeleted\<rparr>"
  have i: "index ch = kAdded" by (rule st [OF True])
  have u: "poller_ok interest ?p1" "chans ?p1 = (chans p)(cchan k \<mapsto> ?ch2)"
    using updateChannel_ok [OF sp ok ch, of ?ch1] i by (simp_all add: isNoneEvent_def)
  let ?p2 = "removeChannel ctl (cchan k) ?ch2 ?p1"
  have ch2: "chans ?p1 (cchan k) = Some ?ch2" "index ?ch2 = kNew \<Longrightarrow> channels ?p1 (cfd ?ch2) = None" using u(2) by simp_all
  have "connectDestroyed ctl (k\<lparr>cpoller := p\<rparr>) =
      Inr ((effect (ConnectionCallback kDisconnected) ((setState kDisconnected (k\<lparr>cpoller := p\<rparr>))\<lparr>cpoller := ?p1\<rparr>))\<lparr>cpoller := ?p2\<rparr>)"
    using ch True u(2) by (simp add: connectDestroyed_def conn_do_def chan_do_def Let_def setState_def effect_def)
  then show thesis by (rule that [of _ "?ch2\<lparr>index := kNew\<rparr>"]) (use removeChannel_ok [OF sp u(1) ch2] u(2) True in simp_all)
qed

lemma new_object:
  obtains k ch where "TcpConnection_new p cid fd = Inr k" "cstate k = kConnecting" "cchan k = cid"
    "cpoller k = p\<lparr>chans := (chans p)(cid \<mapsto> ch)\<rparr>" "cfd ch = fd" "index ch = kNew" "effects k = []"
proof -
  have "\<exists>b. Buffer_new InitialSize = Inr b" by (simp add: Buffer_new_def InitialSize_def CheapPrepend_def sz_simps vec_resize_def ptrdiff_max_def)
  then show thesis using that by (auto simp: TcpConnection_new_def Channel_new_def Channel_setCallback_def)
qed

section \<open>Steps of the system\<close>

text \<open>The server keeps its base loop and its loops.\<close>

lemma getNextLoop_base: "getNextLoop P = Inr (l, P') \<Longrightarrow> baseLoop P' = baseLoop P"
  by (auto simp: getNextLoop_def Let_def split: if_splits)

lemma newConnection_base: "newConnection fd peer s = Inr s' \<Longrightarrow> baseLoop (threadPool s') = baseLoop (threadPool s)"
  using getNextLoop_base by (fastforce simp: newConnection_def bind_r_Inr_iff Let_def post_to_def split: if_splits)

lemma newConnection_last:
  assumes "fresh_server s0" "server_ok s0 s acc rem" "newConnection fd peer s = Inr s'"
    "server_ok s0 s' (acc @ [nth_conn s0 (length acc) fd]) rem"
  shows "List.last (post s') = (conn_loop (nth_conn s0 (length acc) fd), PostEstablished (nth_conn s0 (length acc) fd))"
proof -
  obtain l c where lc: "post s' = post s @ [(l, PostEstablished c)]"
    using assms(3) by (auto simp: newConnection_def bind_r_Inr_iff Let_def post_to_def split: if_splits)
  have "filter is_established (post s) @ [(l, PostEstablished c)] = filter is_established (post s')" by (simp add: lc)
  then have "(l, PostEstablished c) = (conn_loop (nth_conn s0 (length acc) fd), PostEstablished (nth_conn s0 (length acc) fd))"
    using assms(2,4) by (simp add: server_ok_def)
  then show ?thesis using lc by simp
qed

lemma conn_loop_in: "fresh_server s0 \<Longrightarrow> server_ok s0 s acc rem \<Longrightarrow> c \<in> set acc \<Longrightarrow> conn_loop c \<in> set (getAllLoops (threadPool s))"
proof -
  assume f: "fresh_server s0" and ok: "server_ok s0 s acc rem" and c: "c \<in> set acc"
  from c obtain k where k: "k < length acc" "c = acc ! k" by (metis in_set_conv_nth)
  with ok obtain fd where "c = nth_conn s0 k fd" by (auto simp: server_ok_def)
  moreover have "getAllLoops (threadPool s0) \<noteq> []" by (simp add: getAllLoops_def)
  ultimately show ?thesis using nth_conn_fields(2) [OF f, of k fd] ok by (simp add: server_ok_def)
qed

text \<open>The object and the channel of a connection, and the fact that nothing else has its descriptor.\<close>

lemma object_facts:
  assumes f0: "fresh_server s0" and ok: "sys_ok interest s0 S" and o: "objects S i = Some (c, k)"
  obtains ch where "i < length (accepted S)" "accepted S ! i = c" "conn_id c = i" "c \<in> set (accepted S)" "cchan k = chan_of i"
    "chans (pollers S (conn_loop c)) (chan_of i) = Some ch" "cfd ch = conn_fd c"
    "\<And>q r. functors_of S c = (q, r) \<Longrightarrow> phase_ok (cstate k) c ch q r (c \<in> set (removed S))"
    "\<And>l cid ch'. chans (pollers S l) cid = Some ch' \<Longrightarrow> cfd ch' = conn_fd c \<Longrightarrow> l = conn_loop c \<and> cid = chan_of i"
    "index ch = kNew \<Longrightarrow> channels (pollers S (conn_loop c)) (cfd ch) = None"
proof -
  from sys_okD(4) [OF ok o] obtain ch where ch: "i < length (accepted S)" "accepted S ! i = c" "cchan k = chan_of i"
    "chans (pollers S (conn_loop c)) (chan_of i) = Some ch" "cfd ch = conn_fd c"
    "case functors_of S c of (q, r) \<Rightarrow> phase_ok (cstate k) c ch q r (c \<in> set (removed S))" by (auto simp: object_ok_def)
  have u: "l = conn_loop c \<and> cid = chan_of i" if "chans (pollers S l) cid = Some ch'" "cfd ch' = conn_fd c" for l cid ch'
    using sys_okD(6) [OF ok that(1) ch(4)] that(2) ch(5) by simp
  show thesis
  proof (rule that [OF ch(1,2) _ _ ch(3,4,5) _ u])
    show "conn_id c = i" using accepted_id [OF f0 sys_okD(1) [OF ok] ch(1)] ch(2) by simp
    show "c \<in> set (accepted S)" using ch(1,2) nth_mem by blast
    show "phase_ok (cstate k) c ch q r (c \<in> set (removed S))" if "functors_of S c = (q, r)" for q r
      using ch(6) that by simp
    show "channels (pollers S (conn_loop c)) (cfd ch) = None" if "index ch = kNew"
      by (rule new_not_in_table [OF sys_okD(2) [OF ok] ch(4) that]) (use u ch(5) in simp)
  qed
qed

lemma queued_object:
  assumes f0: "fresh_server s0" and ok: "sys_ok interest s0 S" and f: "f \<in> set (queues S l)" "posted_ref f = Some c"
  obtains k where "objects S (conn_id c) = Some (c, k)"
    "f = PostEstablished c \<and> l = conn_loop c \<and> l \<noteq> base_loop S \<or> f = PostRemove c \<and> l = base_loop S \<or>
     f = PostDestroyed c \<and> l = conn_loop c \<and> c \<in> set (removed S)"
proof -
  from sys_okD(3) [OF ok f(1)] f(2) have c: "c \<in> set (accepted S)" "objects S (conn_id c) \<noteq> None"
    and p: "f = PostEstablished c \<and> l = conn_loop c \<and> l \<noteq> base_loop S \<or> f = PostRemove c \<and> l = base_loop S \<or>
     f = PostDestroyed c \<and> l = conn_loop c \<and> c \<in> set (removed S)"
    unfolding functor_ok_def by auto
  then obtain c' k where k: "objects S (conn_id c) = Some (c', k)" by auto
  obtain ch where "conn_id c' = conn_id c" "c' \<in> set (accepted S)" by (rule object_facts [OF f0 ok k]) blast
  with accepted_inj [OF f0 sys_okD(1) [OF ok] _ c(1)] have "c' = c" by blast
  with k p show thesis using that by blast
qed

lemma in_table:
  assumes "sys_ok interest s0 S" "c \<in> set (accepted S)" "c \<notin> set (removed S)"
  shows "connections (server S) (conn_name c) = Some c"
  using sys_okD(1) [OF assms(1)] assms(2,3) by (simp add: server_ok_def)

lemma sys_ok_step:
  assumes f0: "fresh_server s0" and ok: "sys_ok interest s0 S" and o: "objects S j = Some (c, k0)"
    and srv: "server_ok s0 (server S') (accepted S) (set (removed S'))" and base: "base_loop S' = base_loop S"
    and acc: "accepted S' = accepted S" and rem: "\<And>c'. c' \<noteq> c \<Longrightarrow> c' \<in> set (removed S') \<longleftrightarrow> c' \<in> set (removed S)"
    and obj: "objects S' = (objects S)(j := oj)"
    and pol: "pollers S' = (pollers S)(conn_loop c := p)" "poller_ok interest p"
      "chans p = (chans (pollers S (conn_loop c)))(chan_of j := chj)"
    and que: "\<And>l. filter (\<lambda>g. posted_ref g \<noteq> Some c) (queues S' l) = filter (\<lambda>g. posted_ref g \<noteq> Some c) (queues S l)"
      "\<And>l g. g \<in> set (queues S' l) \<Longrightarrow> posted_ref g = Some c \<Longrightarrow> functor_ok S' l g"
    and gone: "oj = None \<Longrightarrow> chj = None \<and> c \<in> set (removed S')"
    and here: "oj \<noteq> None \<Longrightarrow> \<exists>k ch. oj = Some (c, k) \<and> chj = Some ch \<and> cfd ch = conn_fd c \<and> cchan k = chan_of j \<and>
      (case functors_of S' c of (q, r) \<Rightarrow> phase_ok (cstate k) c ch q r (c \<in> set (removed S')))"
  shows "sys_ok interest s0 S'"
proof -
  obtain ch0 where F: "j < length (accepted S)" "accepted S ! j = c"
    "\<And>l cid ch'. chans (pollers S l) cid = Some ch' \<Longrightarrow> cfd ch' = conn_fd c \<Longrightarrow> l = conn_loop c \<and> cid = chan_of j"
    by (rule object_facts [OF f0 ok o]) blast
  show ?thesis
  proof (rule sys_ok_update [where xs = "[]" and chj = chj, OF f0 ok _ _ base _ _ _ _ rem obj _ _ _ _ que gone])
    show "poller_ok interest (pollers S' l)" for l using pol sys_okD(2) [OF ok, of l] by simp
    show "\<exists>k ch. oj = Some (c, k) \<and> chj = Some ch \<and> cfd ch = conn_fd c \<and> object_ok S' j c k" if "oj \<noteq> None"
      using here [OF that] F(1,2) pol by (auto simp: object_ok_def acc)
    show "l = conn_loop c \<and> cid = chan_of j" if "chans (pollers S l) cid = Some ch'" "cfd ch' = conn_fd c" for l cid ch'
      using F(3) that by blast
  qed (use srv F(1,2) pol acc sys_okD(8) [OF ok] in simp_all)
qed

lemma functor_ok_kept:
  assumes "functor_ok S l g" "posted_ref g = Some c" "accepted S' = accepted S" "base_loop S' = base_loop S"
    "set (removed S) \<subseteq> set (removed S')" "objects S' (conn_id c) \<noteq> None"
  shows "functor_ok S' l g"
proof -
  from assms(1) obtain d where "d \<in> set (accepted S)" "g = PostEstablished d \<and> l = conn_loop d \<and> l \<noteq> base_loop S \<or> g = PostRemove d \<and> l = base_loop S \<or>
      g = PostDestroyed d \<and> l = conn_loop d \<and> d \<in> set (removed S)" unfolding functor_ok_def by blast
  moreover from this assms(2) have "d = c" by auto
  ultimately show ?thesis using assms(3-6) unfolding functor_ok_def by (intro bexI [of _ c]) auto
qed

lemma count_list_pos: "0 < count_list xs x \<longleftrightarrow> x \<in> set xs"
  using count_list_0_iff [of xs x] by auto

lemma count_list_replicate [simp]: "count_list (replicate n x) y = (if x = y then n else 0)"
  by (induction n) auto

lemma referenced_queue:
  "connections (server S) (conn_name c) \<noteq> Some c \<Longrightarrow>
   referenced S c \<longleftrightarrow> (\<exists>l g. l \<in> set (all_loops S) \<and> g \<in> set (queues S l) \<and> posted_ref g = Some c)"
  unfolding referenced_def set_map by (metis (no_types, lifting) image_iff)

lemma referencedI: "l \<in> set (all_loops S) \<Longrightarrow> g \<in> set (queues S l) \<Longrightarrow> posted_ref g = Some c \<Longrightarrow> referenced S c"
  using referenced_queue [of S c] by (auto simp: referenced_def)

lemma run_established:
  assumes f0: "fresh_server s0" and sp: "epoll_spec ctl interest" and ok: "sys_ok interest s0 S"
    and q: "queues S l = PostEstablished c # fs"
  shows "\<exists>S'. sys_run ctl l S = Inr S' \<and> sys_ok interest s0 S'"
proof -
  obtain k where o: "objects S (conn_id c) = Some (c, k)" and l: "l = conn_loop c"
    by (rule queued_object [OF f0 ok, of "PostEstablished c" l c]) (use q in auto)
  obtain ch where F: "conn_id c < length (accepted S)" "accepted S ! conn_id c = c" "c \<in> set (accepted S)"
    "cchan k = chan_of (conn_id c)" "chans (pollers S (conn_loop c)) (chan_of (conn_id c)) = Some ch" "cfd ch = conn_fd c"
    "\<And>q r. functors_of S c = (q, r) \<Longrightarrow> phase_ok (cstate k) c ch q r (c \<in> set (removed S))"
    "\<And>l cid ch'. chans (pollers S l) cid = Some ch' \<Longrightarrow> cfd ch' = conn_fd c \<Longrightarrow> l = conn_loop c \<and> cid = chan_of (conn_id c)"
    "index ch = kNew \<Longrightarrow> channels (pollers S (conn_loop c)) (cfd ch) = None"
    by (rule object_facts [OF f0 ok o]) blast
  have ph: "index ch = kNew" "calls_of c fs = (if c \<in> set (removed S) then [PostDestroyed c] else [])"
    "count_list (queues S (base_loop S)) (PostRemove c) = 0"
    using F(7) [OF functors_of_def] q l by (cases "cstate k"; simp split: if_splits)+
  let ?p = "pollers S l"
  obtain k' ch' where k': "connectEstablished ctl (k\<lparr>cpoller := ?p\<rparr>) = Inr k'" "poller_ok interest (cpoller k')"
    "chans (cpoller k') = (chans ?p)(cchan k \<mapsto> ch')" "cfd ch' = cfd ch" "index ch' = kAdded" "isReading ch'"
    "cstate k' = kConnected" "cchan k' = cchan k"
    by (rule established_object [OF sp sys_okD(2) [OF ok, of l], of k ch]) (use F(4,5,9) ph(1) l in simp_all)
  define S' where "S' = S\<lparr>queues := (queues S)(l := fs), objects := (objects S)(conn_id c \<mapsto> (c, k')), pollers := (pollers S)(l := cpoller k')\<rparr>"
  have "referenced S' c"
  proof (cases "c \<in> set (removed S)")
    case True
    then have "PostDestroyed c \<in> set fs" using ph(2) set_calls_of [of "PostDestroyed c" c fs] by simp
    then show ?thesis
      using referencedI [of l S' "PostDestroyed c" c] conn_loop_in [OF f0 sys_okD(1) [OF ok] F(3)] l
      by (simp add: S'_def all_loops_def base_loop_def)
  qed (use in_table [OF ok F(3)] in \<open>simp add: referenced_def S'_def\<close>)
  then have run: "sys_run ctl l S = Inr S'"
    using q o k'(1) by (simp add: sys_run_def on_object_def release_def S'_def)
  have S': "accepted S' = accepted S" "removed S' = removed S" "base_loop S' = base_loop S" "server S' = server S"
    "queues S' = (queues S)(l := fs)" "objects S' = (objects S)(conn_id c \<mapsto> (c, k'))" "pollers S' = (pollers S)(l := cpoller k')"
    by (simp_all add: S'_def base_loop_def)
  have "sys_ok interest s0 S'"
  proof (rule sys_ok_step [OF f0 ok o])
    show "functor_ok S' x g" if "g \<in> set (queues S' x)" "posted_ref g = Some c" for x g
    proof (rule functor_ok_kept)
      show "functor_ok S x g" by (rule sys_okD(3) [OF ok]) (use that q in \<open>auto simp: S' split: if_splits\<close>)
    qed (use that in \<open>auto simp: S'\<close>)
    show "chans (cpoller k') = (chans (pollers S (conn_loop c)))(chan_of (conn_id c) := Some ch')" using k'(3) F(4) l by simp
    show "\<exists>k ch. Some (c, k') = Some (c, k) \<and> Some ch' = Some ch \<and> cfd ch = conn_fd c \<and> cchan k = chan_of (conn_id c) \<and>
      (case functors_of S' c of (q, r) \<Rightarrow> phase_ok (cstate k) c ch q r (c \<in> set (removed S')))"
      using k' F(4,6) ph q l by (auto simp: functors_of_def S')
  qed (use sys_okD(1) [OF ok] k' q l in \<open>auto simp: S'\<close>)
  with run show ?thesis by blast
qed

lemma run_remove:
  assumes f0: "fresh_server s0" and ok: "sys_ok interest s0 S" and q: "queues S l = PostRemove c # fs" and up: "runs_loop S l"
  shows "\<exists>S'. sys_run ctl l S = Inr S' \<and> sys_ok interest s0 S'"
proof -
  obtain k where o: "objects S (conn_id c) = Some (c, k)" and l: "l = base_loop S"
    by (rule queued_object [OF f0 ok, of "PostRemove c" l c]) (use q in auto)
  obtain ch where F: "c \<in> set (accepted S)" "cchan k = chan_of (conn_id c)"
    "chans (pollers S (conn_loop c)) (chan_of (conn_id c)) = Some ch" "cfd ch = conn_fd c"
    "\<And>q r. functors_of S c = (q, r) \<Longrightarrow> phase_ok (cstate k) c ch q r (c \<in> set (removed S))"
    by (rule object_facts [OF f0 ok o]) blast
  have ph: "cstate k = kDisconnected" "PostEstablished c \<notin> set (calls_of c (queues S (conn_loop c)))"
    using F(5) [OF functors_of_def] q l by (cases "cstate k"; simp)+
  have alive: "\<not> down S" using up l by (simp add: runs_loop_def)
  define S' where "S' = enqueue (conn_loop c) (PostDestroyed c)
    (S\<lparr>queues := (queues S)(l := fs), server := removeConnectionInLoop c (server S), removed := removed S @ [c]\<rparr>)"
  have S': "accepted S' = accepted S" "removed S' = removed S @ [c]" "base_loop S' = base_loop S"
    "server S' = removeConnectionInLoop c (server S)" "objects S' = objects S" "pollers S' = pollers S"
    "\<And>x. queues S' x = (if x = l then fs else queues S x) @ (if x = conn_loop c then [PostDestroyed c] else [])"
    "getAllLoops (threadPool (server S')) = getAllLoops (threadPool (server S))"
    by (simp_all add: S'_def base_loop_def enqueue_def removeConnectionInLoop_def post_to_def)
  have "referenced S' c"
    by (rule referencedI [of "conn_loop c" _ "PostDestroyed c"])
      (use conn_loop_in [OF f0 sys_okD(1) [OF ok] F(1)] in \<open>simp_all add: all_loops_def S'(7,8)\<close>)
  then have run: "sys_run ctl l S = Inr S'"
    using q alive by (simp add: sys_run_def release_def S'_def removeConnectionInLoop_def post_to_def)
  have old: "g \<in> set (queues S x) \<or> g = PostDestroyed c \<and> x = conn_loop c" if "g \<in> set (queues S' x)" for x g
    using that q by (auto simp: S' split: if_splits)
  have "sys_ok interest s0 S'"
  proof (rule sys_ok_step [OF f0 ok o])
    show "server_ok s0 (server S') (accepted S) (set (removed S'))"
      using server_remove_ok [OF f0 sys_okD(1) [OF ok] F(1) sys_okD(8) [OF ok]] by (simp add: S')
    show "functor_ok S' x g" if "g \<in> set (queues S' x)" "posted_ref g = Some c" for x g
      using old [OF that(1)]
    proof
      assume "g \<in> set (queues S x)"
      then show ?thesis by (intro functor_ok_kept [OF sys_okD(3) [OF ok] that(2)]) (use o in \<open>auto simp: S'\<close>)
    qed (use F(1) o in \<open>auto simp: functor_ok_def S'\<close>)
    show "chans (pollers S (conn_loop c)) = (chans (pollers S (conn_loop c)))(chan_of (conn_id c) := Some ch)"
      using F(3) by (simp add: fun_upd_idem)
    show "\<exists>k' ch'. Some (c, k) = Some (c, k') \<and> Some ch = Some ch' \<and> cfd ch' = conn_fd c \<and> cchan k' = chan_of (conn_id c) \<and>
      (case functors_of S' c of (q, r) \<Rightarrow> phase_ok (cstate k') c ch' q r (c \<in> set (removed S')))"
      using F(2,4) ph q l by (auto simp: functors_of_def S')
    show "objects S' = (objects S)(conn_id c := Some (c, k))" using o by (simp add: S' fun_upd_idem)
  qed (use sys_okD(2) [OF ok] q in \<open>auto simp: S' fun_upd_idem\<close>)
  with run show ?thesis by blast
qed

text \<open>
  Running \<open>connectDestroyed\<close> of a connection that is out of the table, in its loop, and dropping the pointer to it. An open
  connection has nothing else queued.
\<close>

lemma destroyed_step:
  assumes f0: "fresh_server s0" and sp: "epoll_spec ctl interest" and ok: "sys_ok interest s0 S" and o: "objects S (conn_id c) = Some (c, k)"
    and T: "accepted T = accepted S" "base_loop T = base_loop S" "all_loops T = all_loops S" "objects T = objects S" "pollers T = pollers S"
      "server_ok s0 (server T) (accepted S) (set (removed T))"
    and rem: "c \<in> set (removed T)" "\<And>c'. c' \<noteq> c \<Longrightarrow> c' \<in> set (removed T) \<longleftrightarrow> c' \<in> set (removed S)"
    and que: "\<And>x. filter (\<lambda>g. posted_ref g \<noteq> Some c) (queues T x) = filter (\<lambda>g. posted_ref g \<noteq> Some c) (queues S x)"
      "\<And>x g. g \<in> set (queues T x) \<Longrightarrow> g \<in> set (queues S x)"
    and ne: "PostEstablished c \<notin> set (queues T (conn_loop c))" "cstate k \<noteq> kConnecting"
    and op: "\<And>x g. cstate k \<noteq> kDisconnected \<Longrightarrow> g \<in> set (queues T x) \<Longrightarrow> posted_ref g \<noteq> Some c"
  shows "\<exists>S1. on_object (conn_loop c) (conn_id c) (connectDestroyed ctl) T = Inr S1 \<and> sys_ok interest s0 (release c S1)"
proof -
  let ?l = "conn_loop c" and ?i = "conn_id c"
  obtain ch where F: "c \<in> set (accepted S)" "cchan k = chan_of ?i" "chans (pollers S ?l) (chan_of ?i) = Some ch" "cfd ch = conn_fd c"
    "\<And>q r. functors_of S c = (q, r) \<Longrightarrow> phase_ok (cstate k) c ch q r (c \<in> set (removed S))"
    "index ch = kNew \<Longrightarrow> channels (pollers S ?l) (cfd ch) = None"
    by (rule object_facts [OF f0 ok o]) blast
  obtain k' ch' where d: "connectDestroyed ctl (k\<lparr>cpoller := pollers S ?l\<rparr>) = Inr k'" "poller_ok interest (cpoller k')"
    "chans (cpoller k') = (chans (pollers S ?l))(chan_of ?i \<mapsto> ch')" "cfd ch' = conn_fd c" "index ch' = kNew" "cchan k' = chan_of ?i"
    "cstate k' = (if cstate k = kConnected then kDisconnected else cstate k)"
  proof (rule destroyed_object [OF sp sys_okD(2) [OF ok, of ?l], of k ch])
    show "index ch = kAdded" if "cstate k = kConnected" using F(5) [OF functors_of_def] that by simp
  qed (use F(2,3,4,6) in auto)
  define S1 where "S1 = T\<lparr>objects := (objects S)(?i \<mapsto> (c, k')), pollers := (pollers S)(?l := cpoller k')\<rparr>"
  have S1: "accepted S1 = accepted S" "removed S1 = removed T" "base_loop S1 = base_loop S" "server S1 = server T" "all_loops S1 = all_loops S"
    "queues S1 = queues T" "objects S1 = (objects S)(?i \<mapsto> (c, k'))" "pollers S1 = (pollers S)(?l := cpoller k')"
    using T by (simp_all add: S1_def base_loop_def all_loops_def)
  have run: "on_object ?l ?i (connectDestroyed ctl) T = Inr S1" using o d(1) T(4,5) by (simp add: on_object_def S1_def)
  have gone: "connections (server T) (conn_name c) \<noteq> Some c" using T(6) rem(1) by (auto simp: server_ok_def)
  have sub: "set (removed S) \<subseteq> set (removed T)" using rem by (metis subsetI)
  have place: "x \<in> set (all_loops S1) \<and> (g = PostRemove c \<and> x = base_loop S \<or> g = PostDestroyed c \<and> x = ?l)"
    if g: "g \<in> set (queues T x)" "posted_ref g = Some c" for x g
  proof -
    obtain k2 where "g = PostEstablished c \<and> x = ?l \<or> g = PostRemove c \<and> x = base_loop S \<or> g = PostDestroyed c \<and> x = ?l"
      by (rule queued_object [OF f0 ok que(2) [OF g(1)] g(2)]) auto
    moreover have "?l \<in> set (all_loops S)" "base_loop S \<in> set (all_loops S)"
      using conn_loop_in [OF f0 sys_okD(1) [OF ok] F(1)] by (simp_all add: all_loops_def)
    ultimately show ?thesis using g(1) ne(1) by (auto simp: S1)
  qed
  have "sys_ok interest s0 (release c S1)"
  proof (cases "referenced S1 c")
    case True
    then have "\<exists>x g. g \<in> set (queues T x) \<and> posted_ref g = Some c" using gone referenced_queue [of S1 c] S1(4,6) by auto
    then obtain x g where g: "g \<in> set (queues T x)" "posted_ref g = Some c" by blast
    then have st: "cstate k = kDisconnected" using op by blast
    have q: "calls_of c (queues T ?l) \<noteq> [] \<or> 0 < count_list (queues T (base_loop S)) (PostRemove c)"
      using place [OF g] g(1) set_calls_of [of g c "queues T ?l"] by (auto simp: count_list_pos)
    have "sys_ok interest s0 S1"
    proof (rule sys_ok_step [OF f0 ok o])
      show "functor_ok S1 x g" if "g \<in> set (queues S1 x)" "posted_ref g = Some c" for x g
        by (rule functor_ok_kept [OF sys_okD(3) [OF ok que(2)] that(2)]) (use that sub in \<open>auto simp: S1\<close>)
      show "\<exists>k ch. Some (c, k') = Some (c, k) \<and> Some ch' = Some ch \<and> cfd ch = conn_fd c \<and> cchan k = chan_of ?i \<and>
        (case functors_of S1 c of (q, r) \<Rightarrow> phase_ok (cstate k) c ch q r (c \<in> set (removed S1)))"
        using d(4-7) st q ne(1) rem(1) by (simp add: functors_of_def S1 set_calls_of)
    qed (use T(6) d(2,3) rem(2) que(1) in \<open>auto simp: S1\<close>)
    then show ?thesis using True by (simp add: release_def)
  next
    case False
    let ?p = "(cpoller k')\<lparr>chans := (chans (cpoller k'))(chan_of ?i := None)\<rparr>"
    define S2 where "S2 = S1\<lparr>objects := (objects S1)(?i := None), pollers := (pollers S1)(?l := ?p)\<rparr>"
    have S2: "accepted S2 = accepted S" "removed S2 = removed T" "base_loop S2 = base_loop S" "server S2 = server T" "queues S2 = queues T"
      "objects S2 = (objects S)(?i := None)" "pollers S2 = (pollers S)(?l := ?p)"
      by (simp_all add: S2_def base_loop_def S1 T(2) [unfolded base_loop_def])
    have rel: "release c S1 = S2" using False by (simp add: release_def S2_def S1)
    have none: "posted_ref g \<noteq> Some c" if g: "g \<in> set (queues T x)" for x g
      using place [OF g] referencedI [of x S1 g c] g False S1(6) by auto
    have "sys_ok interest s0 S2"
    proof (rule sys_ok_step [OF f0 ok o])
      show "poller_ok interest ?p" by (rule poller_ok_forget [OF d(2), of _ ch']) (use d(3,5) in simp_all)
      show "chans ?p = (chans (pollers S ?l))(chan_of ?i := None)" by (simp add: d(3))
      show "functor_ok S2 x g" if "g \<in> set (queues S2 x)" "posted_ref g = Some c" for x g
        using none [of g x] that by (simp add: S2)
    qed (use T(6) rem que(1) in \<open>auto simp: S2\<close>)
    then show ?thesis using rel by simp
  qed
  with run show ?thesis by blast
qed

lemma run_destroyed:
  assumes f0: "fresh_server s0" and sp: "epoll_spec ctl interest" and ok: "sys_ok interest s0 S"
    and q: "queues S l = PostDestroyed c # fs"
  shows "\<exists>S'. sys_run ctl l S = Inr S' \<and> sys_ok interest s0 S'"
proof -
  obtain k where o: "objects S (conn_id c) = Some (c, k)" and l: "l = conn_loop c" and rm: "c \<in> set (removed S)"
    by (rule queued_object [OF f0 ok, of "PostDestroyed c" l c]) (use q in auto)
  obtain ch where F: "\<And>q r. functors_of S c = (q, r) \<Longrightarrow> phase_ok (cstate k) c ch q r (c \<in> set (removed S))"
    by (rule object_facts [OF f0 ok o]) blast
  have ph: "cstate k \<noteq> kConnecting" "PostEstablished c \<notin> set fs"
    "cstate k \<noteq> kDisconnected \<Longrightarrow> calls_of c fs = [] \<and> count_list (queues S (base_loop S)) (PostRemove c) = 0"
    using F [OF functors_of_def] q l rm set_calls_of [of "PostEstablished c" c fs] by (cases "cstate k"; simp)+
  let ?T = "S\<lparr>queues := (queues S)(l := fs)\<rparr>"
  have old: "g \<in> set (queues S x)" if "g \<in> set (queues ?T x)" for x g using that q by (auto split: if_splits)
  have op: "posted_ref g \<noteq> Some c" if st: "cstate k \<noteq> kDisconnected" and g: "g \<in> set (queues ?T x)" for x g
  proof
    assume r: "posted_ref g = Some c"
    obtain k2 where "g = PostEstablished c \<and> x = conn_loop c \<or> g = PostRemove c \<and> x = base_loop S \<or> g = PostDestroyed c \<and> x = conn_loop c"
      by (rule queued_object [OF f0 ok old [OF g] r]) auto
    then show False
      using g old [OF g] ph(2) ph(3) [OF st] set_calls_of [of g c fs] l by (auto simp: count_list_0_iff split: if_splits)
  qed
  have "\<exists>S1. on_object (conn_loop c) (conn_id c) (connectDestroyed ctl) ?T = Inr S1 \<and> sys_ok interest s0 (release c S1)"
    by (rule destroyed_step [OF f0 sp ok o])
      (use sys_okD(1) [OF ok] rm q l ph op old in \<open>auto simp: base_loop_def all_loops_def\<close>)
  then show ?thesis using q l by (auto simp: sys_run_def)
qed

lemma sys_run_ok:
  assumes f0: "fresh_server s0" and sp: "epoll_spec ctl interest" and ok: "sys_ok interest s0 S" and up: "runs_loop S l"
  shows "\<exists>S'. sys_run ctl l S = Inr S' \<and> sys_ok interest s0 S'"
proof (cases "queues S l")
  case Nil
  then show ?thesis using ok by (simp add: sys_run_def)
next
  case (Cons f fs)
  show ?thesis
  proof (cases f)
    case PostListen
    then show ?thesis using sys_okD(3) [OF ok, of f l] Cons by (auto simp: functor_ok_def)
  qed (use Cons run_established [OF f0 sp ok] run_remove [OF f0 ok] up run_destroyed [OF f0 sp ok] in auto)
qed

text \<open>What \<open>n\<close> calls of the close callback leave: removals queued in the base loop, or, when the connection lives in the
  base loop, removals done and destructions queued.\<close>

lemma close_calls_ok:
  assumes f0: "fresh_server s0" and c: "c \<in> set (accepted S)" "int (length (accepted S)) < 2 ^ 31 - 1"
    and srv: "server_ok s0 (server S) (accepted S) (set (removed S))" and up: "runs_loop S (conn_loop c)"
  shows "\<exists>S'. close_calls ctl c n S = Inr S' \<and> accepted S' = accepted S \<and> objects S' = objects S \<and> pollers S' = pollers S \<and>
    base_loop S' = base_loop S \<and> server_ok s0 (server S') (accepted S) (set (removed S')) \<and>
    (if base_loop S = conn_loop c
     then queues S' = (queues S)(conn_loop c := queues S (conn_loop c) @ replicate n (PostDestroyed c)) \<and>
       removed S' = removed S @ replicate n c
     else queues S' = (queues S)(base_loop S := queues S (base_loop S) @ replicate n (PostRemove c)) \<and> removed S' = removed S)"
  using c srv up
proof (induction n arbitrary: S)
  case 0
  then show ?case by simp
next
  case (Suc n)
  define T where "T = (if base_loop S = conn_loop c
    then enqueue (conn_loop c) (PostDestroyed c)
      (S\<lparr>server := removeConnectionInLoop c (removeConnection c (server S)), removed := removed S @ [c]\<rparr>)
    else enqueue (base_loop S) (PostRemove c) (S\<lparr>server := removeConnection c (server S)\<rparr>))"
  have run: "close_calls ctl c (Suc n) S = close_calls ctl c n T"
    using Suc.prems(4)
    by (cases "base_loop S = conn_loop c")
      (simp_all add: T_def run_in_loop_def removeConnection_def removeConnectionInLoop_def post_to_def base_loop_def runs_loop_def Let_def)
  have T: "accepted T = accepted S" "objects T = objects S" "pollers T = pollers S" "base_loop T = base_loop S"
    "removed T = removed S @ (if base_loop S = conn_loop c then [c] else [])"
    "queues T = (if base_loop S = conn_loop c then (queues S)(conn_loop c := queues S (conn_loop c) @ [PostDestroyed c])
      else (queues S)(base_loop S := queues S (base_loop S) @ [PostRemove c]))" "down T = down S"
    by (simp_all add: T_def enqueue_def base_loop_def removeConnection_def removeConnectionInLoop_def post_to_def)
  have "server_ok s0 (server T) (accepted T) (set (removed T))"
    using server_close_ok [OF Suc.prems(3), of c] server_remove_ok [OF f0 server_close_ok [OF Suc.prems(3), of c] Suc.prems(1,2)]
    by (auto simp: T_def enqueue_def)
  from Suc.IH [of T, OF _ _ this] Suc.prems(1,2,4) T(1,4,7) obtain S' where
    S': "close_calls ctl c n T = Inr S'" "accepted S' = accepted T" "objects S' = objects T" "pollers S' = pollers T"
      "base_loop S' = base_loop T" "server_ok s0 (server S') (accepted T) (set (removed S'))"
      "if base_loop T = conn_loop c
       then queues S' = (queues T)(conn_loop c := queues T (conn_loop c) @ replicate n (PostDestroyed c)) \<and>
         removed S' = removed T @ replicate n c
       else queues S' = (queues T)(base_loop T := queues T (base_loop T) @ replicate n (PostRemove c)) \<and> removed S' = removed T"
    by (auto simp: runs_loop_def)
  show ?case
    by (rule exI [of _ S'], cases "base_loop S = conn_loop c") (use S' T run in simp_all)
qed

text \<open>A reported channel belongs to an object of the loop, and the object is alive.\<close>

lemma reported_object:
  assumes f0: "fresh_server s0" and ok: "sys_ok interest s0 S"
    and ev: "2 \<le> cid" "interest (kernel (pollers S l)) fd = Some (m, cid)"
  obtains c k ch where "objects S (cid - 2) = Some (c, k)" "conn_loop c = l" "cid = chan_of (cid - 2)"
    "fillActiveChannels [(r, cid)] (pollers S l) = Inr ([cid], (pollers S l)\<lparr>chans := (chans (pollers S l))(cid \<mapsto> set_revents r ch)\<rparr>)"
    "cfd ch = conn_fd c" "cchan k = cid"
    "alive interest (set_revents r ch) (k\<lparr>cpoller := (pollers S l)\<lparr>chans := (chans (pollers S l))(cid \<mapsto> set_revents r ch)\<rparr>\<rparr>)"
    "chans (pollers S l) cid = Some ch" "index ch = kAdded"
proof -
  from poller_okD(2) [OF sys_okD(2) [OF ok], of l fd cid] ev(2) obtain ch where
    ch: "chans (pollers S l) cid = Some ch" "cfd ch = fd" "index ch = kAdded" by blast
  from sys_okD(7) [OF ok ch(1) ev(1)] obtain c k where o: "objects S (cid - 2) = Some (c, k)" "conn_loop c = l" by blast
  have cid: "cid = chan_of (cid - 2)" using ev(1) by (simp add: chan_of_def)
  obtain ch2 where F: "cchan k = chan_of (cid - 2)" "chans (pollers S (conn_loop c)) (chan_of (cid - 2)) = Some ch2" "cfd ch2 = conn_fd c"
    "\<And>q r. functors_of S c = (q, r) \<Longrightarrow> phase_ok (cstate k) c ch2 q r (c \<in> set (removed S))"
    by (rule object_facts [OF f0 ok o(1)]) blast
  note F = F [folded cid, unfolded o(2)]
  have "ch2 = ch" using F(2) ch(1) by simp
  note F = F [unfolded this]
  let ?ch = "set_revents r ch"
  have r: "cfd ?ch = cfd ch" "index ?ch = index ch" "isReading ?ch = isReading ch"
    by (simp_all add: set_revents_def isReading_def)
  have "cstate k = kDisconnected \<or> cstate k \<in> {kConnected, kDisconnecting} \<and> isReading ch"
    using F(4) [OF functors_of_def] ch(3) by (cases "cstate k") simp_all
  then have "alive interest ?ch (k\<lparr>cpoller := (pollers S l)\<lparr>chans := (chans (pollers S l))(cid \<mapsto> ?ch)\<rparr>\<rparr>)"
    using poller_ok_same_index [OF sys_okD(2) [OF ok] ch(1) r(1,2)] r ch(3) F(1) by (auto simp: alive_def)
  then show thesis
    by (intro that [OF o cid _ F(3,1) _ ch(1,3)]) (use ch(1) in simp_all)
qed

lemma sys_event_ok:
  assumes f0: "fresh_server s0" and sp: "epoll_spec ctl interest" and mcb: "callback_acts ctl mcb" and ok: "sys_ok interest s0 S"
    and ev: "2 \<le> cid" "interest (kernel (pollers S l)) fd = Some (m, cid)" and up: "runs_loop S l"
    and st: "sys_event ctl mcb l cid r rr wr S = Some (Inr S')"
  shows "sys_ok interest s0 S'"
proof -
  obtain c k ch where o: "objects S (cid - 2) = Some (c, k)" "conn_loop c = l" and cid: "cid = chan_of (cid - 2)"
    and p: "fillActiveChannels [(r, cid)] (pollers S l) = Inr ([cid], (pollers S l)\<lparr>chans := (chans (pollers S l))(cid \<mapsto> set_revents r ch)\<rparr>)"
    and ch: "cfd ch = conn_fd c" "cchan k = cid"
    and al: "alive interest (set_revents r ch) (k\<lparr>cpoller := (pollers S l)\<lparr>chans := (chans (pollers S l))(cid \<mapsto> set_revents r ch)\<rparr>\<rparr>)"
    and chi: "chans (pollers S l) cid = Some ch" "index ch = kAdded"
    by (rule reported_object [OF f0 ok ev])
  let ?k0 = "k\<lparr>cpoller := (pollers S l)\<lparr>chans := (chans (pollers S l))(cid \<mapsto> set_revents r ch)\<rparr>\<rparr>"
  let ?i = "cid - 2"
  from st o p obtain k' where k': "conn_handleEvent ctl mcb rr wr ?k0 = Some (Inr k')"
    and cl: "close_calls ctl c (count_list (drop (length (effects k)) (effects k')) CloseCallbackCall)
       (S\<lparr>objects := (objects S)(?i \<mapsto> (c, k')), pollers := (pollers S)(l := cpoller k')\<rparr>) = Inr S'"
    by (auto simp: sys_event_def bind_r_Inr_iff)
  from conn_acts_evolve [OF sp conn_handleEvent_acts [OF mcb k']] al obtain ch' es where
    e: "alive interest ch' k'" "cfd ch' = conn_fd c" "cchan k' = cid" "chans (cpoller k') = (chans (pollers S l))(cid \<mapsto> ch')"
      "effects k' = effects k @ es" "CloseCallbackCall \<in> set es \<longrightarrow> cstate k' = kDisconnected"
      "cstate k = kDisconnected \<longrightarrow> cstate k' = kDisconnected"
      "cstate k' = kDisconnected \<longrightarrow> cstate k = kDisconnected \<or> CloseCallbackCall \<in> set es"
    using ch by (auto simp: evolves_def evolved_def set_revents_def)
  obtain chx where F: "c \<in> set (accepted S)" "conn_id c = ?i"
    "\<And>q r. functors_of S c = (q, r) \<Longrightarrow> phase_ok (cstate k) c chx q r (c \<in> set (removed S))"
    "chans (pollers S (conn_loop c)) (chan_of ?i) = Some chx"
    by (rule object_facts [OF f0 ok o(1)]) blast
  have chx: "index chx = kAdded" using F(4) chi o(2) cid [symmetric] by simp
  let ?n = "count_list es CloseCallbackCall"
  let ?S1 = "S\<lparr>objects := (objects S)(?i \<mapsto> (c, k')), pollers := (pollers S)(l := cpoller k')\<rparr>"
  have b1: "base_loop ?S1 = base_loop S" "runs_loop ?S1 (conn_loop c)" using up o(2) by (simp_all add: base_loop_def runs_loop_def)
  from close_calls_ok [OF f0, of c ?S1 ctl ?n] F(1) sys_okD(1,8) [OF ok] cl e(5) b1 have
    S': "accepted S' = accepted S" "objects S' = (objects S)(?i \<mapsto> (c, k'))" "pollers S' = (pollers S)(l := cpoller k')"
      "base_loop S' = base_loop S" "server_ok s0 (server S') (accepted S) (set (removed S'))"
    and q: "if base_loop S = conn_loop c
       then queues S' = (queues S)(conn_loop c := queues S (conn_loop c) @ replicate ?n (PostDestroyed c)) \<and> removed S' = removed S @ replicate ?n c
       else queues S' = (queues S)(base_loop S := queues S (base_loop S) @ replicate ?n (PostRemove c)) \<and> removed S' = removed S"
    by auto
  show ?thesis
  proof (rule sys_ok_step [OF f0 ok o(1)])
    show "functor_ok S' x g" if g: "g \<in> set (queues S' x)" "posted_ref g = Some c" for x g
    proof (cases "g \<in> set (queues S x)")
      case True
      show ?thesis
        by (rule functor_ok_kept [OF sys_okD(3) [OF ok True] g(2)]) (use q F(2) in \<open>auto simp: S' split: if_splits\<close>)
    next
      case False
      then show ?thesis using g q F(1,2) by (auto simp: functor_ok_def S' split: if_splits)
    qed
    show "c' \<in> set (removed S') \<longleftrightarrow> c' \<in> set (removed S)" if "c' \<noteq> c" for c' using q that by (auto split: if_splits)
    show "filter (\<lambda>g. posted_ref g \<noteq> Some c) (queues S' x) = filter (\<lambda>g. posted_ref g \<noteq> Some c) (queues S x)" for x
      using q by (auto simp: filter_replicate split: if_splits)
    show "\<exists>k2 ch2. Some (c, k') = Some (c, k2) \<and> Some ch' = Some ch2 \<and> cfd ch2 = conn_fd c \<and> cchan k2 = chan_of ?i \<and>
      (case functors_of S' c of (q, r) \<Rightarrow> phase_ok (cstate k2) c ch2 q r (c \<in> set (removed S')))"
    proof -
      obtain q0 r0 where f: "functors_of S c = (q0, r0)" by (metis surj_pair)
      then have f': "functors_of S' c = (q0 @ (if base_loop S = conn_loop c then replicate ?n (PostDestroyed c) else []),
          if base_loop S = conn_loop c then r0 else r0 + ?n)"
        using q by (auto simp: functors_of_def S'(4))
      have rm: "c \<in> set (removed S') \<longleftrightarrow> c \<in> set (removed S) \<or> base_loop S = conn_loop c \<and> 0 < ?n" using q by (auto split: if_splits)
      have nc: "cstate k \<noteq> kConnecting" using al by (auto simp: alive_def)
      have n: "0 < ?n \<longleftrightarrow> CloseCallbackCall \<in> set es" by (rule count_list_pos)
      have q0: "set q0 \<subseteq> {PostEstablished c, PostDestroyed c}" using f set_calls_of by (auto simp: functors_of_def)
      have "phase_ok (cstate k') c ch' (fst (functors_of S' c)) (snd (functors_of S' c)) (c \<in> set (removed S'))"
        using F(3) [OF f] e(1,6,7,8) n rm nc chx unfolding alive_def f'
        by (cases "cstate k"; cases "cstate k'"; cases "?n = 0"; cases "base_loop S = conn_loop c") auto
      then show ?thesis using e(2,3) cid by (simp add: split_beta)
    qed
  qed (use S' o(2) e cid in \<open>auto simp: alive_def\<close>)
qed

lemma conn_do_state: "conn_do ctl oper c = Inr c' \<Longrightarrow> cstate c' = cstate c"
  by (auto simp: conn_do_def bind_r_Inr_iff)

lemma buffer_rest_state:
  assumes "buffer_rest ctl rest ch c = Inr c'"
  shows "cstate c' = cstate c"
proof -
  define c2 where "c2 = (if highWaterMark c \<le> sz_add (readableBytes (outputBuffer c)) (length rest) \<and>
      readableBytes (outputBuffer c) < highWaterMark c \<and> hasHighWaterMark c
      then effect (QueueHighWaterMark (sz_add (readableBytes (outputBuffer c)) (length rest))) c else c)"
  from assms obtain b where b: "(if \<not> isWriting ch then conn_do ctl EnableWriting (c2\<lparr>outputBuffer := b\<rparr>) else Inr (c2\<lparr>outputBuffer := b\<rparr>)) = Inr c'"
    unfolding buffer_rest_def c2_def [symmetric] Let_def by (auto simp: bind_r_Inr_iff)
  have "cstate c2 = cstate c" by (simp add: c2_def)
  then show ?thesis using b by (auto dest: conn_do_state split: if_splits)
qed

lemma send_state:
  assumes "send ctl reply data c = Inr c'"
  shows "cstate c' = cstate c"
proof (cases "cstate c = kConnected")
  case True
  with assms obtain ch where "conn_channel c = Inr ch"
    and s: "(case direct_write reply data ch c of (c1, nwrote, remaining, faultError) \<Rightarrow>
          if \<not> faultError \<and> 0 < remaining then buffer_rest ctl (take remaining (drop nwrote data)) ch c1 else Inr c1) = Inr c'"
    by (auto simp: send_def sendInLoop_def Let_def bind_r_Inr_iff)
  obtain c1 nw rem fault where d: "direct_write reply data ch c = (c1, nw, rem, fault)" by (metis prod_cases4)
  have "cstate c1 = cstate c"
    using d by (auto simp: direct_write_def Let_def split: if_splits sysret.splits)
  then show ?thesis using s d by (auto dest: buffer_rest_state split: if_splits)
qed (use assms in \<open>simp add: send_def\<close>)

lemma shutdown_state: "TcpConnection_shutdown c = Inr c' \<Longrightarrow> c' = c \<or> cstate c = kConnected \<and> cstate c' = kDisconnecting"
  by (auto simp: TcpConnection_shutdown_def shutdownInLoop_def bind_r_Inr_iff split: if_splits)

lemma app_call_ok:
  assumes f0: "fresh_server s0" and sp: "epoll_spec ctl interest" and ok: "sys_ok interest s0 S" and o: "objects S i = Some (c, k)"
    and call: "on_object (conn_loop c) i f S = Inr S'"
    and f: "\<And>k0 k'. f k0 = Inr k' \<Longrightarrow> k' = k0 \<or> cstate k0 = kConnected \<and> conn_acts ctl k0 k' \<and> cstate k' \<in> {kConnected, kDisconnecting}"
  shows "sys_ok interest s0 S'"
proof -
  let ?p = "pollers S (conn_loop c)"
  let ?k0 = "k\<lparr>cpoller := ?p\<rparr>"
  from call o obtain k' where k': "f ?k0 = Inr k'"
    and S'_def: "S' = S\<lparr>objects := (objects S)(i \<mapsto> (c, k')), pollers := (pollers S)(conn_loop c := cpoller k')\<rparr>"
    by (auto simp: on_object_def bind_r_Inr_iff)
  obtain ch where F: "conn_id c = i" "cchan k = chan_of i" "chans ?p (chan_of i) = Some ch" "cfd ch = conn_fd c"
    "\<And>q r. functors_of S c = (q, r) \<Longrightarrow> phase_ok (cstate k) c ch q r (c \<in> set (removed S))"
    by (rule object_facts [OF f0 ok o]) blast
  have S': "accepted S' = accepted S" "removed S' = removed S" "base_loop S' = base_loop S" "server S' = server S"
    "queues S' = queues S" "objects S' = (objects S)(i \<mapsto> (c, k'))" "pollers S' = (pollers S)(conn_loop c := cpoller k')"
    "functors_of S' c = functors_of S c"
    by (simp_all add: S'_def base_loop_def functors_of_def)
  obtain q r where fo: "functors_of S c = (q, r)" by (metis surj_pair)
  note ph = F(5) [OF fo]
  obtain ch' where ch': "poller_ok interest (cpoller k')" "chans (cpoller k') = (chans ?p)(chan_of i \<mapsto> ch')" "cfd ch' = conn_fd c"
    "cchan k' = chan_of i" "phase_ok (cstate k') c ch' q r (c \<in> set (removed S))"
    using f [OF k']
  proof
    assume "k' = ?k0"
    then show thesis using that [of ch] F(2-4) ph sys_okD(2) [OF ok] by (simp add: fun_upd_idem)
  next
    assume a: "cstate ?k0 = kConnected \<and> conn_acts ctl ?k0 k' \<and> cstate k' \<in> {kConnected, kDisconnecting}"
    then have "alive interest ch ?k0" using F(2,3) ph sys_okD(2) [OF ok] by (simp add: alive_def)
    then have "evolved interest ch ?k0 k'" using conn_acts_evolve [OF sp, of ?k0 k'] a by (simp add: evolves_def)
    then obtain ch' where "alive interest ch' k'" "cfd ch' = cfd ch" "cchan k' = cchan k" "chans (cpoller k') = (chans ?p)(cchan k \<mapsto> ch')"
      by (auto simp: evolved_def)
    then show thesis using that [of ch'] F(2,4) ph a by (auto simp: alive_def)
  qed
  show ?thesis
  proof (rule sys_ok_step [OF f0 ok o])
    show "functor_ok S' x g" if "g \<in> set (queues S' x)" "posted_ref g = Some c" for x g
      by (rule functor_ok_kept [OF sys_okD(3) [OF ok] that(2)]) (use that(1) F(1) in \<open>simp_all add: S'\<close>)
  qed (use S' ch' fo sys_okD(1) [OF ok] in auto)
qed

lemma sys_accept_ok:
  assumes f0: "fresh_server s0" and sp: "epoll_spec ctl interest" and ok: "sys_ok interest s0 S"
    and fresh: "\<And>l cid ch. chans (pollers S l) cid = Some ch \<Longrightarrow> cfd ch \<noteq> fd" and lt: "int (length (accepted S)) < 2 ^ 31 - 2"
  shows "\<exists>S'. sys_accept ctl fd peer S = Inr S' \<and> sys_ok interest s0 S' \<and> length (accepted S') = Suc (length (accepted S))"
proof -
  let ?j = "length (accepted S)"
  define c where "c = nth_conn s0 ?j fd"
  define l where "l = conn_loop c"
  obtain s' where s': "newConnection fd peer (server S) = Inr s'" "server_ok s0 s' (accepted S @ [c]) (set (removed S))"
    unfolding c_def by (rule newConnection_ok [OF f0 sys_okD(1) [OF ok] lt])
  have last: "List.last (post s') = (l, PostEstablished c)"
    using newConnection_last [OF f0 sys_okD(1) [OF ok] s'(1)] s'(2) by (simp add: c_def l_def)
  have C: "conn_id c = ?j" "conn_fd c = fd" using nth_conn_fields [OF f0] by (simp_all add: c_def)
  have none: "chans (pollers S x) (chan_of ?j) = None" for x
  proof (cases "chans (pollers S x) (chan_of ?j)")
    case (Some ch)
    from sys_okD(7) [OF ok this] obtain d k where "objects S ?j = Some (d, k)" by (auto simp: chan_of_def)
    from sys_okD(4) [OF ok this] show ?thesis by (simp add: object_ok_def)
  qed
  have new: "c \<notin> set (accepted S)"
    using accepted_id [OF f0 sys_okD(1) [OF ok]] C(1) by (metis in_set_conv_nth less_irrefl)
  then have nr: "c \<notin> set (removed S)" using sys_okD(1) [OF ok] by (auto simp: server_ok_def)
  have nq: "g \<notin> set (queues S x)" if "posted_ref g = Some c" for g x
    using sys_okD(3) [OF ok, of g x] new that by (auto simp: functor_ok_def)
  then have cnt: "calls_of c (queues S x) = []" "count_list (queues S x) (PostRemove c) = 0" for x
    by (auto simp: count_list_0_iff calls_of_def filter_empty_conv)
  obtain k ch where k: "TcpConnection_new (pollers S l) (chan_of ?j) fd = Inr k" "cstate k = kConnecting" "cchan k = chan_of ?j"
    "cpoller k = (pollers S l)\<lparr>chans := (chans (pollers S l))(chan_of ?j \<mapsto> ch)\<rparr>" "cfd ch = fd" "index ch = kNew"
    by (rule new_object)
  have kp: "poller_ok interest (cpoller k)" unfolding k(4) by (rule poller_ok_create [OF sys_okD(2) [OF ok] none k(6)])
  define S1 where "S1 = S\<lparr>server := s', objects := (objects S)(?j \<mapsto> (c, k)), pollers := (pollers S)(l := cpoller k), accepted := accepted S @ [c]\<rparr>"
  have acc: "sys_accept ctl fd peer S = run_in_loop ctl (base_loop S) (l, PostEstablished c) S1"
    using s'(1) k(1) C(1) by (simp add: sys_accept_def last S1_def)
  have b: "base_loop S1 = base_loop S" using newConnection_base [OF s'(1)] by (simp add: base_loop_def S1_def)
  have fin: "sys_ok interest s0 S' \<and> length (accepted S') = Suc ?j"
    if S': "server S' = s'" "accepted S' = accepted S @ [c]" "removed S' = removed S" "objects S' = (objects S)(?j \<mapsto> (c, k'))"
      "pollers S' = (pollers S)(l := p)" "poller_ok interest p" "chans p = (chans (pollers S l))(chan_of ?j \<mapsto> ch')" "cfd ch' = fd"
      "cchan k' = chan_of ?j" "\<And>x. queues S' x = queues S x @ (if x = l \<and> n = 1 then [PostEstablished c] else [])"
      "phase_ok (cstate k') c ch' (if n = 1 then [PostEstablished c] else []) 0 False" "n \<le> 1" "n = 1 \<Longrightarrow> l \<noteq> base_loop S"
      for S' k' p ch' and n :: nat
  proof -
    have b': "base_loop S' = base_loop S" using b by (simp add: base_loop_def S1_def S'(1))
    have fo: "functors_of S' c = (if n = 1 then [PostEstablished c] else [], 0)"
      using cnt by (simp add: functors_of_def S'(10) l_def)
    have "sys_ok interest s0 S'"
    proof (rule sys_ok_update [OF f0 ok, of S' "[c]" c ?j "Some (c, k')" "Some ch'"])
      show "functor_ok S' x g" if "g \<in> set (queues S' x)" "posted_ref g = Some c" for x g
        using that nq [OF that(2), of x] C(1) S'(13) b' by (auto simp: S'(1-10) functor_ok_def l_def split: if_splits)
      show "filter (\<lambda>g. posted_ref g \<noteq> Some c) (queues S' x) = filter (\<lambda>g. posted_ref g \<noteq> Some c) (queues S x)" for x
        by (simp add: S'(10))
      show "poller_ok interest (pollers S' x)" for x using sys_okD(2) [OF ok] S'(5,6) by simp
      show "y = conn_loop c \<and> cid = chan_of ?j" if "chans (pollers S y) cid = Some ch2" "cfd ch2 = conn_fd c" for y cid ch2
        using fresh [OF that(1)] that(2) C(2) by simp
      show "\<exists>k ch. Some (c, k') = Some (c, k) \<and> Some ch' = Some ch \<and> cfd ch = conn_fd c \<and> object_ok S' ?j c k"
        using S'(1-11) fo nr C(2) by (simp add: object_ok_def l_def)
    qed (use S'(1-10) s'(2) b' lt C in \<open>simp_all add: l_def\<close>)
    then show ?thesis using S'(2) by simp
  qed
  show ?thesis
  proof (cases "l = base_loop S")
    case False
    let ?S' = "enqueue l (PostEstablished c) S1"
    have "sys_ok interest s0 ?S' \<and> length (accepted ?S') = Suc ?j"
      by (rule fin [where k' = k and p = "cpoller k" and ch' = ch and n = 1])
        (use k kp False in \<open>simp_all add: enqueue_def S1_def\<close>)
    then show ?thesis using acc False by (simp add: run_in_loop_def)
  next
    case True
    have u: "\<And>cid' ch'. chans (cpoller k) cid' = Some ch' \<Longrightarrow> cfd ch' = cfd ch \<Longrightarrow> cid' = chan_of ?j"
      using fresh [of l] k(4,5) by (auto split: if_splits)
    have "channels (cpoller k) (cfd ch) = None"
    proof (rule new_not_in_table [OF kp _ k(6)])
      show "chans (cpoller k) (chan_of ?j) = Some ch" by (simp add: k(4))
    qed (rule u)
    then obtain k' ch' where k': "connectEstablished ctl (k\<lparr>cpoller := cpoller k\<rparr>) = Inr k'" "poller_ok interest (cpoller k')"
      "chans (cpoller k') = (chans (cpoller k))(cchan k \<mapsto> ch')" "cfd ch' = cfd ch" "index ch' = kAdded" "isReading ch'"
      "cstate k' = kConnected" "cchan k' = cchan k"
      by (rule established_object [OF sp kp, of k ch, rotated 2]) (use k in simp_all)
    let ?S' = "S1\<lparr>objects := (objects S1)(?j \<mapsto> (c, k')), pollers := (pollers S1)(l := cpoller k')\<rparr>"
    have "sys_ok interest s0 ?S' \<and> length (accepted ?S') = Suc ?j"
      by (rule fin [where k' = k' and p = "cpoller k'" and ch' = ch' and n = 0])
        (use k k' in \<open>simp_all add: S1_def\<close>)
    moreover have "run_posted ctl (base_loop S) (PostEstablished c) S1 = Inr ?S'"
      using k'(1) True C(1) by (simp add: on_object_def S1_def)
    ultimately show ?thesis using acc True by (simp add: run_in_loop_def)
  qed
qed

lemma on_object_frame:
  "on_object l i f S = Inr S' \<Longrightarrow> queues S' = queues S \<and> server S' = server S \<and> accepted S' = accepted S \<and> removed S' = removed S \<and> down S' = down S"
  by (auto simp: on_object_def bind_r_Inr_iff split: option.splits)

lemma release_frame: "queues (release c S) = queues S" "server (release c S) = server S" "all_loops (release c S) = all_loops S"
  "accepted (release c S) = accepted S" "removed (release c S) = removed S" "down (release c S) = down S"
  by (simp_all add: release_def all_loops_def base_loop_def)

text \<open>The destructor hands over one connection.\<close>

lemma destroy_one:
  assumes f0: "fresh_server s0" and sp: "epoll_spec ctl interest" and ok: "sys_ok interest s0 S"
    and n: "connections (server S) n = Some c"
  shows "\<exists>T. run_in_loop ctl (base_loop S) (List.last (post (destroy_all [n] (server S)))) (S\<lparr>server := destroy_all [n] (server S), removed := removed S @ [c]\<rparr>) = Inr T \<and>
    sys_ok interest s0 (release c T) \<and> server T = removeConnectionInLoop c (server S) \<and> accepted T = accepted S \<and> down T = down S"
proof -
  have c: "c \<in> set (accepted S)" "c \<notin> set (removed S)" "conn_name c = n" using n sys_okD(1) [OF ok] by (auto simp: server_ok_def)
  have d: "destroy_all [n] (server S) = removeConnectionInLoop c (server S)" "List.last (post (removeConnectionInLoop c (server S))) = (conn_loop c, PostDestroyed c)"
    using n c(3) by (simp_all add: removeConnectionInLoop_def post_to_def)
  from sys_okD(5) [OF ok c(1,2)] obtain c' k where o: "objects S (conn_id c) = Some (c', k)" by auto
  have "c' = c" using object_facts [OF f0 ok o] accepted_inj [OF f0 sys_okD(1) [OF ok] _ c(1)] by metis
  note o = o [unfolded this]
  obtain ch where F: "cchan k = chan_of (conn_id c)" "chans (pollers S (conn_loop c)) (chan_of (conn_id c)) = Some ch" "cfd ch = conn_fd c"
    "\<And>q r. functors_of S c = (q, r) \<Longrightarrow> phase_ok (cstate k) c ch q r (c \<in> set (removed S))"
    by (rule object_facts [OF f0 ok o]) blast
  let ?T = "S\<lparr>server := removeConnectionInLoop c (server S), removed := removed S @ [c]\<rparr>"
  have srv: "server_ok s0 (server ?T) (accepted S) (set (removed ?T))"
    using server_remove_ok [OF f0 sys_okD(1) [OF ok] c(1) sys_okD(8) [OF ok]] by simp
  have bl: "base_loop ?T = base_loop S" "all_loops ?T = all_loops S"
    by (simp_all add: base_loop_def all_loops_def removeConnectionInLoop_def post_to_def)
  show ?thesis
  proof (cases "conn_loop c = base_loop S")
    case True
    have ne: "PostEstablished c \<notin> set (queues S x)" for x
      using sys_okD(3) [OF ok, of "PostEstablished c" x] True by (auto simp: functor_ok_def)
    have ph: "cstate k \<noteq> kConnecting"
      "cstate k \<noteq> kDisconnected \<Longrightarrow> calls_of c (queues S (conn_loop c)) = [] \<and> count_list (queues S (base_loop S)) (PostRemove c) = 0"
      using F(4) [OF functors_of_def] c(2) ne set_calls_of [of "PostEstablished c" c "queues S (conn_loop c)"] by (cases "cstate k"; auto)+
    have op: "posted_ref g \<noteq> Some c" if st: "cstate k \<noteq> kDisconnected" and g: "g \<in> set (queues S x)" for x g
    proof
      assume r: "posted_ref g = Some c"
      obtain k2 where "g = PostEstablished c \<and> x = conn_loop c \<or> g = PostRemove c \<and> x = base_loop S \<or> g = PostDestroyed c \<and> x = conn_loop c"
        by (rule queued_object [OF f0 ok g r]) auto
      then show False using g ne ph(2) [OF st] set_calls_of [of g c "queues S (conn_loop c)"] by (auto simp: count_list_0_iff)
    qed
    have "\<exists>S1. on_object (conn_loop c) (conn_id c) (connectDestroyed ctl) ?T = Inr S1 \<and> sys_ok interest s0 (release c S1)"
      by (rule destroyed_step [OF f0 sp ok o]) (use srv bl ne ph op in auto)
    then obtain S1 where S1: "on_object (conn_loop c) (conn_id c) (connectDestroyed ctl) ?T = Inr S1" "sys_ok interest s0 (release c S1)" by blast
    then show ?thesis using True on_object_frame [OF S1(1)] unfolding d by (intro exI [of _ S1]) (simp add: run_in_loop_def)
  next
    case False
    let ?S' = "enqueue (conn_loop c) (PostDestroyed c) ?T"
    have S': "accepted ?S' = accepted S" "base_loop ?S' = base_loop S" "objects ?S' = objects S" "pollers ?S' = pollers S"
      "removed ?S' = removed S @ [c]" "server ?S' = removeConnectionInLoop c (server S)" "all_loops ?S' = all_loops S"
      "\<And>x. queues ?S' x = queues S x @ (if x = conn_loop c then [PostDestroyed c] else [])"
      using bl by (simp_all add: enqueue_def base_loop_def all_loops_def)
    have "sys_ok interest s0 ?S'"
    proof (rule sys_ok_step [OF f0 ok o, of _ "Some (c, k)" "pollers S (conn_loop c)" "Some ch"])
      show "functor_ok ?S' x g" if g: "g \<in> set (queues ?S' x)" "posted_ref g = Some c" for x g
      proof (cases "g \<in> set (queues S x)")
        case True
        then show ?thesis by (intro functor_ok_kept [OF sys_okD(3) [OF ok] g(2)]) (use o in \<open>auto simp: S'\<close>)
      next
        case False
        then show ?thesis using g c(1) o unfolding S'(8) by (auto simp: functor_ok_def S'(1-7) split: if_splits)
      qed
      show "\<exists>k' ch'. Some (c, k) = Some (c, k') \<and> Some ch = Some ch' \<and> cfd ch' = conn_fd c \<and> cchan k' = chan_of (conn_id c) \<and>
        (case functors_of ?S' c of (q, r) \<Rightarrow> phase_ok (cstate k') c ch' q r (c \<in> set (removed ?S')))"
        using F(1,3) F(4) [OF functors_of_def] c(2) False by (cases "cstate k") (auto simp: functors_of_def S')
    qed (use srv F(2) o sys_okD(2) [OF ok] in \<open>auto simp: S' fun_upd_idem\<close>)
    moreover have "referenced ?S' c"
      by (rule referencedI [of "conn_loop c" _ "PostDestroyed c"])
        (use conn_loop_in [OF f0 sys_okD(1) [OF ok] c(1)] in \<open>simp_all add: S'(7,8), simp add: all_loops_def\<close>)
    ultimately show ?thesis using False S'(1,6) unfolding d
      by (intro exI [of _ ?S']) (simp add: run_in_loop_def release_def, simp add: enqueue_def)
  qed
qed

lemma destroy_conns_ok:
  assumes f0: "fresh_server s0" and sp: "epoll_spec ctl interest"
  shows "sys_ok interest s0 S \<Longrightarrow> \<exists>S'. destroy_conns ctl ns S = Inr S' \<and> sys_ok interest s0 S' \<and> down S' = down S \<and> accepted S' = accepted S \<and>
    dom (connections (server S')) = dom (connections (server S)) - set ns"
proof (induction ns arbitrary: S)
  case (Cons n ns)
  show ?case
  proof (cases "connections (server S) n")
    case None
    then show ?thesis using Cons.IH [OF Cons.prems] by auto
  next
    case (Some c)
    from destroy_one [OF f0 sp Cons.prems Some] obtain T where
      T: "run_in_loop ctl (base_loop S) (List.last (post (destroy_all [n] (server S)))) (S\<lparr>server := destroy_all [n] (server S), removed := removed S @ [c]\<rparr>) = Inr T"
      "sys_ok interest s0 (release c T)" "server T = removeConnectionInLoop c (server S)" "accepted T = accepted S" "down T = down S" by blast
    have "conn_name c = n" using Some sys_okD(1) [OF Cons.prems] by (auto simp: server_ok_def)
    then have "dom (connections (server T)) = dom (connections (server S)) - {n}" by (simp add: T(3) removeConnectionInLoop_def post_to_def)
    moreover have "destroy_conns ctl (n # ns) S = destroy_conns ctl ns (release c T)" using T(1) by (simp add: Some Let_def del: destroy_all.simps)
    ultimately show ?thesis using Cons.IH [OF T(2)] T(4,5) by (auto simp: release_frame)
  qed
qed simp

lemma sys_ok_down: "sys_ok interest s0 (S\<lparr>down := b\<rparr>) = sys_ok interest s0 S"
  by (simp add: sys_ok_def functor_ok_def object_ok_def functors_of_def base_loop_def)

lemma sys_destroy_ok:
  assumes f0: "fresh_server s0" and sp: "epoll_spec ctl interest" and ok: "sys_ok interest s0 S" and ns: "set ns = dom (connections (server S))"
  shows "\<exists>S'. sys_destroy ctl ns S = Inr S' \<and> sys_ok interest s0 S' \<and> down S' \<and> accepted S' = accepted S \<and> set (accepted S') \<subseteq> set (removed S')"
proof -
  from destroy_conns_ok [OF f0 sp, of "S\<lparr>down := True\<rparr>" ns] ok obtain S' where
    S': "destroy_conns ctl ns (S\<lparr>down := True\<rparr>) = Inr S'" "sys_ok interest s0 S'" "down S'" "accepted S' = accepted S"
      "dom (connections (server S')) = {}" using ns by (auto simp: sys_ok_down)
  have "c \<in> set (removed S')" if "c \<in> set (accepted S')" for c
    using in_table [OF S'(2) that] S'(5) by auto
  then show ?thesis using S' by (auto simp: sys_destroy_def)
qed

text \<open>Every step but an accept and the destruction keeps the connections accepted, the base loop and whether the server is up.\<close>

definition same_server :: "'k system \<Rightarrow> 'k system \<Rightarrow> bool" where
  "same_server S S' \<longleftrightarrow> accepted S' = accepted S \<and> down S' = down S \<and> base_loop S' = base_loop S \<and> set (removed S) \<subseteq> set (removed S')"

lemma same_server_trans: "same_server S S' \<Longrightarrow> same_server S' S'' \<Longrightarrow> same_server S S''"
  by (auto simp: same_server_def)

lemma on_object_same: "on_object l i f S = Inr S' \<Longrightarrow> same_server S S'"
  by (auto simp: same_server_def base_loop_def dest!: on_object_frame)

lemma run_posted_same: "run_posted ctl me f S = Inr S' \<Longrightarrow> same_server S S'"
  by (cases f) (auto simp: on_object_same, auto simp: same_server_def enqueue_def base_loop_def removeConnectionInLoop_def post_to_def split: if_splits)

lemma run_in_loop_same: "run_in_loop ctl me (l, f) S = Inr S' \<Longrightarrow> same_server S S'"
  using run_posted_same [of ctl me f S S']
  by (cases "l = me") (simp_all add: run_in_loop_def, auto simp: same_server_def enqueue_def base_loop_def)

lemma sys_run_same: "sys_run ctl l S = Inr S' \<Longrightarrow> same_server S S'"
proof (cases "queues S l")
  case (Cons f fs)
  assume "sys_run ctl l S = Inr S'"
  with Cons obtain S1 where S1: "run_posted ctl l f (S\<lparr>queues := (queues S)(l := fs)\<rparr>) = Inr S1"
    "S' = (case posted_ref f of None \<Rightarrow> S1 | Some c \<Rightarrow> release c S1)" by (auto simp: sys_run_def bind_r_Inr_iff)
  have "same_server S (S\<lparr>queues := (queues S)(l := fs)\<rparr>)" "same_server S1 S'"
    by (auto simp: same_server_def base_loop_def S1(2) release_frame split: option.splits)
  with run_posted_same [OF S1(1)] show ?thesis by (blast intro: same_server_trans)
qed (simp add: sys_run_def same_server_def)

lemma close_calls_same: "close_calls ctl c n S = Inr S' \<Longrightarrow> same_server S S'"
proof (induction n arbitrary: S)
  case (Suc n)
  let ?s = "removeConnection c (server S)"
  from Suc.prems obtain T where T: "run_in_loop ctl (conn_loop c) (List.last (post ?s)) (S\<lparr>server := ?s\<rparr>) = Inr T" "close_calls ctl c n T = Inr S'"
    by (auto simp: Let_def bind_r_Inr_iff)
  have "same_server S (S\<lparr>server := ?s\<rparr>)" by (simp add: same_server_def base_loop_def removeConnection_def post_to_def)
  moreover have "same_server (S\<lparr>server := ?s\<rparr>) T"
    using T(1) by (cases "List.last (post ?s)") (simp add: run_in_loop_same)
  ultimately show ?case using Suc.IH [OF T(2)] by (blast intro: same_server_trans)
qed (simp add: same_server_def)

lemma sys_event_same: "sys_event ctl mcb l cid r rr wr S = Some (Inr S') \<Longrightarrow> same_server S S'"
  by (auto simp: sys_event_def bind_r_Inr_iff same_server_def base_loop_def dest!: close_calls_same split: option.splits sum.splits) blast+

section \<open>The transition system\<close>

text \<open>
  At the start the server has been started, nothing has been accepted, and the pollers know only the
  loops' own channels.
\<close>

definition sys_start :: "'k epoll_ctl \<Rightarrow> ('k \<Rightarrow> int \<Rightarrow> (mask \<times> chan_id) option) \<Rightarrow> 'k system \<Rightarrow> bool" where
  "sys_start ctl interest S \<longleftrightarrow> epoll_spec ctl interest \<and> fresh_server (server S) \<and> accepted S = [] \<and> removed S = [] \<and>
     objects S = Map.empty \<and> queues S = (\<lambda>l. []) \<and> \<not> down S \<and>
     (\<forall>l. poller_ok interest (pollers S l) \<and> (\<forall>cid\<in>dom (chans (pollers S l)). cid < 2)) \<and>
     (\<forall>l cid ch l' cid' ch'. chans (pollers S l) cid = Some ch \<longrightarrow> chans (pollers S l') cid' = Some ch' \<longrightarrow>
        cfd ch = cfd ch' \<longrightarrow> l = l' \<and> cid = cid')"

definition sys_trans :: "'k epoll_ctl \<Rightarrow> ('k \<Rightarrow> int \<Rightarrow> (mask \<times> chan_id) option) \<Rightarrow> ('k TcpConnection \<Rightarrow> 'k TcpConnection result) \<Rightarrow>
    'k system \<Rightarrow> 'k system \<Rightarrow> bool" where
  "sys_trans ctl interest mcb S S' \<longleftrightarrow> (\<exists>ev. ev_ok interest ev S \<and> sys_step ctl mcb ev S = Some (Inr S'))"

definition sys_inv :: "'k epoll_ctl \<Rightarrow> ('k \<Rightarrow> int \<Rightarrow> (mask \<times> chan_id) option) \<Rightarrow> 'k system \<Rightarrow> bool" where
  "sys_inv ctl interest S \<longleftrightarrow> epoll_spec ctl interest \<and> (\<exists>s0. fresh_server s0 \<and> sys_ok interest s0 S) \<and>
     (down S \<longrightarrow> set (accepted S) \<subseteq> set (removed S))"

lemma sys_start_ok:
  assumes "sys_start ctl interest S"
  shows "sys_ok interest (server S) S"
proof -
  note A = assms [unfolded sys_start_def]
  have "server_ok (server S) (server S) (accepted S) (set (removed S))" using A fresh_server_ok [of "server S"] by simp
  moreover have "\<not> 2 \<le> cid" if "chans (pollers S l) cid = Some ch" for l cid ch
    using A that by (meson domI linorder_not_le)
  ultimately show ?thesis
    unfolding sys_ok_def using A by simp
qed

lemma sys_step_ok:
  assumes f0: "fresh_server s0" and sp: "epoll_spec ctl interest" and mcb: "callback_acts ctl mcb" and ok: "sys_ok interest s0 S"
    and ev: "ev_ok interest ev S" and st: "sys_step ctl mcb ev S = Some (Inr S')"
  shows "sys_ok interest s0 S'"
proof (cases ev)
  case (EvAccept fd peer)
  then have a: "sys_accept ctl fd peer S = Inr S'" using st by simp
  have "nextConnId (server S) = 1 + int (length (accepted S))" using sys_okD(1) [OF ok] by (simp add: server_ok_def)
  moreover have "nextConnId (server S) \<noteq> 2 ^ 31 - 1"
    using a by (auto simp: sys_accept_def newConnection_def bind_r_Inr_iff Let_def split: if_splits)
  ultimately have "int (length (accepted S)) < 2 ^ 31 - 2" using sys_okD(8) [OF ok] by simp
  then show ?thesis using sys_accept_ok [OF f0 sp ok, of fd peer] a ev EvAccept by auto
next
  case (EvRun l)
  then show ?thesis using sys_run_ok [OF f0 sp ok, of l] ev st by auto
next
  case (EvChannel l cid r rr wr)
  then show ?thesis using sys_event_ok [OF f0 sp mcb ok] ev st by auto
next
  case (EvSend i reply d)
  then obtain c k where o: "objects S i = Some (c, k)" using ev by auto
  show ?thesis
  proof (rule app_call_ok [OF f0 sp ok o])
    show "on_object (conn_loop c) i (send ctl reply d) S = Inr S'" using st EvSend o by simp
    show "k' = k0 \<or> cstate k0 = kConnected \<and> conn_acts ctl k0 k' \<and> cstate k' \<in> {kConnected, kDisconnecting}"
      if "send ctl reply d k0 = Inr k'" for k0 k'
      using that send_acts [OF that] send_state [OF that] by (cases "cstate k0 = kConnected") (simp_all add: send_def)
  qed
next
  case (EvShutdown i)
  then obtain c k where o: "objects S i = Some (c, k)" using ev by auto
  show ?thesis
  proof (rule app_call_ok [OF f0 sp ok o])
    show "on_object (conn_loop c) i TcpConnection_shutdown S = Inr S'" using st EvShutdown o by simp
    show "k' = k0 \<or> cstate k0 = kConnected \<and> conn_acts ctl k0 k' \<and> cstate k' \<in> {kConnected, kDisconnecting}"
      if "TcpConnection_shutdown k0 = Inr k'" for k0 k'
      using shutdown_acts [OF that] shutdown_state [OF that] by auto
  qed
next
  case (EvDestroy names)
  then show ?thesis using sys_destroy_ok [OF f0 sp ok, of names] ev st by auto
qed

lemma sys_accept_down: "sys_accept ctl fd peer S = Inr S' \<Longrightarrow> down S' = down S"
proof -
  assume "sys_accept ctl fd peer S = Inr S'"
  then obtain s' where s': "newConnection fd peer (server S) = Inr s'"
    and r: "(let (l, f) = List.last (post s') in
       case posted_ref f of
         None \<Rightarrow> Inl NullDeref
       | Some c \<Rightarrow>
           bind_r (TcpConnection_new (pollers S l) (chan_of (conn_id c)) fd) (\<lambda>k.
             run_in_loop ctl (base_loop S) (l, f)
               (S\<lparr>server := s', objects := (objects S)(conn_id c \<mapsto> (c, k)), pollers := (pollers S)(l := cpoller k),
                  accepted := accepted S @ [c]\<rparr>))) = Inr S'"
    by (auto simp: sys_accept_def bind_r_Inr_iff)
  obtain l f where lf: "List.last (post s') = (l, f)" by (metis surj_pair)
  show ?thesis using r by (auto simp: lf bind_r_Inr_iff same_server_def split: option.splits dest!: run_in_loop_same)
qed

text \<open>Once the server is down every connection has been taken out of the table.\<close>

lemma sys_step_down:
  assumes f0: "fresh_server s0" and sp: "epoll_spec ctl interest" and ok: "sys_ok interest s0 S"
    and ev: "ev_ok interest ev S" and st: "sys_step ctl mcb ev S = Some (Inr S')"
    and dn: "down S \<longrightarrow> set (accepted S) \<subseteq> set (removed S)" "down S'"
  shows "set (accepted S') \<subseteq> set (removed S')"
proof (cases ev)
  case (EvAccept fd peer)
  then show ?thesis using sys_accept_down [of ctl fd peer S S'] ev st dn(2) by auto
next
  case (EvDestroy names)
  then show ?thesis using sys_destroy_ok [OF f0 sp ok, of names] ev st by auto
qed (use st dn on_object_same sys_run_same sys_event_same in \<open>fastforce simp: same_server_def split: option.splits\<close>)+

interpretation lifecycle: invariant_system "sys_start ctl interest" "sys_trans ctl interest (onMessage ctl kwrite)" "sys_inv ctl interest"
  for ctl interest kwrite
proof
  show "sys_inv ctl interest S" if "sys_start ctl interest S" for S
    using that sys_start_ok [OF that] by (auto simp: sys_inv_def sys_start_def)
  show "sys_inv ctl interest S'" if i: "sys_inv ctl interest S" and t: "sys_trans ctl interest (onMessage ctl kwrite) S S'" for S S'
  proof -
    from i obtain s0 where s0: "epoll_spec ctl interest" "fresh_server s0" "sys_ok interest s0 S" "down S \<longrightarrow> set (accepted S) \<subseteq> set (removed S)"
      by (auto simp: sys_inv_def)
    from t obtain ev where ev: "ev_ok interest ev S" "sys_step ctl (onMessage ctl kwrite) ev S = Some (Inr S')" by (auto simp: sys_trans_def)
    show ?thesis
      using s0(1,2) sys_step_ok [OF s0(2,1) onMessage_acts s0(3) ev] sys_step_down [OF s0(2,1,3) ev s0(4)] by (auto simp: sys_inv_def)
  qed
qed

text \<open>The loops of a reachable system run their functors until none is left.\<close>

fun functor_weight :: "posted \<Rightarrow> nat" where
  "functor_weight (PostRemove c) = 2"
| "functor_weight f = 1"

definition queue_weight :: "'k system \<Rightarrow> nat" where
  "queue_weight S = (\<Sum>l\<in>set (all_loops S). sum_list (map functor_weight (queues S l)))"

fun sys_runs :: "'k epoll_ctl \<Rightarrow> loop_id list \<Rightarrow> 'k system \<Rightarrow> 'k system result" where
  "sys_runs ctl [] S = Inr S"
| "sys_runs ctl (l # ls) S = bind_r (sys_run ctl l S) (sys_runs ctl ls)"

lemma sys_run_queues:
  assumes q: "queues S l = f # fs" and r: "sys_run ctl l S = Inr S'"
  shows "all_loops S' = all_loops S"
    "queues S' = (case f of PostRemove c \<Rightarrow> ((queues S)(l := fs))(conn_loop c := ((queues S)(l := fs)) (conn_loop c) @ [PostDestroyed c])
       | _ \<Rightarrow> (queues S)(l := fs))"
proof -
  from q r obtain S1 where S1: "run_posted ctl l f (S\<lparr>queues := (queues S)(l := fs)\<rparr>) = Inr S1"
    and S': "S' = (case posted_ref f of None \<Rightarrow> S1 | Some c \<Rightarrow> release c S1)"
    by (auto simp: sys_run_def bind_r_Inr_iff)
  have "queues S' = queues S1" "all_loops S' = all_loops S1" by (simp_all add: S' release_frame split: option.splits)
  moreover have "queues S1 = (case f of PostRemove c \<Rightarrow> ((queues S)(l := fs))(conn_loop c := ((queues S)(l := fs)) (conn_loop c) @ [PostDestroyed c])
       | _ \<Rightarrow> (queues S)(l := fs)) \<and> all_loops S1 = all_loops S"
    using S1 by (cases f)
      (auto simp: enqueue_def removeConnectionInLoop_def post_to_def all_loops_def base_loop_def dest!: on_object_frame split: if_splits)
  ultimately show "all_loops S' = all_loops S"
    "queues S' = (case f of PostRemove c \<Rightarrow> ((queues S)(l := fs))(conn_loop c := ((queues S)(l := fs)) (conn_loop c) @ [PostDestroyed c])
       | _ \<Rightarrow> (queues S)(l := fs))" by auto
qed

lemma sum_update:
  fixes w :: "'b \<Rightarrow> nat"
  assumes "finite A" "x \<in> A"
  shows "(\<Sum>y\<in>A. w ((q(x := v)) y)) + w (q x) = (\<Sum>y\<in>A. w (q y)) + w v"
proof -
  have "(\<Sum>y\<in>A - {x}. w ((q(x := v)) y)) = (\<Sum>y\<in>A - {x}. w (q y))" by (rule sum.cong) auto
  then show ?thesis using assms sum.remove [OF assms, of "\<lambda>y. w ((q(x := v)) y)"] sum.remove [OF assms, of "\<lambda>y. w (q y)"] by simp
qed

lemma queue_in_loops:
  assumes f0: "fresh_server s0" and ok: "sys_ok interest s0 S" and f: "f \<in> set (queues S l)"
  shows "l \<in> set (all_loops S)" "f = PostRemove c \<Longrightarrow> conn_loop c \<in> set (all_loops S)"
proof -
  from sys_okD(3) [OF ok f] obtain d where d: "d \<in> set (accepted S)" "l = conn_loop d \<or> l = base_loop S" "posted_ref f = Some d"
    unfolding functor_ok_def by auto
  note in_d = conn_loop_in [OF f0 sys_okD(1) [OF ok] d(1)]
  show "l \<in> set (all_loops S)" using in_d d(2) by (auto simp: all_loops_def)
  show "conn_loop c \<in> set (all_loops S)" if "f = PostRemove c" using in_d d(3) that by (auto simp: all_loops_def)
qed

lemma sys_run_weight:
  assumes f0: "fresh_server s0" and ok: "sys_ok interest s0 S" and q: "queues S l = f # fs" and r: "sys_run ctl l S = Inr S'"
  shows "queue_weight S' < queue_weight S"
proof -
  let ?A = "set (all_loops S)" and ?W = "\<lambda>q. sum_list (map functor_weight q)" and ?q1 = "(queues S)(l := fs)"
  have f: "f \<in> set (queues S l)" using q by simp
  note in_l = queue_in_loops [OF f0 ok f]
  note Q = sys_run_queues [OF q r]
  have 1: "(\<Sum>y\<in>?A. ?W (?q1 y)) + ?W (queues S l) = (\<Sum>y\<in>?A. ?W (queues S y)) + ?W fs"
    using sum_update [of ?A l ?W "queues S" fs] in_l(1) by simp
  show ?thesis
  proof (cases f)
    case (PostRemove c)
    have "(\<Sum>y\<in>?A. ?W ((?q1(conn_loop c := ?q1 (conn_loop c) @ [PostDestroyed c])) y)) + ?W (?q1 (conn_loop c)) =
        (\<Sum>y\<in>?A. ?W (?q1 y)) + ?W (?q1 (conn_loop c) @ [PostDestroyed c])"
      by (rule sum_update) (use in_l(2) PostRemove in auto)
    moreover have "queue_weight S' = (\<Sum>y\<in>?A. ?W ((?q1(conn_loop c := ?q1 (conn_loop c) @ [PostDestroyed c])) y))"
      using Q PostRemove by (simp add: queue_weight_def)
    ultimately show ?thesis using 1 PostRemove q by (simp add: queue_weight_def)
  qed (use 1 q Q in \<open>simp_all add: queue_weight_def\<close>)
qed

text \<open>A closed connection stays closed until it is destroyed.\<close>

definition closed_or_gone :: "'k system \<Rightarrow> nat \<Rightarrow> bool" where
  "closed_or_gone S i \<longleftrightarrow> (case objects S i of None \<Rightarrow> True | Some (c, k) \<Rightarrow> cstate k = kDisconnected)"

lemma connectDestroyed_state: "connectDestroyed ctl k = Inr k' \<Longrightarrow> cstate k = kDisconnected \<Longrightarrow> cstate k' = kDisconnected"
  by (auto simp: connectDestroyed_def dest: conn_do_state)

lemma sys_run_closed:
  assumes f0: "fresh_server s0" and ok: "sys_ok interest s0 S" and r: "sys_run ctl l S = Inr S'" and cl: "closed_or_gone S i"
  shows "closed_or_gone S' i"
proof (cases "queues S l")
  case Nil
  then show ?thesis using r cl by (simp add: sys_run_def)
next
  case (Cons f fs)
  let ?S0 = "S\<lparr>queues := (queues S)(l := fs)\<rparr>"
  from Cons r obtain S1 where S1: "run_posted ctl l f ?S0 = Inr S1"
    and S': "S' = (case posted_ref f of None \<Rightarrow> S1 | Some c \<Rightarrow> release c S1)"
    by (auto simp: sys_run_def bind_r_Inr_iff)
  have rel: "closed_or_gone (release c T) i" if "closed_or_gone T i" for c T
    using that by (auto simp: closed_or_gone_def release_def)
  have "closed_or_gone S1 i"
  proof (cases f)
    case (PostEstablished c)
    obtain k where o: "objects S (conn_id c) = Some (c, k)" "l = conn_loop c"
      by (rule queued_object [OF f0 ok, of f l c]) (use Cons PostEstablished in auto)
    obtain ch where "\<And>q r. functors_of S c = (q, r) \<Longrightarrow> phase_ok (cstate k) c ch q r (c \<in> set (removed S))"
      by (rule object_facts [OF f0 ok o(1)]) blast
    from this [OF functors_of_def] have "cstate k \<noteq> kDisconnected" using Cons o(2) PostEstablished by (cases "cstate k") simp_all
    then have "i \<noteq> conn_id c" using cl o(1) by (auto simp: closed_or_gone_def)
    then show ?thesis using S1 PostEstablished cl o(1) by (auto simp: closed_or_gone_def on_object_def bind_r_Inr_iff)
  next
    case (PostDestroyed c)
    then obtain c' k k' where "objects S (conn_id c) = Some (c', k)" "connectDestroyed ctl (k\<lparr>cpoller := pollers S l\<rparr>) = Inr k'"
      "objects S1 = (objects S)(conn_id c \<mapsto> (c', k'))"
      using S1 by (auto simp: on_object_def bind_r_Inr_iff split: option.splits)
    then show ?thesis using cl by (auto simp: closed_or_gone_def dest: connectDestroyed_state)
  qed (use S1 cl in \<open>auto simp: closed_or_gone_def enqueue_def removeConnectionInLoop_def post_to_def split: if_splits\<close>)
  then show ?thesis using rel S' by (auto split: option.splits)
qed

lemma runs_loop_same: "same_server S S' \<Longrightarrow> runs_loop S' l = runs_loop S l"
  by (simp add: same_server_def runs_loop_def)

lemma queues_drain:
  assumes f0: "fresh_server s0" and sp: "epoll_spec ctl interest"
  shows "sys_ok interest s0 S \<Longrightarrow> \<exists>ls S'. sys_runs ctl ls S = Inr S' \<and> (\<forall>l\<in>set ls. runs_loop S l) \<and> (\<forall>l. runs_loop S l \<longrightarrow> queues S' l = []) \<and>
    sys_ok interest s0 S' \<and> same_server S S' \<and> (\<forall>i. closed_or_gone S i \<longrightarrow> closed_or_gone S' i)"
proof (induction "queue_weight S" arbitrary: S rule: less_induct)
  case less
  show ?case
  proof (cases "\<forall>l. runs_loop S l \<longrightarrow> queues S l = []")
    case True
    then show ?thesis using less.prems by (intro exI [of _ "[]"] exI [of _ S]) (simp add: same_server_def)
  next
    case False
    then obtain l f fs where q: "queues S l = f # fs" and l: "runs_loop S l" by (meson neq_Nil_conv)
    from sys_run_ok [OF f0 sp less.prems l] obtain S1 where S1: "sys_run ctl l S = Inr S1" "sys_ok interest s0 S1" by blast
    note same = sys_run_same [OF S1(1)]
    from less.hyps [OF sys_run_weight [OF f0 less.prems q S1(1)] S1(2)] obtain ls S' where
      S': "sys_runs ctl ls S1 = Inr S'" "\<forall>l\<in>set ls. runs_loop S1 l" "\<forall>l. runs_loop S1 l \<longrightarrow> queues S' l = []" "sys_ok interest s0 S'" "same_server S1 S'"
        "\<forall>i. closed_or_gone S1 i \<longrightarrow> closed_or_gone S' i" by blast
    have "sys_runs ctl (l # ls) S = Inr S'" using S1(1) S'(1) by simp
    then show ?thesis
      using S'(2-6) l same_server_trans [OF same S'(5)] sys_run_closed [OF f0 less.prems S1(1)] runs_loop_same [OF same]
      by (intro exI [of _ "l # ls"] exI [of _ S']) auto
  qed
qed

lemma table_object:
  assumes f0: "fresh_server s0" and ok: "sys_ok interest s0 S" and n: "connections (server S) n = Some c"
  shows "\<exists>k. objects S (conn_id c) = Some (c, k)"
proof -
  have c: "c \<in> set (accepted S)" "c \<notin> set (removed S)" using n sys_okD(1) [OF ok] by (auto simp: server_ok_def)
  from sys_okD(5) [OF ok this] obtain c' k where o: "objects S (conn_id c) = Some (c', k)" by auto
  obtain ch where "conn_id c' = conn_id c" "c' \<in> set (accepted S)" by (rule object_facts [OF f0 ok o]) blast
  then have "c' = c" using accepted_inj [OF f0 sys_okD(1) [OF ok] _ c(1)] by blast
  with o show ?thesis by blast
qed

lemma quiescent_objects:
  assumes f0: "fresh_server s0" and ok: "sys_ok interest s0 S" and q: "\<forall>l. queues S l = []"
  shows "objects S i = Some (c, k) \<Longrightarrow> cstate k \<in> {kConnected, kDisconnecting} \<and> connections (server S) (conn_name c) = Some c \<and>
    (\<exists>m. interest (kernel (pollers S (conn_loop c))) (conn_fd c) = Some (m, chan_of i))"
proof -
  assume o: "objects S i = Some (c, k)"
  obtain ch where F: "c \<in> set (accepted S)" "chans (pollers S (conn_loop c)) (chan_of i) = Some ch" "cfd ch = conn_fd c"
    "\<And>q r. functors_of S c = (q, r) \<Longrightarrow> phase_ok (cstate k) c ch q r (c \<in> set (removed S))"
    by (rule object_facts [OF f0 ok o]) blast
  have "functors_of S c = ([], 0)" using q by (simp add: functors_of_def)
  from F(4) [OF this] have "cstate k \<in> {kConnected, kDisconnecting}" "index ch = kAdded" "c \<notin> set (removed S)"
    by (cases "cstate k"; simp split: if_splits)+
  then show "cstate k \<in> {kConnected, kDisconnecting} \<and> connections (server S) (conn_name c) = Some c \<and>
    (\<exists>m. interest (kernel (pollers S (conn_loop c))) (conn_fd c) = Some (m, chan_of i))"
    using in_table [OF ok F(1)] poller_okD(2) [OF sys_okD(2) [OF ok], of "conn_loop c" "conn_fd c" "chan_of i"] F(2,3) by blast
qed

text \<open>What is left once the server is down and the loops of the threads have run their functors.\<close>

lemma down_objects:
  assumes f0: "fresh_server s0" and ok: "sys_ok interest s0 S" and dn: "set (accepted S) \<subseteq> set (removed S)"
    and q: "queues S (conn_loop c) = []" and o: "objects S i = Some (c, k)"
  shows "cstate k = kDisconnected \<and> PostRemove c \<in> set (queues S (base_loop S)) \<and>
    (\<forall>fd m. interest (kernel (pollers S (conn_loop c))) fd \<noteq> Some (m, chan_of i))"
proof -
  obtain ch where F: "c \<in> set (accepted S)" "chans (pollers S (conn_loop c)) (chan_of i) = Some ch"
    "\<And>q r. functors_of S c = (q, r) \<Longrightarrow> phase_ok (cstate k) c ch q r (c \<in> set (removed S))"
    by (rule object_facts [OF f0 ok o]) blast
  have "functors_of S c = ([], count_list (queues S (base_loop S)) (PostRemove c))" using q by (simp add: functors_of_def)
  from F(3) [OF this] F(1) dn have st: "cstate k = kDisconnected" "index ch = kNew" "0 < count_list (queues S (base_loop S)) (PostRemove c)"
    by (cases "cstate k"; auto)+
  moreover have "interest (kernel (pollers S (conn_loop c))) fd \<noteq> Some (m, chan_of i)" for fd m
    using poller_okD(2) [OF sys_okD(2) [OF ok], of "conn_loop c" fd "chan_of i"] F(2) st(2) by auto
  ultimately show ?thesis by (simp add: count_list_pos)
qed

end
