(* ===== verification/ServerSafety.thy ===== *)
theory ServerSafety
  imports Lifecycle
begin

text \<open>
  What the invariant of theory \<open>Lifecycle\<close> gives: no event of the server with its loops and connections uses an object
  after its destruction, and closed connections are destroyed. The end of the server is in theory \<open>Destruction\<close>.

  The first part shows that the handlers of a connection never meet a null pointer as long as the channel of the
  connection exists (\<open>chan_exists\<close>), whatever the kernel replies.
\<close>

section \<open>The handlers with an existing channel\<close>

definition chan_exists :: "'k TcpConnection \<Rightarrow> bool" where
  "chan_exists c \<longleftrightarrow> chans (cpoller c) (cchan c) \<noteq> None"

lemma chan_exists_simps [simp]:
  "chan_exists (effect e c) = chan_exists c" "chan_exists (setState s c) = chan_exists c"
  "chan_exists (c\<lparr>inputBuffer := b\<rparr>) = chan_exists c" "chan_exists (c\<lparr>outputBuffer := b\<rparr>) = chan_exists c"
  "chan_exists (c\<lparr>outputBuffer := b, sent := d\<rparr>) = chan_exists c" "chan_exists (c\<lparr>sent := d\<rparr>) = chan_exists c"
  by (simp_all add: chan_exists_def)

lemma chan_do_keeps: "chan_do ctl oper cid p = Inr p' \<Longrightarrow> chans p' cid \<noteq> None"
  by (cases oper) (auto simp: chan_do_def updateChannel_def removeChannel_def EPollPoller_update_def Let_def split: option.splits if_splits prod.splits)

lemma conn_do_exists:
  "chan_exists c \<Longrightarrow> conn_do ctl oper c \<noteq> Inl e" "conn_do ctl oper c = Inr c' \<Longrightarrow> chan_exists c'"
  "chan_exists c \<Longrightarrow> conn_channel c \<noteq> Inl e"
proof -
  show "conn_do ctl oper c \<noteq> Inl e" if "chan_exists c"
    using that by (auto simp: chan_exists_def conn_do_def bind_r_Inl_iff chan_do_def Let_def split: option.splits)
  show "chan_exists c'" if "conn_do ctl oper c = Inr c'"
    using that chan_do_keeps [of ctl oper "cchan c" "cpoller c"] by (auto simp: chan_exists_def conn_do_def bind_r_Inr_iff)
  show "conn_channel c \<noteq> Inl e" if "chan_exists c" using that by (auto simp: chan_exists_def conn_channel_def)
qed

lemma handleClose_exists: "chan_exists c \<Longrightarrow> handleClose ctl c \<noteq> Inl e"
  using conn_do_exists(1) [of "setState kDisconnected c" ctl DisableAll] by (auto simp: handleClose_def bind_r_Inl_iff)

lemma handleError_exists: "chan_exists c \<Longrightarrow> handleError ctl c \<noteq> Inl e"
  by (simp add: handleError_def handleClose_exists)

lemma shutdownInLoop_exists: "chan_exists c \<Longrightarrow> shutdownInLoop c \<noteq> Inl e"
  using conn_do_exists(3) [of c] by (auto simp: shutdownInLoop_def bind_r_Inl_iff split: if_splits)

lemma shutdown_exists: "chan_exists c \<Longrightarrow> TcpConnection_shutdown c \<noteq> Inl e"
  using shutdownInLoop_exists [of "setState kDisconnecting c"] by (auto simp: TcpConnection_shutdown_def)

lemma conn_acts_exists: "conn_acts ctl c c' \<Longrightarrow> chan_exists c \<Longrightarrow> chan_exists c'"
proof (induction rule: rtranclp_induct)
  case (step b c')
  from step.hyps(2) step.IH [OF step.prems] show ?case
    by cases (auto simp: handleClose_def bind_r_Inr_iff dest: conn_do_exists(2))
qed

lemma output_drained_exists: "chan_exists c \<Longrightarrow> output_drained ctl c \<noteq> Inl e"
  using conn_do_exists(1) [of c ctl DisableWriting] conn_do_exists(2) [of ctl DisableWriting c] shutdownInLoop_exists
  by (auto simp: output_drained_def bind_r_Inl_iff Let_def split: if_splits)

lemma write_loop_no_null: "chan_exists c \<Longrightarrow> write_loop ctl rs c \<noteq> Some (Inl NullDeref)"
proof (induction ctl rs c rule: write_loop.induct)
  case (2 ctl r rs c)
  show ?case
  proof (cases "writeFd (outputBuffer c) r")
    case (Inr t)
    obtain d n s where t: "t = (d, n, s)" by (cases t)
    let ?c1 = "c\<lparr>outputBuffer := retrieve (outputBuffer c) (nat n), sent := sent c @ take (nat n) d\<rparr>"
    have c1: "chan_exists ?c1" using "2.prems" by simp
    have w: "writeFd (outputBuffer c) r = Inr (d, n, s)" using Inr t by simp
    note IH = "2.IH" [OF w refl refl]
    show ?thesis
    proof (cases "output_drained ctl ?c1")
      case (Inl x)
      then show ?thesis using w output_drained_exists [OF c1] by blast
    next
      case (Inr c2)
      then have "chan_exists c2" using c1 conn_acts_exists output_drained_acts by blast
      then show ?thesis using w Inr IH c1 by (auto simp: Let_def)
    qed
  qed (use buffer_no_null(2) in auto)
qed simp

lemma handleWrite_no_null: "chan_exists c \<Longrightarrow> handleWrite ctl rs c \<noteq> Some (Inl NullDeref)"
  using write_loop_no_null [of c] conn_do_exists(3) [of c] by (auto simp: handleWrite_def split: sum.splits if_splits)

lemma send_no_null:
  assumes "chan_exists c"
  shows "send ctl reply data c \<noteq> Inl NullDeref"
proof (cases "cstate c = kConnected")
  case True
  then have c: "connected c" by (simp add: connected_def)
  obtain ch where ch: "conn_channel c = Inr ch" using assms conn_do_exists(3) by (metis old.sum.exhaust)
  obtain c1 nw rem fault where d: "direct_write reply data ch c = (c1, nw, rem, fault)" by (metis prod_cases4)
  have e: "chan_exists c1" using direct_write_acts [OF d] assms conn_acts_exists by blast
  have "buffer_rest ctl xs ch c1 \<noteq> Inl NullDeref" for xs
    using e conn_do_exists(1) [of _ ctl EnableWriting]
    by (simp add: buffer_rest_def Let_def bind_r_Inl_iff Buffer_append_no_null)
  then show ?thesis using True ch d by (simp add: send_def sendInLoop_def Let_def)
qed (simp add: send_def)

lemma onMessage_no_null: "chan_exists c \<Longrightarrow> onMessage ctl kwrite c \<noteq> Inl NullDeref"
  by (auto simp: onMessage_def bind_r_Inl_iff buffer_no_null Let_def send_no_null)

lemma handleRead_no_null:
  assumes "callback_acts ctl mcb" "\<And>c. chan_exists c \<Longrightarrow> mcb c \<noteq> Inl NullDeref"
  shows "chan_exists c \<Longrightarrow> handleRead ctl mcb rs c \<noteq> Some (Inl NullDeref)"
proof (induction rs arbitrary: c)
  case (Cons r rs)
  show ?case
  proof (cases "readFd (inputBuffer c) r")
    case (Inr t)
    obtain b n s where t: "t = (b, n, s)" by (cases t)
    let ?c1 = "c\<lparr>inputBuffer := b\<rparr>"
    have c1: "chan_exists ?c1" using Cons.prems by simp
    have "handleRead ctl mcb rs c2 \<noteq> Some (Inl NullDeref)" if "mcb ?c1 = Inr c2" for c2
      by (rule Cons.IH, rule conn_acts_exists [of ctl, OF _ c1]) (use assms(1) that in \<open>simp add: callback_acts_def\<close>)
    then show ?thesis using Inr t assms(2) [OF c1] handleClose_exists [OF c1] handleError_exists [of "effect LogError ?c1"] c1
      by (auto simp: Let_def split: sum.splits)
  qed (use buffer_no_null(1) in auto)
qed simp


lemma conn_handleEvent_no_null:
  assumes mcb: "callback_acts ctl mcb" "\<And>c. chan_exists c \<Longrightarrow> mcb c \<noteq> Inl NullDeref" and c: "chan_exists c"
  shows "conn_handleEvent ctl mcb rr wr c \<noteq> Some (Inl NullDeref)"
proof -
  have "run_callbacks ctl mcb rr wr cbs c \<noteq> Some (Inl NullDeref)" for cbs
    using c
  proof (induction cbs arbitrary: c)
    case (Cons cb cbs)
    have one: "run_callbacks ctl mcb rr wr [cb] c \<noteq> Some (Inl NullDeref)"
      using handleRead_no_null [OF mcb Cons.prems] handleWrite_no_null [OF Cons.prems] handleClose_exists [OF Cons.prems]
        handleError_exists [OF Cons.prems] by (cases cb) (auto split: option.splits sum.splits)
    have "run_callbacks ctl mcb rr wr cbs c1 \<noteq> Some (Inl NullDeref)" if "run_callbacks ctl mcb rr wr [cb] c = Some (Inr c1)" for c1
      by (rule Cons.IH [OF conn_acts_exists [OF run_callbacks_acts [OF mcb(1) that] Cons.prems]])
    with one show ?case by (auto split: option.splits sum.splits)
  qed simp
  then show ?thesis using conn_do_exists(3) [OF c] by (auto simp: conn_handleEvent_def split: sum.splits)
qed

lemma close_calls_total: "runs_loop S (conn_loop c) \<Longrightarrow> \<exists>S'. close_calls ctl c n S = Inr S' \<and> objects S' = objects S"
proof (induction n arbitrary: S)
  case (Suc n)
  let ?s = "removeConnection c (server S)"
  let ?S = "S\<lparr>server := ?s\<rparr>"
  have l: "List.last (post ?s) = (base_loop S, PostRemove c)" by (simp add: removeConnection_def post_to_def base_loop_def)
  obtain T where T: "run_in_loop ctl (conn_loop c) (base_loop S, PostRemove c) ?S = Inr T" "objects T = objects S"
  proof (cases "base_loop S = conn_loop c")
    case True
    then have "\<not> down S" using Suc.prems by (simp add: runs_loop_def)
    then show thesis using that True by (simp add: run_in_loop_def enqueue_def removeConnectionInLoop_def post_to_def)
  next
    case False
    then show thesis using that by (simp add: run_in_loop_def enqueue_def)
  qed
  have "same_server S ?S" by (simp add: same_server_def base_loop_def removeConnection_def post_to_def)
  with run_in_loop_same [OF T(1)] have "runs_loop T (conn_loop c)" using Suc.prems runs_loop_same by blast
  from Suc.IH [OF this] T l show ?case by (auto simp: Let_def)
qed simp

lemma close_calls_no_error: "runs_loop S (conn_loop c) \<Longrightarrow> close_calls ctl c n S \<noteq> Inl e"
  using close_calls_total [of S c ctl n] by auto

lemma sys_step_no_null:
  assumes f0: "fresh_server s0" and sp: "epoll_spec ctl interest" and mcb: "callback_acts ctl mcb"
    "\<And>c. chan_exists c \<Longrightarrow> mcb c \<noteq> Inl NullDeref" and ok: "sys_ok interest s0 S" and ev: "ev_ok interest ev S"
  shows "sys_step ctl mcb ev S \<noteq> Some (Inl NullDeref)"
proof -
  have on: "on_object (conn_loop c) i f S \<noteq> Inl NullDeref"
    if o: "objects S i = Some (c, k)" and f: "\<And>k. chan_exists k \<Longrightarrow> f k \<noteq> Inl NullDeref" for c i k f
  proof -
    obtain ch where "cchan k = chan_of i" "chans (pollers S (conn_loop c)) (chan_of i) = Some ch"
      by (rule object_facts [OF f0 ok o]) blast
    then have "chan_exists (k\<lparr>cpoller := pollers S (conn_loop c)\<rparr>)" by (simp add: chan_exists_def)
    from f [OF this] show ?thesis using o by (simp add: on_object_def bind_r_Inl_iff)
  qed
  show ?thesis
  proof (cases ev)
    case (EvAccept fd peer)
    show ?thesis
    proof (cases "int (length (accepted S)) < 2 ^ 31 - 2")
      case True
      with sys_accept_ok [OF f0 sp ok _ True, of fd peer] EvAccept ev show ?thesis by auto
    next
      case False
      have "nextConnId (server S) = 1 + int (length (accepted S))" using sys_okD(1) [OF ok] by (simp add: server_ok_def)
      then have "nextConnId (server S) = 2 ^ 31 - 1" using False sys_okD(8) [OF ok] by simp
      then have "newConnection fd peer (server S) \<noteq> Inl NullDeref" "newConnection fd peer (server S) \<noteq> Inr s'" for s'
        by (auto simp: newConnection_def bind_r_Inl_iff bind_r_Inr_iff getNextLoop_def Let_def split: if_splits)
      then show ?thesis using EvAccept by (simp add: sys_accept_def bind_r_Inl_iff)
    qed
  next
    case (EvRun l)
    then show ?thesis using sys_run_ok [OF f0 sp ok, of l] ev by auto
  next
    case (EvChannel l cid r rr wr)
    with ev obtain fd m where e: "2 \<le> cid" "interest (kernel (pollers S l)) fd = Some (m, cid)" and up: "runs_loop S l" by auto
    obtain c k ch where o: "objects S (cid - 2) = Some (c, k)" "conn_loop c = l"
      and p: "fillActiveChannels [(r, cid)] (pollers S l) = Inr ([cid], (pollers S l)\<lparr>chans := (chans (pollers S l))(cid \<mapsto> set_revents r ch)\<rparr>)"
      and ch: "cchan k = cid"
      by (rule reported_object [OF f0 ok e])
    let ?k = "k\<lparr>cpoller := (pollers S l)\<lparr>chans := (chans (pollers S l))(cid \<mapsto> set_revents r ch)\<rparr>\<rparr>"
    have "chan_exists ?k" using ch by (simp add: chan_exists_def)
    have "close_calls ctl c n (S\<lparr>objects := ob, pollers := ps\<rparr>) \<noteq> Inl NullDeref" for n ob ps
      by (rule close_calls_no_error) (use up o(2) in \<open>simp add: runs_loop_def base_loop_def\<close>)
    with conn_handleEvent_no_null [OF mcb \<open>chan_exists ?k\<close>, of rr wr] o p EvChannel show ?thesis
      by (auto simp: sys_event_def bind_r_Inl_iff)
  next
    case (EvSend i reply d)
    then show ?thesis using ev on [OF _ send_no_null] by auto
  next
    case (EvShutdown i)
    then show ?thesis using ev on [OF _ shutdown_exists] by auto
  next
    case (EvDestroy names)
    then show ?thesis using ev sys_destroy_ok [OF f0 sp ok, of names] by auto
  qed
qed

section \<open>Reachable states\<close>

lemma watched_object:
  assumes f0: "fresh_server s0" and ok: "sys_ok interest s0 S" and cid: "2 \<le> cid"
    and ch: "chans (pollers S l) cid = Some ch" "index ch \<noteq> kNew"
  shows "\<exists>c k. objects S (cid - 2) = Some (c, k) \<and> conn_loop c = l \<and> conn_fd c = cfd ch \<and> cstate k \<noteq> kConnecting"
proof -
  from sys_okD(7) [OF ok ch(1) cid] obtain c k where o: "objects S (cid - 2) = Some (c, k)" "conn_loop c = l" "conn_fd c = cfd ch" by blast
  obtain ch2 where F: "chans (pollers S (conn_loop c)) (chan_of (cid - 2)) = Some ch2"
    "\<And>q r. functors_of S c = (q, r) \<Longrightarrow> phase_ok (cstate k) c ch2 q r (c \<in> set (removed S))"
    by (rule object_facts [OF f0 ok o(1)]) blast
  have "chan_of (cid - 2) = cid" using cid by (simp add: chan_of_def)
  then have "ch2 = ch" using F(1) ch(1) o(2) by simp
  then have "cstate k \<noteq> kConnecting" using F(2) [OF functors_of_def] ch(2) by auto
  with o show ?thesis by blast
qed

lemma reachable_facts:
  assumes "reachable (sys_start ctl interest) (sys_trans ctl interest (onMessage ctl kwrite)) S"
  obtains s0 where "epoll_spec ctl interest" "fresh_server s0" "sys_ok interest s0 S" "down S \<longrightarrow> set (accepted S) \<subseteq> set (removed S)"
  using lifecycle.reachable_inv [OF assms] by (auto simp: sys_inv_def)

text \<open>A server that is up can be destroyed; nothing queued is lost.\<close>

lemma destroy_conns_queues:
  "destroy_conns ctl ns S = Inr S' \<Longrightarrow> set (queues S l) \<subseteq> set (queues S' l) \<and> base_loop S' = base_loop S"
proof (induction ns arbitrary: S)
  case (Cons n ns)
  show ?case
  proof (cases "connections (server S) n")
    case None
    then show ?thesis using Cons by simp
  next
    case (Some c)
    let ?s = "destroy_all [n] (server S)"
    let ?T = "S\<lparr>server := ?s, removed := removed S @ [c]\<rparr>"
    have s: "?s = post_to (conn_loop c) (PostDestroyed c) ((server S)\<lparr>connections := (connections (server S))(n := None)\<rparr>)" by (simp add: Some)
    from Cons.prems obtain T where T: "run_in_loop ctl (base_loop S) (conn_loop c, PostDestroyed c) ?T = Inr T"
      "destroy_conns ctl ns (release c T) = Inr S'"
      by (auto simp: Some bind_r_Inr_iff post_to_def)
    have b: "base_loop ?T = base_loop S" by (simp add: s base_loop_def post_to_def del: destroy_all.simps)
    have "set (queues S l) \<subseteq> set (queues T l)"
      using T(1) by (cases "conn_loop c = base_loop S") (auto simp: run_in_loop_def enqueue_def dest!: on_object_frame)
    moreover have "base_loop T = base_loop S" using run_in_loop_same [OF T(1)] b by (simp add: same_server_def)
    ultimately show ?thesis using Cons.IH [OF T(2)] by (auto simp: release_frame base_loop_def)
  qed
qed simp

lemma can_be_destroyed:
  assumes r: "reachable (sys_start ctl interest) (sys_trans ctl interest (onMessage ctl kwrite)) S" and up: "\<not> down S"
  obtains names S' where "ev_ok interest (EvDestroy names) S" "sys_destroy ctl names S = Inr S'" "down S'" "base_loop S' = base_loop S"
    "\<And>l. set (queues S l) \<subseteq> set (queues S' l)"
proof -
  obtain s0 where i: "epoll_spec ctl interest" "fresh_server s0" "sys_ok interest s0 S" by (rule reachable_facts [OF r])
  have "dom (connections (server S)) \<subseteq> conn_name ` set (accepted S)" using sys_okD(1) [OF i(3)] by (auto simp: server_ok_def)
  then obtain names where n: "distinct names" "set names = dom (connections (server S))"
    using finite_distinct_list [OF finite_subset] by (metis List.finite_set finite_imageI)
  from sys_destroy_ok [OF i(2,1,3) n(2)] obtain S' where S': "sys_destroy ctl names S = Inr S'" "down S'" by blast
  have "set (queues S l) \<subseteq> set (queues S' l) \<and> base_loop S' = base_loop S" for l
    using destroy_conns_queues [OF S'(1) [unfolded sys_destroy_def], of l] by (simp add: base_loop_def)
  then show thesis using that [OF _ S'] n up by simp
qed

section \<open>A server with one connection\<close>

text \<open>
  A server with two loop threads accepts descriptor 7 (\<open>ex_sys1\<close>), loop 1 establishes the connection (\<open>ex_sys2\<close>), and the
  kernel reports a hang-up.
\<close>

type_synonym list_kernel = "int \<Rightarrow> (mask \<times> chan_id) option"

definition ex_system :: "list_kernel system" where
  "ex_system = \<lparr>server = ex_server, pollers = (\<lambda>l. EPollPoller_new Map.empty), queues = (\<lambda>l. []), objects = Map.empty,
     accepted = [], removed = [], down = False\<rparr>"

definition ex_ref :: conn_ref where
  "ex_ref = \<lparr>conn_id = 0, conn_name = connName ex_server 1, conn_loop = 1, conn_fd = 7\<rparr>"

definition ex_server1 :: TcpServer where
  "ex_server1 = post_to 1 (PostEstablished ex_ref)
     (ex_server\<lparr>threadPool := (threadPool ex_server)\<lparr>nextLoop := 1\<rparr>, nextConnId := 2, created := 1,
       connections := [conn_name ex_ref \<mapsto> ex_ref]\<rparr>)"

lemma ex_server_facts: "fresh_server ex_server" "loops (threadPool ex_server) = [1, 2]" "baseLoop (threadPool ex_server) = 0"
  "nextLoop (threadPool ex_server) = 0"
proof -
  show "fresh_server ex_server" by (rule started_server_ok(1) [OF ex_server])
  then show "nextLoop (threadPool ex_server) = 0" by (simp add: fresh_server_def)
  show "loops (threadPool ex_server) = [1, 2]" "baseLoop (threadPool ex_server) = 0"
    by (simp_all add: ex_server_def started_server_def TcpServer_new_def toIpPort_eq TcpServer_start_def TcpServer_setThreadNum_def
        post_to_def setThreadNum_def EventLoopThreadPool_new_def EventLoopThreadPool_start_def numeral_2_eq_2 Let_def)
qed

lemma ex_start: "sys_start list_ctl (\<lambda>k. k) ex_system"
  using list_ctl_spec ex_server_facts(1)
  by (simp add: sys_start_def ex_system_def EPollPoller_new_def poller_ok_def)

lemma ex_newConnection: "newConnection 7 ex_addr ex_server = Inr ex_server1"
  using ex_server_facts
  by (simp add: newConnection_def getNextLoop_def Let_def post_to_def ex_ref_def ex_server1_def fresh_server_def)

lemma ex_buffer: "\<exists>b. Buffer_new InitialSize = Inr b"
  by (rule Buffer_new_ok [of InitialSize]) (auto simp: InitialSize_def CheapPrepend_def ptrdiff_max_def)

definition ex_obj :: "list_kernel TcpConnection" where
  "ex_obj = projr (TcpConnection_new (EPollPoller_new Map.empty) 2 7)"

definition ex_sys1 :: "list_kernel system" where
  "ex_sys1 = \<lparr>server = ex_server1, pollers = (\<lambda>l. EPollPoller_new Map.empty)(1 := cpoller ex_obj),
     queues = (\<lambda>l. [])(1 := [PostEstablished ex_ref]), objects = [0 \<mapsto> (ex_ref, ex_obj)],
     accepted = [ex_ref], removed = [], down = False\<rparr>"

lemma ex_obj: "TcpConnection_new (EPollPoller_new Map.empty) 2 7 = Inr ex_obj"
  using ex_buffer by (auto simp: ex_obj_def TcpConnection_new_def)

lemma chan_of_0: "chan_of 0 = 2"
  by (simp add: chan_of_def)

lemma ex_accept: "sys_accept list_ctl 7 ex_addr ex_system = Inr ex_sys1"
proof -
  have "last (post ex_server1) = (1, PostEstablished ex_ref)" by (simp add: ex_server1_def post_to_def)
  moreover have "conn_id ex_ref = 0" by (simp add: ex_ref_def)
  moreover have "server ex_system = ex_server" "base_loop ex_system = 0" by (simp_all add: ex_system_def base_loop_def ex_server_facts)
  ultimately show ?thesis
    by (simp add: sys_accept_def ex_newConnection chan_of_0)
      (simp add: ex_obj ex_system_def run_in_loop_def enqueue_def ex_sys1_def)
qed


lemma ex_conn_fields: "cchan ex_obj = 2" "cstate ex_obj = kConnecting" "effects ex_obj = []"
  "cpoller ex_obj = \<lparr>chans = [2 \<mapsto> Channel_setCallback ErrorCallback (Channel_setCallback CloseCallback
              (Channel_setCallback WriteCallback (Channel_setCallback ReadCallback (Channel_new 7))))],
    channels = Map.empty, kernel = Map.empty, list_size = 16, ctl_errors = []\<rparr>"
  using ex_buffer by (auto simp: ex_obj_def TcpConnection_new_def EPollPoller_new_def kInitEventListSize_def)

lemma ex_ref_fields: "conn_id ex_ref = 0" "conn_loop ex_ref = 1" "conn_fd ex_ref = 7"
  by (simp_all add: ex_ref_def)


lemma ex_established: "\<exists>k ch. connectEstablished list_ctl ex_obj = Inr k \<and> cchan k = 2 \<and> cstate k = kConnected \<and>
    chans (cpoller k) 2 = Some ch \<and> set (callbacks ch) = {ReadCallback, WriteCallback, CloseCallback, ErrorCallback} \<and> 
    kernel (cpoller k) 7 = Some (events ch, 2)"
  by (simp add: connectEstablished_def conn_channel_def ex_conn_fields Channel_setCallback_def Channel_new_def Channel_tie_def
    conn_do_def chan_do_def updateChannel_def EPollPoller_update_def list_ctl_def Let_def kNew_def enableET_def) blast

definition ex_sys2 :: "list_kernel TcpConnection \<Rightarrow> list_kernel system" where
  "ex_sys2 k = ex_sys1\<lparr>queues := (\<lambda>l. []), objects := [0 \<mapsto> (ex_ref, k)], pollers := (\<lambda>l. EPollPoller_new Map.empty)(1 := cpoller k)\<rparr>"

lemma ex_run_established:
  assumes "connectEstablished list_ctl ex_obj = Inr k"
  shows "sys_run list_ctl 1 ex_sys1 = Inr (ex_sys2 k)"
proof -
  have e: "ex_obj\<lparr>cpoller := cpoller ex_obj\<rparr> = ex_obj" by simp
  have "connections ex_server1 (conn_name ex_ref) = Some ex_ref" by (simp add: ex_server1_def post_to_def)
  then show ?thesis using assms e
    by (simp add: sys_run_def ex_sys1_def on_object_def ex_ref_fields release_def referenced_def ex_sys2_def fun_upd_idem)
qed

lemma ex_close:
  assumes k: "cchan k = 2" "chans (cpoller k) 2 = Some ch" "CloseCallback \<in> set (callbacks ch)"
  shows "\<exists>S k'. sys_event list_ctl mcb 1 2 EPOLLHUP [] [] (ex_sys2 k) = Some (Inr S) \<and> objects S 0 = Some (ex_ref, k') \<and>
    cstate k' = kDisconnected \<and> \<not> down S \<and> base_loop S = 0 \<and> queues S 0 = [PostRemove ex_ref]"
proof -
  let ?k = "k\<lparr>cpoller := (cpoller k)\<lparr>chans := (chans (cpoller k))(2 \<mapsto> set_revents EPOLLHUP ch)\<rparr>\<rparr>"
  have "chan_exists ?k" using k(1) by (simp add: chan_exists_def)
  then obtain k' where k': "handleClose list_ctl ?k = Inr k'" using handleClose_exists by (metis old.sum.exhaust)
  have cb: "handleEvent True (set_revents EPOLLHUP ch) = [CloseCallback]"
    using k(3) by (simp add: handleEvent_def handleEventWithGuard_def set_revents_def epoll_defs)
  have st: "cstate k' = kDisconnected" "effects k' = effects k @ [ConnectionCallback kDisconnected, CloseCallbackCall]"
    using k' by (auto simp: handleClose_def bind_r_Inr_iff conn_do_def)
  have ev: "conn_handleEvent list_ctl mcb [] [] ?k = Some (Inr k')"
    using k(1) k' cb by (simp add: conn_handleEvent_def conn_channel_def)
  let ?S = "(ex_sys2 k)\<lparr>objects := [0 \<mapsto> (ex_ref, k')], pollers := (pollers (ex_sys2 k))(1 := cpoller k')\<rparr>"
  let ?S' = "enqueue 0 (PostRemove ex_ref) (?S\<lparr>server := removeConnection ex_ref (server ?S)\<rparr>)"
  have b: "baseLoop (threadPool ex_server1) = 0" by (simp add: ex_server1_def post_to_def ex_server_facts)
  then have "close_calls list_ctl ex_ref 1 ?S = Inr ?S'"
    by (simp add: run_in_loop_def removeConnection_def post_to_def ex_sys2_def ex_sys1_def ex_ref_fields)
  then have "sys_event list_ctl mcb 1 2 EPOLLHUP [] [] (ex_sys2 k) = Some (Inr ?S')"
    using ev k(2) st(2) by (simp add: sys_event_def ex_sys2_def)
  moreover have "base_loop ?S' = 0" "queues ?S' 0 = [PostRemove ex_ref]" "\<not> down ?S'" "objects ?S' 0 = Some (ex_ref, k')"
    using b by (simp_all add: enqueue_def base_loop_def removeConnection_def post_to_def ex_sys2_def ex_sys1_def)
  ultimately show ?thesis using st(1) by blast
qed

abbreviation ex_trans :: "list_kernel system \<Rightarrow> list_kernel system \<Rightarrow> bool" where
  "ex_trans \<equiv> sys_trans list_ctl (\<lambda>k. k) (onMessage list_ctl (\<lambda>_. SysErr EAGAIN))"

lemma ex_reachable:
  "reachable (sys_start list_ctl (\<lambda>k. k)) ex_trans ex_sys1"
  "\<exists>k ch. reachable (sys_start list_ctl (\<lambda>k. k)) ex_trans (ex_sys2 k) \<and> kernel (pollers (ex_sys2 k) 1) 7 = Some (events ch, 2) \<and>
     cchan k = 2 \<and> chans (cpoller k) 2 = Some ch \<and> CloseCallback \<in> set (callbacks ch)"
  "\<exists>S k. reachable (sys_start list_ctl (\<lambda>k. k)) ex_trans S \<and> objects S 0 = Some (ex_ref, k) \<and> cstate k = kDisconnected \<and> \<not> down S \<and>
     base_loop S = 0 \<and> queues S 0 = [PostRemove ex_ref]"
proof -
  have "ex_trans ex_system ex_sys1"
    unfolding sys_trans_def by (rule exI [of _ "EvAccept 7 ex_addr"]) (simp add: ex_accept, simp add: ex_system_def EPollPoller_new_def)
  with ex_start show 1: "reachable (sys_start list_ctl (\<lambda>k. k)) ex_trans ex_sys1" by (blast intro: reachable.intros)
  obtain k ch where k: "connectEstablished list_ctl ex_obj = Inr k" "cchan k = 2" "chans (cpoller k) 2 = Some ch"
    "CloseCallback \<in> set (callbacks ch)" "kernel (cpoller k) 7 = Some (events ch, 2)"
    using ex_established by auto
  have "ex_trans ex_sys1 (ex_sys2 k)"
    unfolding sys_trans_def by (rule exI [of _ "EvRun 1"]) (use ex_run_established [OF k(1)] in simp, simp add: ex_sys1_def runs_loop_def)
  with 1 have 2: "reachable (sys_start list_ctl (\<lambda>k. k)) ex_trans (ex_sys2 k)" by (rule reachable_step)
  with k show "\<exists>k ch. reachable (sys_start list_ctl (\<lambda>k. k)) ex_trans (ex_sys2 k) \<and> kernel (pollers (ex_sys2 k) 1) 7 = Some (events ch, 2) \<and>
     cchan k = 2 \<and> chans (cpoller k) 2 = Some ch \<and> CloseCallback \<in> set (callbacks ch)"
    by (intro exI [of _ k] exI [of _ ch]) (simp add: ex_sys2_def)
  obtain S k' where S: "sys_event list_ctl (onMessage list_ctl (\<lambda>_. SysErr EAGAIN)) 1 2 EPOLLHUP [] [] (ex_sys2 k) = Some (Inr S)"
    "objects S 0 = Some (ex_ref, k')" "cstate k' = kDisconnected" "\<not> down S" "base_loop S = 0" "queues S 0 = [PostRemove ex_ref]"
    using ex_close [OF k(2-4)] by blast
  have "ex_trans (ex_sys2 k) S"
    unfolding sys_trans_def
  proof (intro exI conjI)
    show "sys_step list_ctl (onMessage list_ctl (\<lambda>_. SysErr EAGAIN)) (EvChannel 1 2 EPOLLHUP [] []) (ex_sys2 k) = Some (Inr S)"
      using S(1) by simp
    have "\<exists>fd m. kernel (pollers (ex_sys2 k) 1) fd = Some (m, 2)" using k(5) by (auto simp: ex_sys2_def)
    then show "ev_ok (\<lambda>k. k) (EvChannel 1 2 EPOLLHUP [] []) (ex_sys2 k)" by (simp add: runs_loop_def ex_sys2_def ex_sys1_def)
  qed
  with 2 S(2-6) show "\<exists>S k. reachable (sys_start list_ctl (\<lambda>k. k)) ex_trans S \<and> objects S 0 = Some (ex_ref, k) \<and> cstate k = kDisconnected \<and> \<not> down S \<and>
     base_loop S = 0 \<and> queues S 0 = [PostRemove ex_ref]"
    by (blast intro: reachable_step)
qed

section \<open>Properties\<close>

text \<open>C2: no dangling pointers. In every reachable state of the server with its loops and connections, in any interleaving,
  a channel that the kernel or the poller of a loop holds a bare pointer to belongs to a connection object that exists, of
  that loop and with that descriptor, and that has been established; and the object of every connection that a queued
  functor or the server's table holds exists.\<close>

theorem no_dangling_channel:
  assumes r: "reachable (sys_start ctl interest) (sys_trans ctl interest (onMessage ctl kwrite)) S"
  shows "(\<forall>l fd m cid. 2 \<le> cid \<longrightarrow> interest (kernel (pollers S l)) fd = Some (m, cid) \<or> channels (pollers S l) fd = Some cid \<longrightarrow>
      (\<exists>c k. objects S (cid - 2) = Some (c, k) \<and> conn_loop c = l \<and> conn_fd c = fd \<and> cstate k \<noteq> kConnecting)) \<and>
    (\<forall>l f c. f \<in> set (queues S l) \<longrightarrow> posted_ref f = Some c \<longrightarrow> (\<exists>k. objects S (conn_id c) = Some (c, k))) \<and>
    (\<forall>n c. connections (server S) n = Some c \<longrightarrow> (\<exists>k. objects S (conn_id c) = Some (c, k)))"
proof -
  obtain s0 where i: "epoll_spec ctl interest" "fresh_server s0" "sys_ok interest s0 S" by (rule reachable_facts [OF r])
  have "\<exists>c k. objects S (cid - 2) = Some (c, k) \<and> conn_loop c = l \<and> conn_fd c = fd \<and> cstate k \<noteq> kConnecting"
    if cid: "2 \<le> cid" and "interest (kernel (pollers S l)) fd = Some (m, cid) \<or> channels (pollers S l) fd = Some cid" for l fd m cid
  proof -
    from that(2) poller_okD(1,2) [OF sys_okD(2) [OF i(3)], of l fd cid] obtain ch where
      "chans (pollers S l) cid = Some ch" "cfd ch = fd" "index ch \<noteq> kNew" by auto
    with watched_object [OF i(2,3) cid] show ?thesis by blast
  qed
  moreover have "\<exists>k. objects S (conn_id c) = Some (c, k)" if "f \<in> set (queues S l)" "posted_ref f = Some c" for l f c
    using queued_object [OF i(2,3) that] by metis
  ultimately show ?thesis using table_object [OF i(2,3)] by blast
qed

theorem no_dangling_channel_witness:
  "\<exists>k m c k'. kernel (pollers (ex_sys2 k) 1) 7 = Some (m, 2) \<and> objects (ex_sys2 k) 0 = Some (c, k') \<and>
    conn_loop c = 1 \<and> conn_fd c = 7 \<and> cstate k' \<noteq> kConnecting"
proof -
  obtain k and ch :: Channel where k: "reachable (sys_start list_ctl (\<lambda>k. k)) ex_trans (ex_sys2 k)"
    "kernel (pollers (ex_sys2 k) 1) 7 = Some (events ch, 2)" using ex_reachable(2) by blast
  from no_dangling_channel [OF k(1), THEN conjunct1, rule_format, of 2 1 7 "events ch"] k(2) show ?thesis by auto
qed

text \<open>C3: in no reachable state does an event (an accepted connection, a queued functor, any report of the kernel for a
  watched channel with any replies to the reads and writes, a \<open>send\<close> or \<open>shutdown\<close> of the application, the destruction of the
  server while the other loops run) dereference a null or dangling pointer. A functor of a running loop always runs to its
  end, a connection with a new descriptor is always accepted while the connection number does not overflow, and the destructor
  of the server always runs to its end, whatever the order of its table.\<close>

theorem events_never_fault:
  assumes r: "reachable (sys_start ctl interest) (sys_trans ctl interest (onMessage ctl kwrite)) S"
  shows "(\<forall>ev. ev_ok interest ev S \<longrightarrow> sys_step ctl (onMessage ctl kwrite) ev S \<noteq> Some (Inl NullDeref)) \<and>
    (\<forall>l. runs_loop S l \<longrightarrow> (\<exists>S'. sys_run ctl l S = Inr S')) \<and>
    (\<forall>names. ev_ok interest (EvDestroy names) S \<longrightarrow> (\<exists>S'. sys_destroy ctl names S = Inr S')) \<and>
    (\<forall>fd peer. ev_ok interest (EvAccept fd peer) S \<longrightarrow> int (length (accepted S)) < 2 ^ 31 - 2 \<longrightarrow>
      (\<exists>S'. sys_accept ctl fd peer S = Inr S' \<and> length (accepted S') = Suc (length (accepted S))))"
proof -
  obtain s0 where i: "epoll_spec ctl interest" "fresh_server s0" "sys_ok interest s0 S" by (rule reachable_facts [OF r])
  have "\<exists>S'. sys_accept ctl fd peer S = Inr S' \<and> length (accepted S') = Suc (length (accepted S))"
    if "ev_ok interest (EvAccept fd peer) S" "int (length (accepted S)) < 2 ^ 31 - 2" for fd peer
    using sys_accept_ok [OF i(2,1,3) _ that(2), of fd peer] that(1) by auto
  moreover have "\<exists>S'. sys_destroy ctl names S = Inr S'" if "ev_ok interest (EvDestroy names) S" for names
    using sys_destroy_ok [OF i(2,1,3), of names] that by auto
  ultimately show ?thesis
    using sys_step_no_null [OF i(2,1) onMessage_acts onMessage_no_null i(3)] sys_run_ok [OF i(2,1,3)] by blast
qed

theorem events_never_fault_witness:
  "(\<exists>S. sys_run list_ctl 1 ex_sys1 = Inr S) \<and> (\<exists>S. sys_accept list_ctl 8 ex_addr ex_sys1 = Inr S \<and> length (accepted S) = 2) \<and>
   sys_step list_ctl (onMessage list_ctl (\<lambda>_. SysErr EAGAIN)) (EvShutdown 0) ex_sys1 \<noteq> Some (Inl NullDeref)"
proof -
  have "runs_loop ex_sys1 1" by (simp add: runs_loop_def ex_sys1_def)
  moreover have "ev_ok (\<lambda>k. k) (EvAccept 8 ex_addr) ex_sys1" "ev_ok (\<lambda>k. k) (EvShutdown 0) ex_sys1" "int (length (accepted ex_sys1)) < 2 ^ 31 - 2"
    "Suc (length (accepted ex_sys1)) = 2"
    by (auto simp: ex_sys1_def ex_conn_fields EPollPoller_new_def Channel_setCallback_def Channel_new_def runs_loop_def split: if_splits)
  ultimately show ?thesis using events_never_fault [OF ex_reachable(1)] by metis
qed

text \<open>C4: from every reachable state the loops can run their functors until every queue is empty, without a fault;
  then every connection that had been closed has been destroyed, and every connection that is left is open, in the
  server's table and watched by the kernel: nothing is leaked.\<close>

theorem closed_connections_destroyed:
  assumes r: "reachable (sys_start ctl interest) (sys_trans ctl interest (onMessage ctl kwrite)) S" and up: "\<not> down S"
  shows "\<exists>ls S'. sys_runs ctl ls S = Inr S' \<and> (\<forall>l. queues S' l = []) \<and>
    (\<forall>i c k. objects S i = Some (c, k) \<longrightarrow> cstate k = kDisconnected \<longrightarrow> objects S' i = None) \<and>
    (\<forall>i c k. objects S' i = Some (c, k) \<longrightarrow> cstate k \<in> {kConnected, kDisconnecting} \<and>
       connections (server S') (conn_name c) = Some c \<and>
       (\<exists>m. interest (kernel (pollers S' (conn_loop c))) (conn_fd c) = Some (m, chan_of i)))"
proof -
  obtain s0 where i: "epoll_spec ctl interest" "fresh_server s0" "sys_ok interest s0 S" by (rule reachable_facts [OF r])
  from queues_drain [OF i(2,1,3)] obtain ls S' where d: "sys_runs ctl ls S = Inr S'" "\<forall>l. queues S' l = []" "sys_ok interest s0 S'"
    "\<forall>i. closed_or_gone S i \<longrightarrow> closed_or_gone S' i" using up unfolding runs_loop_def by blast
  note q = quiescent_objects [OF i(2) d(3,2)]
  have "objects S' j = None" if "objects S j = Some (c, k)" "cstate k = kDisconnected" for j c k
  proof (rule ccontr)
    assume "objects S' j \<noteq> None"
    then obtain c' k' where o: "objects S' j = Some (c', k')" by auto
    then have "cstate k' = kDisconnected" using d(4) [rule_format, of j] that by (auto simp: closed_or_gone_def)
    with q [OF o] show False by simp
  qed
  with d(1,2) q show ?thesis by blast
qed

theorem closed_connections_destroyed_witness:
  "\<exists>S k ls S'. objects S 0 = Some (ex_ref, k) \<and> cstate k = kDisconnected \<and> sys_runs list_ctl ls S = Inr S' \<and> objects S' 0 = None"
proof -
  obtain S k where S: "reachable (sys_start list_ctl (\<lambda>k. k)) ex_trans S"
    "objects S 0 = Some (ex_ref, k)" "cstate k = kDisconnected" "\<not> down S" using ex_reachable(3) by blast
  with closed_connections_destroyed [OF S(1,4)] show ?thesis by blast
qed

text \<open>After the body of the destructor of the server, in every state reached while the loops of the threads still run, these loops can
  run their functors until none is left; then the table is empty, the kernel watches no connection in them, and every
  connection of theirs is destroyed, except those whose removal had been queued in the base loop, which runs no
  more: they are closed.\<close>

lemma destroyed_loops_drain:
  assumes r: "reachable (sys_start ctl interest) (sys_trans ctl interest (onMessage ctl kwrite)) S" and dn: "down S"
  shows "\<exists>ls S'. sys_runs ctl ls S = Inr S' \<and> base_loop S \<notin> set ls \<and> (\<forall>l. l \<noteq> base_loop S \<longrightarrow> queues S' l = []) \<and>
    connections (server S') = Map.empty \<and>
    (\<forall>l fd m cid. l \<noteq> base_loop S \<longrightarrow> 2 \<le> cid \<longrightarrow> interest (kernel (pollers S' l)) fd \<noteq> Some (m, cid)) \<and>
    (\<forall>i c k. objects S' i = Some (c, k) \<longrightarrow> conn_loop c \<noteq> base_loop S \<longrightarrow>
       cstate k = kDisconnected \<and> PostRemove c \<in> set (queues S' (base_loop S)))"
proof -
  obtain s0 where i: "epoll_spec ctl interest" "fresh_server s0" "sys_ok interest s0 S" "down S \<longrightarrow> set (accepted S) \<subseteq> set (removed S)"
    by (rule reachable_facts [OF r])
  from queues_drain [OF i(2,1,3)] obtain ls S' where d: "sys_runs ctl ls S = Inr S'" "\<forall>l\<in>set ls. runs_loop S l"
    "\<forall>l. runs_loop S l \<longrightarrow> queues S' l = []" "sys_ok interest s0 S'" "same_server S S'" by blast
  have rn: "runs_loop S l \<longleftrightarrow> l \<noteq> base_loop S" for l using dn by (simp add: runs_loop_def)
  have all: "set (accepted S') \<subseteq> set (removed S')" "base_loop S' = base_loop S" using i(4) dn d(5) by (auto simp: same_server_def)
  have "connections (server S') n = None" for n
    using sys_okD(1) [OF d(4)] all(1) by (cases "connections (server S') n") (auto simp: server_ok_def)
  then have tab: "connections (server S') = Map.empty" by (rule ext)
  have left: "cstate k = kDisconnected \<and> PostRemove c \<in> set (queues S' (base_loop S)) \<and>
      (\<forall>fd m. interest (kernel (pollers S' (conn_loop c))) fd \<noteq> Some (m, chan_of i))"
    if "objects S' i = Some (c, k)" "conn_loop c \<noteq> base_loop S" for i c k
    using down_objects [OF i(2) d(4) all(1) _ that(1)] that(2) d(3) rn all(2) by simp
  have "interest (kernel (pollers S' l)) fd \<noteq> Some (m, cid)" if l: "l \<noteq> base_loop S" and cid: "2 \<le> cid" for l fd m cid
  proof
    assume w: "interest (kernel (pollers S' l)) fd = Some (m, cid)"
    obtain c k where "objects S' (cid - 2) = Some (c, k)" "conn_loop c = l" "cid = chan_of (cid - 2)" by (rule reported_object [OF i(2) d(4) cid w])
    then show False using left [of "cid - 2" c k] l w by simp
  qed
  with d(1,2,3) rn tab left show ?thesis by (intro exI [of _ ls] exI [of _ S']) auto
qed

text \<open>The destruction of the server with its one connection, open or closed.\<close>

lemma ex_destroyed:
  "\<exists>S. reachable (sys_start list_ctl (\<lambda>k. k)) ex_trans S \<and> down S \<and> base_loop S = 0"
  "\<exists>S. reachable (sys_start list_ctl (\<lambda>k. k)) ex_trans S \<and> down S \<and> base_loop S = 0 \<and> PostRemove ex_ref \<in> set (queues S 0)"
proof -
  obtain S where S: "reachable (sys_start list_ctl (\<lambda>k. k)) ex_trans S" "\<not> down S" "base_loop S = 0" "queues S 0 = [PostRemove ex_ref]"
    using ex_reachable(3) by blast
  obtain names S' where S': "ev_ok (\<lambda>k. k) (EvDestroy names) S" "sys_destroy list_ctl names S = Inr S'" "down S'" "base_loop S' = base_loop S"
    "set (queues S 0) \<subseteq> set (queues S' 0)" by (rule can_be_destroyed [OF S(1,2)]) blast
  have "ex_trans S S'" unfolding sys_trans_def using S'(1,2) by (intro exI [of _ "EvDestroy names"]) simp
  then have "reachable (sys_start list_ctl (\<lambda>k. k)) ex_trans S'" by (rule reachable_step [OF S(1)])
  moreover have "PostRemove ex_ref \<in> set (queues S' 0)" using S'(5) S(4) by auto
  ultimately show
    "\<exists>S. reachable (sys_start list_ctl (\<lambda>k. k)) ex_trans S \<and> down S \<and> base_loop S = 0 \<and> PostRemove ex_ref \<in> set (queues S 0)"
    using S'(3,4) S(3) by auto
  then show "\<exists>S. reachable (sys_start list_ctl (\<lambda>k. k)) ex_trans S \<and> down S \<and> base_loop S = 0" by blast
qed

text \<open>The functors before the first removal run; the removal calls a method of the destroyed server.\<close>

lemma removal_faults:
  assumes f0: "fresh_server s0" and sp: "epoll_spec ctl interest"
  shows "sys_ok interest s0 S \<Longrightarrow> down S \<Longrightarrow> queues S (base_loop S) = xs @ PostRemove c # ys \<Longrightarrow> (\<And>d. PostRemove d \<notin> set xs) \<Longrightarrow>
    sys_runs ctl (replicate (Suc (length xs)) (base_loop S)) S = Inl NullDeref"
proof (induction xs arbitrary: S)
  case Nil
  then show ?case by (simp add: sys_run_def)
next
  case (Cons f xs)
  let ?b = "base_loop S"
  have q: "queues S ?b = f # (xs @ PostRemove c # ys)" using Cons.prems(3) by simp
  from sys_okD(3) [OF Cons.prems(1), of f ?b] q Cons.prems(4) obtain d where f: "f = PostDestroyed d" by (auto simp: functor_ok_def)
  from run_destroyed [OF f0 sp Cons.prems(1) q [unfolded f]] obtain S1 where S1: "sys_run ctl ?b S = Inr S1" "sys_ok interest s0 S1" by blast
  have same: "down S1" "base_loop S1 = ?b" using sys_run_same [OF S1(1)] Cons.prems(2) by (simp_all add: same_server_def)
  have "queues S1 = (queues S)(?b := xs @ PostRemove c # ys)" using sys_run_queues(2) [OF q S1(1)] f by simp
  then have "sys_runs ctl (replicate (Suc (length xs)) ?b) S1 = Inl NullDeref"
    using Cons.IH [OF S1(2) same(1)] Cons.prems(4) same(2) by simp
  then show ?case using S1(1) by simp
qed

text \<open>C36: The close callbacks and the queued removals hold the address of the server, not a share in it: when the server is
  destroyed while the base loop goes on, the first removal that is still queued there, or is queued later by a connection that
  closes, is a call of a method of the destroyed server.\<close>

theorem destroyed_server_used:
  assumes r: "reachable (sys_start ctl interest) (sys_trans ctl interest (onMessage ctl kwrite)) S" and dn: "down S"
    and c: "PostRemove c \<in> set (queues S (base_loop S))"
  shows "\<exists>n. sys_runs ctl (replicate n (base_loop S)) S = Inl NullDeref"
proof -
  obtain s0 where i: "epoll_spec ctl interest" "fresh_server s0" "sys_ok interest s0 S" by (rule reachable_facts [OF r])
  let ?P = "\<lambda>f. \<exists>d. f = PostRemove d"
  from c obtain xs f ys where "queues S (base_loop S) = xs @ f # ys" "?P f" "\<forall>g\<in>set xs. \<not> ?P g"
    using split_list_first_prop [of "queues S (base_loop S)" ?P] by blast
  then show ?thesis using removal_faults [OF i(2,1,3) dn, of xs] by blast
qed

theorem destroyed_server_used_witness:
  "\<exists>S n. down S \<and> sys_runs list_ctl (replicate n 0) S = Inl NullDeref"
proof -
  obtain S where S: "reachable (sys_start list_ctl (\<lambda>k. k)) ex_trans S" "down S" "base_loop S = 0" "PostRemove ex_ref \<in> set (queues S 0)"
    using ex_destroyed(2) by blast
  with destroyed_server_used [OF S(1,2), of ex_ref] show ?thesis by auto
qed

end
