(* ===== verification/Destruction.thy ===== *)
theory Destruction
  imports ServerSafety
begin

text \<open>
  The end of the server. The body of \<open>~TcpServer\<close> is \<open>sys_destroy\<close> of theory \<open>Lifecycle\<close>; this theory has what follows it. The members
  are destroyed in the reverse order of their declaration: the table, which holds only null pointers by then, the thread
  pool, and the acceptor (\<open>Acceptor_destroy\<close> of theory \<open>Net\<close>, which touches only its own channel). The thread pool destroys
  its \<open>EventLoopThread\<close>s: each tells its loop to quit and joins the thread, whose function destroys the \<open>EventLoop\<close> on its stack.
  With the loop go its poller, the epoll descriptor and the functors it has not run; a functor that is destroyed gives up its
  \<open>shared_ptr\<close>. The loop of the program is destroyed after the server, in the same way.

  The loops run on until they are joined, and how far each one comes is not determined: the theorem is about every state
  that can be reached after the body of the destructor, whether the loops have run all, some or none of their functors. The
  loops end one after the other, but once the server is down a step of one thread's loop changes nothing
  that belongs to another's (\<open>other_loops_untouched\<close>): what a loop leaves behind does not depend on what the others do after
  its end, so the ends may be taken together.
\<close>

section \<open>Operations\<close>

text \<open>The functors of a loop are destroyed with it.\<close>

definition loop_end :: "loop_id \<Rightarrow> 'k system \<Rightarrow> 'k system" where
  "loop_end l S = fold release (List.map_filter posted_ref (queues S l)) (S\<lparr>queues := (queues S)(l := [])\<rparr>)"

text \<open>The loops of the threads; the base loop is the program's and is not among them.\<close>

definition thread_loops :: "'k system \<Rightarrow> loop_id list" where
  "thread_loops S = filter (\<lambda>l. l \<noteq> base_loop S) (loops (threadPool (server S)))"

definition threads_end :: "'k system \<Rightarrow> 'k system" where
  "threads_end S = fold loop_end (thread_loops S) S"

text \<open>The loop an event belongs to.\<close>

fun ev_loop :: "sys_ev \<Rightarrow> 'k system \<Rightarrow> loop_id" where
  "ev_loop (EvRun l) S = l"
| "ev_loop (EvChannel l cid r rr wr) S = l"
| "ev_loop (EvSend i reply d) S = (case objects S i of None \<Rightarrow> base_loop S | Some (c, k) \<Rightarrow> conn_loop c)"
| "ev_loop (EvShutdown i) S = (case objects S i of None \<Rightarrow> base_loop S | Some (c, k) \<Rightarrow> conn_loop c)"
| "ev_loop ev S = base_loop S"

section \<open>Steps of one loop leave the others alone\<close>

text \<open>What belongs to a loop: its queue, its poller and its connections.\<close>

definition same_loop :: "loop_id \<Rightarrow> 'k system \<Rightarrow> 'k system \<Rightarrow> bool" where
  "same_loop l S S' \<longleftrightarrow> queues S' l = queues S l \<and> pollers S' l = pollers S l \<and>
     (\<forall>i c k. conn_loop c = l \<longrightarrow> (objects S' i = Some (c, k) \<longleftrightarrow> objects S i = Some (c, k)))"

lemma same_loop_trans [trans]: "same_loop l S S' \<Longrightarrow> same_loop l S' S'' \<Longrightarrow> same_loop l S S''"
  by (simp add: same_loop_def)

lemma on_object_untouched:
  assumes "on_object m i f S = Inr S'" "objects S i = Some (c, k)" "conn_loop c \<noteq> l" "m \<noteq> l"
  shows "same_loop l S S'"
  using assms by (auto simp: on_object_def bind_r_Inr_iff same_loop_def split: if_splits)

lemma release_untouched:
  assumes "\<And>d k. objects S (conn_id c) = Some (d, k) \<Longrightarrow> conn_loop d \<noteq> l" "conn_loop c \<noteq> l"
  shows "same_loop l S (release c S)"
  using assms by (auto simp: release_def same_loop_def)

lemma close_calls_untouched:
  "close_calls ctl c n S = Inr S' \<Longrightarrow> conn_loop c \<noteq> base_loop S \<Longrightarrow> l \<noteq> base_loop S \<Longrightarrow> same_loop l S S'"
proof (induction n arbitrary: S)
  case 0
  then show ?case by (simp add: same_loop_def)
next
  case (Suc n)
  let ?S = "enqueue (base_loop S) (PostRemove c) (S\<lparr>server := removeConnection c (server S)\<rparr>)"
  have "close_calls ctl c n ?S = Inr S'"
    using Suc.prems(1,2) by (auto simp: removeConnection_def post_to_def base_loop_def run_in_loop_def Let_def)
  moreover have "base_loop ?S = base_loop S" by (simp add: base_loop_def enqueue_def removeConnection_def post_to_def)
  ultimately have "same_loop l ?S S'" using Suc.IH Suc.prems(2,3) by simp
  then show ?case using Suc.prems(3) by (simp add: same_loop_def enqueue_def)
qed

lemma run_untouched:
  assumes f0: "fresh_server s0" and ok: "sys_ok interest s0 S" and r: "sys_run ctl m S = Inr S'"
    and m: "m \<noteq> base_loop S" "m \<noteq> l"
  shows "same_loop l S S'"
proof (cases "queues S m")
  case Nil
  then show ?thesis using r by (simp add: sys_run_def same_loop_def)
next
  case (Cons f fs)
  let ?S = "S\<lparr>queues := (queues S)(m := fs)\<rparr>"
  from sys_okD(3) [OF ok, of f m] Cons m(1) obtain c where f: "f = PostEstablished c \<or> f = PostDestroyed c" "m = conn_loop c"
    unfolding functor_ok_def by auto
  obtain k where o: "objects S (conn_id c) = Some (c, k)" by (rule queued_object [OF f0 ok, of f m c]) (use Cons f in auto)
  from Cons r f(1) obtain g T where T: "on_object m (conn_id c) g ?S = Inr T" "S' = release c T"
    by (auto simp: sys_run_def bind_r_Inr_iff)
  have "same_loop l S ?S" using m(2) by (simp add: same_loop_def)
  also have "same_loop l ?S T" by (rule on_object_untouched [OF T(1)]) (use o f(2) m(2) in auto)
  also have "same_loop l T S'"
    unfolding T(2) by (rule release_untouched) (use T(1) o f(2) m(2) in \<open>auto simp: on_object_def bind_r_Inr_iff\<close>)
  finally show ?thesis .
qed

text \<open>Once the server is down a step of one loop changes nothing that belongs to the loop of another thread.\<close>

lemma other_loops_untouched:
  assumes r: "reachable (sys_start ctl interest) (sys_trans ctl interest (onMessage ctl kwrite)) S" and dn: "down S"
    and ev: "ev_ok interest ev S" and st: "sys_step ctl (onMessage ctl kwrite) ev S = Some (Inr S')"
    and l: "ev_loop ev S \<noteq> l" "l \<noteq> base_loop S"
  shows "same_loop l S S'"
proof -
  obtain s0 where i: "epoll_spec ctl interest" "fresh_server s0" "sys_ok interest s0 S" by (rule reachable_facts [OF r])
  show ?thesis
  proof (cases ev)
    case (EvRun m)
    then show ?thesis using run_untouched [OF i(2,3), of ctl m S' l] ev st l dn by (simp add: runs_loop_def)
  next
    case (EvChannel m cid rev rr wr)
    then obtain fd mk where w: "2 \<le> cid" "interest (kernel (pollers S m)) fd = Some (mk, cid)" and m: "m \<noteq> base_loop S" "m \<noteq> l"
      using ev l dn by (auto simp: runs_loop_def)
    obtain c k p where c: "objects S (cid - 2) = Some (c, k)" "conn_loop c = m"
      and p: "fillActiveChannels [(rev, cid)] (pollers S m) = Inr ([cid], p)"
      by (rule reported_object [OF i(2,3) w, of rev]) blast
    from st obtain k' where k': "close_calls ctl c (count_list (drop (length (effects k)) (effects k')) CloseCallbackCall)
        (S\<lparr>objects := (objects S)(cid - 2 \<mapsto> (c, k')), pollers := (pollers S)(m := cpoller k')\<rparr>) = Inr S'"
      by (auto simp: EvChannel sys_event_def c(1) p bind_r_Inr_iff simp del: fillActiveChannels.simps)
    have "same_loop l S (S\<lparr>objects := (objects S)(cid - 2 \<mapsto> (c, k')), pollers := (pollers S)(m := cpoller k')\<rparr>)"
      using c m(2) by (auto simp: same_loop_def split: if_splits)
    also have "same_loop l \<dots> S'" by (rule close_calls_untouched [OF k']) (use c(2) m(1) l(2) in \<open>simp_all add: base_loop_def\<close>)
    finally show ?thesis .
  next
    case (EvSend j reply d)
    then show ?thesis using ev st l by (auto split: option.splits intro: on_object_untouched)
  next
    case (EvShutdown j)
    then show ?thesis using ev st l by (auto split: option.splits intro: on_object_untouched)
  qed (use ev dn in auto)
qed

section \<open>The end of loops\<close>

text \<open>Every object is held by a \<open>shared_ptr\<close>, and every functor holds the object of its connection.\<close>

definition held :: "'k system \<Rightarrow> bool" where
  "held S \<longleftrightarrow> (\<forall>i c k. objects S i = Some (c, k) \<longrightarrow> conn_id c = i \<and> referenced S c) \<and>
     (\<forall>l f c. f \<in> set (queues S l) \<longrightarrow> posted_ref f = Some c \<longrightarrow> (\<exists>k. objects S (conn_id c) = Some (c, k))) \<and>
     (\<forall>l. queues S l \<noteq> [] \<longrightarrow> l \<in> set (all_loops S))"

lemma held_down:
  assumes f0: "fresh_server s0" and ok: "sys_ok interest s0 S" and dn: "set (accepted S) \<subseteq> set (removed S)"
  shows "held S"
proof -
  have "conn_id c = j \<and> referenced S c" if o: "objects S j = Some (c, k)" for j c k
  proof -
    obtain ch where F: "conn_id c = j" "c \<in> set (accepted S)"
      "\<And>q r. functors_of S c = (q, r) \<Longrightarrow> phase_ok (cstate k) c ch q r (c \<in> set (removed S))" by (rule object_facts [OF f0 ok o]) blast
    from F(3) [OF functors_of_def] F(2) dn
    have "calls_of c (queues S (conn_loop c)) \<noteq> [] \<or> 0 < count_list (queues S (base_loop S)) (PostRemove c)"
      by (cases "cstate k") auto
    then obtain l f where f: "f \<in> set (queues S l)" "posted_ref f = Some c"
      unfolding calls_of_def filter_empty_conv count_list_pos by auto
    then show ?thesis using F(1) referencedI [OF queue_in_loops(1) [OF f0 ok f(1)] f] by blast
  qed
  moreover have "\<exists>k. objects S (conn_id c) = Some (c, k)" if "f \<in> set (queues S l)" "posted_ref f = Some c" for l f c
    by (rule queued_object [OF f0 ok that]) blast
  moreover have "l \<in> set (all_loops S)" if "queues S l \<noteq> []" for l
    using that queue_in_loops(1) [OF f0 ok, of "hd (queues S l)" l] by simp
  ultimately show ?thesis by (simp add: held_def)
qed

lemma referenced_release [simp]: "referenced (release d S) c = referenced S c"
  by (simp add: referenced_def release_frame)

lemma fold_release:
  "queues (fold release cs S) = queues S" "server (fold release cs S) = server S" "referenced (fold release cs S) = referenced S"
  "objects (fold release cs S) = (\<lambda>i. if \<exists>c\<in>set cs. conn_id c = i \<and> \<not> referenced S c then None else objects S i)"
proof -
  have r: "objects (release c S) = (\<lambda>i. if conn_id c = i \<and> \<not> referenced S c then None else objects S i)" for c and S :: "'a system"
    by (auto simp: release_def)
  show "queues (fold release cs S) = queues S" "server (fold release cs S) = server S"
    by (induction cs arbitrary: S) (simp_all add: release_frame)
  show "referenced (fold release cs S) = referenced S" by (induction cs arbitrary: S) (auto intro!: ext)
  show "objects (fold release cs S) = (\<lambda>i. if \<exists>c\<in>set cs. conn_id c = i \<and> \<not> referenced S c then None else objects S i)"
    by (induction cs arbitrary: S) (auto simp: r intro!: ext)
qed

lemma loop_end_frame:
  "queues (loop_end l S) = (queues S)(l := [])" "server (loop_end l S) = server S" "all_loops (loop_end l S) = all_loops S"
  by (simp_all add: loop_end_def fold_release all_loops_def base_loop_def)

lemma loop_end_referenced: "referenced (loop_end l S) c \<Longrightarrow> referenced S c"
  by (auto simp: referenced_def loop_end_frame split: if_splits)

lemma set_refs: "c \<in> set (List.map_filter posted_ref q) \<longleftrightarrow> (\<exists>f\<in>set q. posted_ref f = Some c)"
  by (force simp: List.map_filter_def)

text \<open>After the end of a loop exactly the objects that something else still holds are there.\<close>

definition still_held :: "'k system \<Rightarrow> (conn_ref \<times> 'k TcpConnection) option \<Rightarrow> (conn_ref \<times> 'k TcpConnection) option" where
  "still_held S x = (case x of None \<Rightarrow> None | Some (c, k) \<Rightarrow> if referenced S c then Some (c, k) else None)"

lemma loop_end_objects:
  assumes h: "held S"
  shows "objects (loop_end l S) i = still_held (loop_end l S) (objects S i)"
proof -
  let ?S = "S\<lparr>queues := (queues S)(l := [])\<rparr>"
  have r: "referenced (loop_end l S) = referenced ?S" by (simp add: loop_end_def fold_release)
  have o: "objects (loop_end l S) i = (if \<exists>c f. f \<in> set (queues S l) \<and> posted_ref f = Some c \<and> conn_id c = i \<and> \<not> referenced ?S c then None else objects S i)"
    unfolding loop_end_def by (auto simp: fold_release set_refs)
  show ?thesis
  proof (cases "objects S i")
    case None
    then show ?thesis using o by (simp add: still_held_def)
  next
    case (Some x)
    then obtain c k where ck: "objects S i = Some (c, k)" by (cases x) simp
    have id: "conn_id c = i" "referenced S c" using h ck by (auto simp: held_def)
    have u: "d = c" if "f \<in> set (queues S l)" "posted_ref f = Some d" "conn_id d = i" for f d
      using h that ck unfolding held_def by (metis option.inject prod.inject)
    have "\<exists>f\<in>set (queues S l). posted_ref f = Some c" if n: "\<not> referenced ?S c"
    proof -
      have a: "all_loops ?S = all_loops S" "server ?S = server S" by (simp_all add: all_loops_def base_loop_def)
      from id(2) n obtain m where "m \<in> set (all_loops S)" "Some c \<in> posted_ref ` set (queues S m)" "Some c \<notin> posted_ref ` set (queues ?S m)"
        unfolding referenced_def a set_map by blast
      then show ?thesis by (auto split: if_splits)
    qed
    then show ?thesis using o u ck id by (auto simp: still_held_def r)
  qed
qed

lemma held_loop_end:
  assumes h: "held S"
  shows "held (loop_end l S)"
proof -
  note o = loop_end_objects [OF h, of l]
  have "conn_id c = i \<and> referenced (loop_end l S) c" if "objects (loop_end l S) i = Some (c, k)" for i c k
    using that h unfolding o by (auto simp: still_held_def held_def split: option.splits if_splits)
  moreover have "\<exists>k. objects (loop_end l S) (conn_id c) = Some (c, k)" if f: "f \<in> set (queues (loop_end l S) m)" "posted_ref f = Some c" for m f c
  proof -
    have f': "f \<in> set (queues S m)" using f(1) by (auto simp: loop_end_frame split: if_splits)
    with h f(2) obtain k where "objects S (conn_id c) = Some (c, k)" unfolding held_def by blast
    moreover have "m \<in> set (all_loops S)" using h f' unfolding held_def by (metis empty_iff list.set(1))
    then have "referenced (loop_end l S) c" using referencedI [of m "loop_end l S"] f by (simp add: loop_end_frame)
    ultimately show ?thesis by (simp add: o still_held_def)
  qed
  moreover have "m \<in> set (all_loops (loop_end l S))" if "queues (loop_end l S) m \<noteq> []" for m
    using that h by (auto simp: loop_end_frame held_def split: if_splits)
  ultimately show ?thesis by (auto simp: held_def)
qed

lemma loops_end_frame:
  "queues (fold loop_end ls S) = (\<lambda>l. if l \<in> set ls then [] else queues S l)" "server (fold loop_end ls S) = server S"
  by (induction ls arbitrary: S) (auto simp: loop_end_frame)

lemma loops_end_referenced: "referenced (fold loop_end ls S) c \<Longrightarrow> referenced S c"
  by (induction ls arbitrary: S) (auto dest: loop_end_referenced)

lemma loops_end_objects:
  "held S \<Longrightarrow> objects (fold loop_end ls S) i = still_held (fold loop_end ls S) (objects S i) \<and> held (fold loop_end ls S)"
proof (induction ls arbitrary: S)
  case Nil
  then show ?case by (auto simp: still_held_def held_def split: option.splits)
next
  case (Cons l ls)
  from Cons.IH [OF held_loop_end [OF Cons.prems]] loop_end_objects [OF Cons.prems, of l i] show ?case
    by (auto simp: still_held_def dest: loops_end_referenced split: option.splits if_splits)
qed

section \<open>Properties\<close>

lemma only_base_queue:
  assumes h: "held S" and l: "l \<noteq> base_loop S"
  shows "queues (threads_end S) l = []"
proof (rule ccontr)
  assume q: "queues (threads_end S) l \<noteq> []"
  then have "queues S l \<noteq> []" "l \<notin> set (thread_loops S)" by (auto simp: threads_end_def loops_end_frame split: if_splits)
  moreover from this(1) have "l \<in> set (all_loops S)" using h by (simp add: held_def)
  ultimately show False using l by (auto simp: thread_loops_def all_loops_def getAllLoops_def base_loop_def split: if_splits)
qed

text \<open>C5: The whole destructor of the server releases its connections, however far the loops of the threads have come when they are
  joined, functors run or abandoned: once the loops of the threads have ended, the table is empty, the only functors left are
  those of the base loop, which runs no more, and a connection object is left exactly when one of these holds it; a connection
  of a thread's loop that is left is closed and waits for its removal. After the base loop has been destroyed too no
  connection object is left.\<close>

theorem server_destruction_releases:
  assumes r: "reachable (sys_start ctl interest) (sys_trans ctl interest (onMessage ctl kwrite)) S" and dn: "down S"
    and T: "T = threads_end S" and U: "U = loop_end (base_loop S) T"
  shows "connections (server T) = Map.empty \<and> (\<forall>l. queues T l = (if l = base_loop S then queues S l else [])) \<and>
    (\<forall>i c k. objects T i = Some (c, k) \<longleftrightarrow> objects S i = Some (c, k) \<and> (\<exists>f\<in>set (queues S (base_loop S)). posted_ref f = Some c)) \<and>
    (\<forall>i c k. objects T i = Some (c, k) \<longrightarrow> conn_loop c \<noteq> base_loop S \<longrightarrow> cstate k = kDisconnected \<and> PostRemove c \<in> set (queues T (base_loop S))) \<and>
    objects U = Map.empty \<and> (\<forall>l. queues U l = [])"
proof -
  obtain s0 where i: "epoll_spec ctl interest" "fresh_server s0" "sys_ok interest s0 S" "down S \<longrightarrow> set (accepted S) \<subseteq> set (removed S)"
    by (rule reachable_facts [OF r])
  have h: "held S" using held_down [OF i(2,3)] i(4) dn by blast
  note o = loops_end_objects [OF h, of "thread_loops S", folded threads_end_def T]
  have srv: "server T = server S" "base_loop T = base_loop S" "all_loops T = all_loops S"
    by (simp_all add: T threads_end_def loops_end_frame base_loop_def all_loops_def)
  have "connections (server S) n = None" for n
    using sys_okD(1) [OF i(3)] i(4) dn by (cases "connections (server S) n") (auto simp: server_ok_def)
  then have tab: "connections (server S) = Map.empty" by (rule ext)
  have q: "queues T l = (if l = base_loop S then queues S l else [])" for l
    using only_base_queue [OF h, of l] by (auto simp: T) (simp add: threads_end_def loops_end_frame thread_loops_def)
  have ref: "referenced T c \<longleftrightarrow> (\<exists>f\<in>set (queues S (base_loop S)). posted_ref f = Some c)" for c
    by (auto simp: referenced_def srv tab q all_loops_def image_iff eq_commute [of "Some c"])
  have left: "objects T j = Some (c, k) \<longleftrightarrow> objects S j = Some (c, k) \<and> (\<exists>f\<in>set (queues S (base_loop S)). posted_ref f = Some c)" for j c k
    using o [of j] by (auto simp: still_held_def ref split: option.splits if_splits)
  have closed: "cstate k = kDisconnected \<and> PostRemove c \<in> set (queues T (base_loop S))"
    if o: "objects T j = Some (c, k)" and cl: "conn_loop c \<noteq> base_loop S" for j c k
  proof -
    from o obtain f where f: "objects S j = Some (c, k)" "f \<in> set (queues S (base_loop S))" "posted_ref f = Some c" unfolding left by blast
    have "f = PostRemove c" by (rule queued_object [OF i(2,3) f(2,3)]) (use cl in auto)
    moreover obtain ch where "\<And>q r. functors_of S c = (q, r) \<Longrightarrow> phase_ok (cstate k) c ch q r (c \<in> set (removed S))"
      by (rule object_facts [OF i(2,3) f(1)]) blast
    from this [OF functors_of_def] f(2) \<open>f = PostRemove c\<close> have "cstate k = kDisconnected"
      by (cases "cstate k") (auto simp: count_list_0_iff)
    ultimately show ?thesis using f(2) q by simp
  qed
  have qU: "queues U l = []" for l by (simp add: U loop_end_frame q)
  moreover have "connections (server U) = Map.empty" by (simp add: U loop_end_frame srv tab)
  ultimately have "\<not> referenced U c" for c by (auto simp: referenced_def)
  then have "objects U j = None" for j
    using loop_end_objects [OF conjunct2 [OF o], of "base_loop S" j] by (auto simp: U [symmetric] still_held_def split: option.splits)
  then have "objects U = Map.empty" by (rule ext)
  moreover have "connections (server T) = Map.empty" using tab srv(1) by simp
  ultimately show ?thesis using q left closed qU by blast
qed

theorem server_destruction_releases_witness:
  "\<exists>(S :: list_kernel system) k. down S \<and> objects (threads_end S) 0 = Some (ex_ref, k) \<and> cstate k = kDisconnected \<and> queues (threads_end S) 1 = [] \<and>
    objects (loop_end 0 (threads_end S)) = Map.empty"
proof -
  obtain S where S: "reachable (sys_start list_ctl (\<lambda>k. k)) ex_trans S" "down S" "base_loop S = 0" "PostRemove ex_ref \<in> set (queues S 0)"
    using ex_destroyed(2) by blast
  obtain s0 where i: "fresh_server s0" "sys_ok (\<lambda>k. k) s0 S" by (rule reachable_facts [OF S(1)])
  obtain k where k: "objects S 0 = Some (ex_ref, k)" by (rule queued_object [OF i S(4)]) (auto simp: ex_ref_fields)
  note d = server_destruction_releases [OF S(1,2) refl refl, unfolded S(3)]
  have "objects (threads_end S) 0 = Some (ex_ref, k)" using d k bexI [OF _ S(4), of "\<lambda>f. posted_ref f = Some ex_ref"] by auto
  moreover from this have "cstate k = kDisconnected" using d by (metis ex_ref_fields(2) zero_neq_one)
  moreover have "queues (threads_end S) 1 = []" "objects (loop_end 0 (threads_end S)) = Map.empty" using d by simp_all
  ultimately show ?thesis using S(2) by blast
qed

end
