(* ===== verification/MainProgram.thy ===== *)
theory MainProgram
  imports EchoServer EventLoop LFU MemoryPool Logger
begin

text \<open>
  The function \<open>main\<close> of \<open>src/main.cc\<close>: what it constructs, in order, until it enters the base loop, and what
  it does when the loop has ended.

  The program's state is what \<open>main\<close> holds: the log, the static pools, the cache, the base loop, the
  acceptor and the server. Base loop and acceptor share the loop's poller. Functors of the base loop
  are what the server posts. The directory made by \<open>mkdir\<close> and the banners on the terminal are left
  out. \<open>loop.loop()\<close> is theory \<open>EventLoop\<close>; no code of the program asks the base loop to quit.
\<close>

section \<open>Log statements\<close>

text \<open>
  What the effects of a log statement do once \<open>main\<close> has set the output function: a line goes to \<open>asyncLog\<close>;
  \<open>g_flush\<close> is still \<open>defaultFlush\<close>, which flushes the standard output and not the log; \<open>abort\<close> ends the
  program. The result says whether the program has been aborted.
\<close>

fun main_effects :: "char list \<Rightarrow> AsyncLogging option \<Rightarrow> log_effect list \<Rightarrow> (bool \<times> AsyncLogging option) result" where
  "main_effects junk g [] = Inr (False, g)"
| "main_effects junk g (Output s # es) = bind_r (asyncLog junk g s) (\<lambda>g'. main_effects junk g' es)"
| "main_effects junk g (Flush # es) = main_effects junk g es"
| "main_effects junk g (Abort # es) = Inr (True, g)"





section \<open>Set-up\<close>

definition kRollSize :: nat where "kRollSize = 1 * 1024 * 1024"

record 'k program =
  main_log :: AsyncLogging
  main_pools :: HashBucket
  main_lfu :: "(int, string) KLfuCache"
  main_loop :: "(posted, 'k) EventLoop"
  main_acceptor :: "'k Acceptor"
  main_server :: TcpServer




text \<open>
  What follows \<open>loop.loop()\<close>: the log is stopped, then the local objects are destroyed in the reverse of
  their order: the server (its connections, the loop threads, the acceptor), the loop, the log. The
  acceptor's channel is in the poller of the loop. \<open>keys\<close> is the order in which the table is iterated.
  (The destructors of the loop threads are in theory \<open>Threads\<close>.)
\<close>

definition main_finish :: "'k epoll_ctl \<Rightarrow> string list \<Rightarrow> 'k program \<Rightarrow> 'k program result" where
  "main_finish ctl keys P =
     (let log = AsyncLogging_stop (main_log P);
          s = TcpServer_destroy keys (main_server P)
      in bind_r (Acceptor_destroy ctl ((main_acceptor P)\<lparr>apoller := poller (main_loop P)\<rparr>)) (\<lambda>a.
         bind_r (EventLoop_destroy ctl ((main_loop P)\<lparr>poller := apoller a\<rparr>)) (\<lambda>l.
           Inr (P\<lparr>main_log := AsyncLogging_destroy log, main_server := s, main_acceptor := a, main_loop := l\<rparr>))))"

section \<open>The program starts ready\<close>





text \<open>The bytes of a line appended by a statement of a log that is alive.\<close>

definition statement_line :: "(int \<Rightarrow> tm) \<Rightarrow> Timestamp \<Rightarrow> char list \<Rightarrow> string \<Rightarrow> int \<Rightarrow> LogLevel \<Rightarrow> log_item list \<Rightarrow> string" where
  "statement_line localtime now timer filename ln lvl items =
     time_prefix localtime now timer @ micros_text now @ getLevelName lvl @
       concat (map item_text items) @ '' - '' @ SourceFile filename @ '':'' @ decimal ln @ [CHR 0x0A]"

lemma statement_append:
  assumes a: "async_ok a"
    and st: "length timer = 64" "0 \<le> microSecondsSinceEpoch now" "length junk = kSmallBufferSize"
      "\<forall>it \<in> set items. item_ok it" "int_range TInt ln"
      "length (concat (map item_text (line_items localtime now timer filename ln lvl items))) + 32 \<le> kSmallBufferSize"
    and junk2: "length junk2 = kLargeBufferSize"
  obtains a' where "bind_r (Logger_statement localtime now junk timer filename ln lvl items) (main_effects junk2 (Some a)) =
      Inr (lvl = FATAL, Some a')" "async_next a a'" "async_ok a'" "running a' = running a" "written a' = written a"
    "pending a' = pending a @ statement_line localtime now timer filename ln lvl items"
proof -
  let ?line = "statement_line localtime now timer filename ln lvl items"
  have len: "length ?line < kLargeBufferSize"
    using st(6) by (simp add: statement_line_def line_items_def strlen_prefix_def kSmallBufferSize_def kLargeBufferSize_def)
  from AsyncLogging_append_ok [OF a len junk2] obtain a' where
    a': "AsyncLogging_append junk2 a ?line = Inr a'" "async_ok a'" "written a' = written a" "pending a' = pending a @ ?line" by blast
  have "async_next a a'"
    unfolding async_next_def by (rule exI [of _ "EvAppend junk2 ?line"]) (use len junk2 a'(1) in simp)
  moreover have "running a' = running a"
    using a'(1) by (auto simp: AsyncLogging_append_def on_buffer_def Let_def bind_r_Inr_iff split: option.splits if_splits)
  moreover have "bind_r (Logger_statement localtime now junk timer filename ln lvl items) (main_effects junk2 (Some a)) =
      Inr (lvl = FATAL, Some a')"
    using a'(1) by (simp add: log_line [OF st] asyncLog_def statement_line_def)
  ultimately show thesis using that a'(2-4) by blast
qed









text \<open>
  The end of the program: from any state in which the two channels of the base loop are registered, the
  destructors succeed and the kernel's interest list has lost exactly their descriptors.
\<close>

lemma main_finish_releases:
  assumes sp: "epoll_spec ctl interest" and ok: "poller_ok interest (poller (main_loop P))"
    and w: "chans (poller (main_loop P)) (wakeupChannel (main_loop P)) = Some wch" "index wch \<noteq> kNew"
    and c: "chans (poller (main_loop P)) (acceptChannel (main_acceptor P)) = Some ach" "index ach \<noteq> kNew"
    and ne: "acceptChannel (main_acceptor P) \<noteq> wakeupChannel (main_loop P)"
  shows "\<exists>P'. main_finish ctl keys P = Inr P' \<and> poller_ok interest (poller (main_loop P')) \<and>
    interest (kernel (poller (main_loop P'))) = (interest (kernel (poller (main_loop P))))(cfd ach := None, cfd wch := None) \<and>
    \<not> running (main_log P')"
proof -
  let ?p = "poller (main_loop P)"
  obtain p1 p2 where p2: "chan_do ctl DisableAll (acceptChannel (main_acceptor P)) ?p = Inr p1"
    "chan_do ctl Remove (acceptChannel (main_acceptor P)) p1 = Inr p2" "poller_ok interest p2"
    "chans p2 = (chans ?p)(acceptChannel (main_acceptor P) \<mapsto> ach\<lparr>events := kNoneEvent, index := kNew\<rparr>)"
    "interest (kernel p2) = (interest (kernel ?p))(cfd ach := None)"
    by (rule disable_remove_ok [OF sp ok c])
  have w2: "chans p2 (wakeupChannel (main_loop P)) = Some wch" using p2(4) w(1) ne by simp
  obtain p3 p4 where p4: "chan_do ctl DisableAll (wakeupChannel (main_loop P)) p2 = Inr p3"
    "chan_do ctl Remove (wakeupChannel (main_loop P)) p3 = Inr p4" "poller_ok interest p4"
    "interest (kernel p4) = (interest (kernel p2))(cfd wch := None)"
    by (rule disable_remove_ok [OF sp p2(3) w2 w(2)])
  show ?thesis
    using p2 p4
    by (simp add: main_finish_def Let_def Acceptor_destroy_def acceptor_do_def EventLoop_destroy_def AsyncLogging_stop_def
        AsyncLogging_destroy_def)
qed

section \<open>Logging\<close>

text \<open>C15: A log statement reaches the log: in every reachable state of the asynchronous logger, a statement
  whose text fits its buffer adds exactly its line behind everything logged before. The line of a
  \<open>FATAL\<close> record is only buffered when the program aborts.\<close>

theorem log_statement_recorded:
  assumes a: "reachable async_initial async_next a"
    and st: "length timer = 64" "0 \<le> microSecondsSinceEpoch now" "length junk = kSmallBufferSize"
      "\<forall>it \<in> set items. item_ok it" "int_range TInt ln"
      "length (concat (map item_text (line_items localtime now timer filename ln lvl items))) + 32 \<le> kSmallBufferSize"
    and junk2: "length junk2 = kLargeBufferSize"
  shows "\<exists>a'. bind_r (Logger_statement localtime now junk timer filename ln lvl items) (main_effects junk2 (Some a)) =
      Inr (lvl = FATAL, Some a') \<and> reachable async_initial async_next a' \<and> written a' = written a \<and>
    pending a' = pending a @ time_prefix localtime now timer @ micros_text now @ getLevelName lvl @
      concat (map item_text items) @ '' - '' @ SourceFile filename @ '':'' @ decimal ln @ [CHR 0x0A]"
proof -
  obtain a' where a': "bind_r (Logger_statement localtime now junk timer filename ln lvl items) (main_effects junk2 (Some a)) =
      Inr (lvl = FATAL, Some a')" "async_next a a'" "written a' = written a"
    "pending a' = pending a @ statement_line localtime now timer filename ln lvl items"
    by (rule statement_append [OF async.reachable_inv [OF a] st junk2])
  moreover have "reachable async_initial async_next a'" using a'(2) by (rule reachable_step [OF a])
  ultimately show ?thesis by (simp add: statement_line_def)
qed

theorem log_statement_recorded_witness:
  "\<exists>a'. bind_r (Logger_statement example_tm (Timestamp 65000007) (replicate kSmallBufferSize (CHR 0x00)) (replicate 64 (CHR 0x00))
     ''src/main.cc'' 12 WARN [ItCString ''fd='', ItInteger TInt 7]) (main_effects zeros (Some (AsyncLogging_new zeros zeros ''logs/main'' kRollSize))) =
      Inr (False, Some a') \<and>
    pending a' = time_prefix example_tm (Timestamp 65000007) (replicate 64 (CHR 0x00)) @ micros_text (Timestamp 65000007) @
      ''WARN  '' @ ''fd='' @ decimal 7 @ '' - '' @ ''main.cc'' @ '':'' @ decimal 12 @ [CHR 0x0A]"
proof -
  have r: "reachable async_initial async_next (AsyncLogging_new zeros zeros ''logs/main'' kRollSize)"
    unfolding async_initial_def using length_zeros by (intro reachable_init) blast
  have p: "pending (AsyncLogging_new zeros zeros ''logs/main'' kRollSize) = []"
    by (rule AsyncLogging_new_ok(3) [OF length_zeros length_zeros])
  show ?thesis
    using log_statement_recorded [OF r _ _ _ _ _ example_line_fits length_zeros, of "replicate kSmallBufferSize (CHR 0x00)"]
    by (auto simp: p SourceFile_def strlen_prefix_def)
qed

end
