(* ===== verification/Spec2Isabelle.thy ===== *)
theory Spec2Isabelle
  imports Buffer TimerQueue LFU AsyncLogging EventLoop TcpConnection MemoryPool Net Threads TcpServer EchoServer
    CrossThread Destruction MainProgram
begin

text \<open>
  A verification development for kama-webserver, a C++ network library after the design of muduo
  with an asynchronous logger, a least-frequently-used cache and a pooled allocator, and its
  demonstration server.

  \<^bold>\<open>The program.\<close> A \<open>TcpServer\<close> lives in a base event loop. Its \<open>Acceptor\<close> watches the listening socket
  there; every accepted descriptor becomes a \<open>TcpConnection\<close> that is assigned to one of the loops of
  an \<open>EventLoopThreadPool\<close> in turn and from then on lives in that loop's thread. An \<open>EventLoop\<close> waits in
  its \<open>EPollPoller\<close>, dispatches the events of ready \<open>Channel\<close>s to their callbacks and runs the functors
  that other threads have queued; an eventfd wakes it, a timerfd drives its \<open>TimerQueue\<close>. A connection
  reads into and writes from two \<open>Buffer\<close>s. Log statements format a line in a \<open>LogStream\<close>; the output
  function hands it to \<open>AsyncLogging\<close>, whose back-end thread writes full buffers to a \<open>LogFile\<close>. The
  allocator and the cache are stand-alone components.

  \<^bold>\<open>Theories and the code they model\<close> (paths under \<open>src/\<close>; definitions carry the names of the methods):

  \<^item> \<open>Prelude\<close>: \<open>size_t\<close> arithmetic, accesses of vectors through raw pointers, error values, errno
    values, decimal texts; the interface \<open>invariant_system\<close> of a transition system with an invariant,
    interpreted on every state machine below.
  \<^item> \<open>Buffer\<close> (\<open>include/Buffer.h\<close>, \<open>src/Buffer.cc\<close>): vector and two indices. The invariant \<open>buf_ok\<close>
    excludes every access outside the vector; over it the class is a FIFO queue of bytes for requests of at most what
    is readable (interface \<open>byte_queue\<close>; the code does not check a longer one); growth happens only when the free space at both ends is too small; \<open>readFd\<close>
    delivers exactly what the kernel gave; for sizes near the limits, where \<open>size_t\<close> wraps around, an operation
    still returns a well-formed buffer or throws.
  \<^item> \<open>Timestamp\<close>, \<open>TimerQueue\<close> (\<open>Timestamp\<close>, \<open>Timer\<close>, \<open>TimerQueue\<close> headers and sources): time in
    microseconds, delays as binary floating-point numbers, timers in a heap and an ordered set of
    (expiration, pointer). Shown: exactly the due timers run, in order, and the timerfd is armed for the
    earliest one left; the value handed to \<open>timerfd_settime\<close> is always valid.
  \<^item> \<open>LFU\<close> (\<open>include/LFU.h\<close>, \<open>include/KICachePolicy.h\<close>): frequency lists, aging, eviction, the sharded
    cache. Shown: a \<open>put\<close> into a full cache evicts the front of the list of the least frequency, the lists are first-in first-out
    until an aging rebuilds them, and (interface \<open>cache_policy\<close>, interpreted on both caches) that
    every answer is a miss or the last value put under its key.
  \<^item> \<open>LogStream\<close>, \<open>Logger\<close> (\<open>include/FixedBuffer.h\<close>, \<open>include/LogStream.h\<close>, \<open>log/LogStream.cc\<close>,
    \<open>include/Logger.h\<close>, \<open>src/Logger.cc\<close>): the fixed buffer never overflows and drops whole items
    (interface \<open>text_sink\<close>), the integer formatter inverts parsing, the shape of a log line.
  \<^item> \<open>LogFile\<close>, \<open>AsyncLogging\<close> (\<open>FileUtil\<close>, \<open>LogFile\<close>, \<open>AsyncLogging\<close> headers and \<open>log/*.cc\<close>): the closed
    files and the open one hold everything appended (interface \<open>append_only\<close>), when a file is rolled,
    and, over all interleavings of the front-end threads with the back end, whose test of \<open>running_\<close> and whose collecting
    are separate steps, that the bytes in the files followed by the bytes still buffered are exactly the appended
    lines, in order, and what a \<open>stop\<close> loses.
  \<^item> \<open>Poller\<close> (\<open>Channel\<close>, \<open>Poller\<close>, \<open>EPollPoller\<close>, \<open>DefaultPoller\<close>): a store of channels, the poller's map
    and the kernel's interest list. Shown: the three agree after every operation, an update reaches the
    kernel, a poll reports only registered channels.
  \<^item> \<open>EventLoop\<close> (\<open>include/EventLoop.h\<close>, \<open>src/EventLoop.cc\<close>): steps of the loop's own thread inside and outside of
    \<open>loop\<close>, of its callbacks and of other threads; \<open>poll\<close> returns what the kernel can report, or is interrupted by a signal in a
    step of its own. Shown: functors run once and in order; a waiting loop with functors queued by callbacks or other
    threads, or told to quit, has a readable and registered eventfd, and from the report of it alone runs them or ends
    (a functor the loop's own thread queued before \<open>loop\<close> is the exception, and \<open>quit\<close> may leave queued functors behind).
  \<^item> \<open>TcpConnection\<close> (\<open>include/TcpConnection.h\<close>, \<open>src/TcpConnection.cc\<close>): the life cycle of one
    connection. Shown: what the peer received followed by the output buffer is the concatenation of what
    was accepted by \<open>send\<close>, output waits only while \<open>EPOLLOUT\<close> is watched, the half-close follows the
    last byte, tear-down removes the channel, \<open>sendFile\<close> sends its range. A message callback is the
    interface \<open>message_callback\<close>.
  \<^item> \<open>CrossThread\<close> (\<open>src/TcpConnection.cc\<close>): \<open>send\<close> and \<open>shutdown\<close> from other threads, whose functors hold a pointer to the
    caller's string. Shown: as long as no string changes or goes while a functor refers to it, every interleaving
    refines a connection that sends by value; and what happens otherwise, or when a \<open>shutdown\<close> overtakes queued sends.
  \<^item> \<open>MemoryPool\<close> (\<open>include/memoryPool.h\<close>, \<open>memory/memoryPool.cc\<close>): slots over an explicit heap. Shown: for
    every interleaving, with the sections on the free list cut at their accesses to \<open>freeList_\<close>, no two live slots overlap and
    each lies inside a block, and the only step that fails is a read through \<open>freeList_\<close> after another thread has
    cleared it, which is reached; the destructor deletes every block once and ends, the size class of a request fits it.
  \<^item> \<open>Net\<close> (\<open>InetAddress\<close>, \<open>Socket\<close>, \<open>Acceptor\<close>): byte order, address texts and their round trip, the
    system calls of a socket in order, the accept loop.
  \<^item> \<open>Threads\<close> (\<open>CurrentThread\<close>, \<open>Thread\<close>, \<open>EventLoopThread\<close>, \<open>EventLoopThreadPool\<close>): the start handshake
    over a semaphore, a mutex and a condition variable as atomic steps of two threads; the parent always
    gets the loop the child runs; the pool hands out its loops in turn.
  \<^item> \<open>TcpServer\<close> (\<open>include/TcpServer.h\<close>, \<open>src/TcpServer.cc\<close>): the table holds exactly the connections
    accepted and not yet removed, each under its own name and handed to its loop once.
  \<^item> \<open>EchoServer\<close> (\<open>src/main.cc\<close>): the callbacks and the set-up of the demonstration server; its \<open>onMessage\<close> interprets
    \<open>message_callback\<close>.
  \<^item> \<open>Lifecycle\<close>, \<open>ServerSafety\<close> (\<open>TcpServer.cc\<close>, \<open>EventLoop.cc\<close> and \<open>TcpConnection.cc\<close> together): the server with the poller
    and the queue of functors of every loop and the connection objects that exist. A step (\<open>sys_step\<close>) is an accepted
    connection, the next functor of a loop, the callbacks of one reported channel, a \<open>send\<close> or \<open>shutdown\<close> of the
    application in the thread of the connection's loop, or the body of the destructor of the server (\<open>sys_destroy\<close>), after which the base
    loop has ended and the loops of the threads go on; every order of steps of different loops is a run. An object goes when its last
    \<open>shared_ptr\<close> does (\<open>release\<close>). The guards (\<open>ev_ok\<close>) are what the outside guarantees: \<open>accept4\<close> returns a descriptor that is
    not open, the kernel reports channels of its interest list, the application holds a connection it uses. Shown, with the
    message callback of the demonstration server: no pointer of a poller or the kernel, of a functor or the table dangles,
    no step dereferences a null or dangling pointer, functors and accepts always succeed, and once the queues have run
    empty, which they always can, the closed connections are gone and the others are open and watched.
  \<^item> \<open>Destruction\<close> (\<open>TcpServer.h\<close>, \<open>EventLoopThread.cc\<close>): the rest of the destructor of the server, which joins the loops of the
    threads, with what they have not run. Shown: wherever the loops stop, the connections are released, except closed ones
    whose removal waits in the base loop, and these go with that loop.
  \<^item> \<open>MainProgram\<close> (\<open>src/main.cc\<close>, \<open>main\<close>): what the program constructs and destroys. Shown: after the set-up
    the kernel watches exactly the eventfd and the listening socket, the log has one line for each constructed loop
    (\<open>LOG_DEBUG\<close> of the constructor) and every component satisfies its invariant, whatever \<open>bind\<close> and \<open>listen\<close> answered; a log statement appends exactly its line to the asynchronous log.
  \<^item> This theory: the two properties across components, the answer of the server to every read (epoll,
    buffer, connection and callback) and the fate of a burst of accepted connections (acceptor, pool,
    server).

  \<^bold>\<open>State and effects.\<close> A class is a record, a method a function on it; an enumeration is a datatype.
  \<open>cxx_error + 'a\<close> is the result of code that can leave its domain (access out of bounds, null pointer,
  overlapping copy, failed allocation, signed overflow, division by zero). Code shared between threads is
  cut at its critical sections or atomic accesses, and a sequence of these is an interleaving. Effects
  on the outside (system calls, callbacks, functors handed to other loops, error logs) are recorded in
  order.

  \<^bold>\<open>The kernel and the C library.\<close> The answers of system calls are arguments: one reply, or a list of
  replies for a loop. A loop whose list of replies runs out before its exit is \<open>None\<close>; the theorems about
  such loops state that the result is \<open>Some\<close>, for every reply list that contains an answer ending the
  loop, so they include termination. What is assumed of \<open>epoll_ctl\<close> is \<open>epoll_spec\<close>: calls
  change the interest list as \<open>epoll_ctl(2)\<close> documents, and fail only with \<open>EEXIST\<close> and \<open>ENOENT\<close>, so descriptors that are registered are
  open and can be watched and the kernel does not run out of memory or watches; with the instance \<open>list_ctl\<close>; what is assumed of \<open>operator new\<close>
  is that a block is disjoint from the live ones. \<open>localtime\<close>, \<open>strerror_r\<close>, hash functions and the
  iteration order of \<open>unordered_map\<close> are parameters.

  \<^bold>\<open>Bounds.\<close> Vectors stay below \<open>ptrdiff_max\<close> (the limit of \<open>std::vector<char>\<close>), the use count of the cache
  and the connection counter below \<open>2 ^ 31\<close>; each appears as a hypothesis where it matters. The destructor
  of the memory pool follows a chain of blocks with fuel, and any fuel above the number of blocks
  gives the same result.

  \<^bold>\<open>Findings.\<close> Lemmas also show where the code differs from its intention, among them timer
  functions that dereference a timer queue no code creates, a hang-up with an error that closes a connection twice, a \<open>send\<close> from another thread that
  keeps only a pointer to the caller's string, a \<open>shutdown\<close> that overtakes queued sends, a null pointer reached in the memory
  pool because two mutexes guard one list, a removal that uses a destroyed server when the base loop goes on,
  and pending log lines that \<open>stop\<close> drops.

  \<^bold>\<open>Not modelled.\<close> Plain accessors and setters of callbacks; \<open>noncopyable.h\<close> and \<open>Callbacks.h\<close>, which hold no
  operations; in theory \<open>Lifecycle\<close> calls of the application from
  threads other than the connection's loop, whose functors hold the bare address of the connection (theory \<open>CrossThread\<close> has
  them for a connection that exists throughout), and \<open>sendFile\<close>; the text of log statements inside the network components, except where an
  error is only logged and in the set-up of the program; the memory model of C++ below sequential consistency; the CPU time a thread takes.
\<close>

section \<open>The system\<close>

lemma input_same: "c\<lparr>inputBuffer := inputBuffer c\<rparr> = c"
  by (cases c) simp

text \<open>C12: The server answers every read: for every burst of data on an open connection the loop of
  \<open>handleRead\<close> ends when the kernel has no more, the connection stays open with its invariant, no byte
  of input is left, and the output stream has grown by exactly one complete response per successful
  read, in order.\<close>

theorem echo_answers_every_read:
  assumes "epoll_spec ctl interest" "conn_ok interest c" "cstate c = kConnected"
    "\<And>c. \<not> fatal_reply (kwrite c)" "\<And>c k. kwrite c = SysOk k \<Longrightarrow> k \<le> length http_resp"
    "\<And>x. x \<in> set xs \<Longrightarrow> x \<noteq> [] \<and> length x \<le> extrabuf_size"
    "length (buffer (inputBuffer c)) + length (concat xs) + extrabuf_size \<le> ptrdiff_max"
    "writerIndex (outputBuffer c) + length xs * length http_resp \<le> ptrdiff_max"
  shows "\<exists>c'. handleRead ctl (onMessage ctl kwrite) (map SysOk xs @ SysErr EAGAIN # rs) c = Some (Inr c') \<and>
    conn_ok interest c' \<and> cstate c' = kConnected \<and>
    content (inputBuffer c') = (if xs = [] then content (inputBuffer c) else []) \<and>
    out_stream c' = out_stream c @ concat (replicate (length xs) http_resp)"
proof -
  have "echo_inv ctl interest kwrite (length xs) c" using assms(1-5,8) by (auto simp: echo_inv_def)
  from echo.read_burst [OF this, of ctl "SysErr EAGAIN # rs"] assms(6,7) obtain c' where
    c': "handleRead ctl (onMessage ctl kwrite) (map SysOk xs @ SysErr EAGAIN # rs) c =
       handleRead ctl (onMessage ctl kwrite) (SysErr EAGAIN # rs) c'" "echo_inv ctl interest kwrite 0 c'"
      "content (inputBuffer c') = (if xs = [] then content (inputBuffer c) else [])"
      "out_stream c' = out_stream c @ concat (replicate (length xs) http_resp)"
    by (auto simp: echo_session)
  have "handleRead ctl (onMessage ctl kwrite) (SysErr EAGAIN # rs) c' = Some (Inr c')"
    by (simp add: readFd_def input_same)
  then show ?thesis using c' by (intro exI [of _ c']) (simp add: echo_inv_def)
qed

theorem echo_answers_every_read_witness:
  "\<exists>c'. handleRead list_ctl (onMessage list_ctl (\<lambda>_. SysOk 3)) (map SysOk [''GET / HTTP/1.1'', ''Host: a''] @ [SysErr EAGAIN]) ex_live =
      Some (Inr c') \<and> conn_ok (\<lambda>k. k) c' \<and> cstate c' = kConnected \<and> content (inputBuffer c') = [] \<and>
    out_stream c' = out_stream ex_live @ http_resp @ http_resp"
proof -
  have "length http_body = 12" by (simp add: http_body_def)
  then have len: "length http_resp = 75"
    by (simp add: http_resp_def CRLF_def decimal_nat.simps [of 12] decimal_nat.simps [of "Suc 0"])
  have b: "length (buffer (inputBuffer ex_live)) = 1032" by (simp add: conn_eval)
  let ?xs = "[''GET / HTTP/1.1'', ''Host: a'']"
  have xs: "x \<noteq> [] \<and> length x \<le> extrabuf_size" if "x \<in> set ?xs" for x
    using that by (auto simp: extrabuf_size_def)
  have "length (buffer (inputBuffer ex_live)) + length (concat ?xs) + extrabuf_size \<le> ptrdiff_max"
    "writerIndex (outputBuffer ex_live) + length ?xs * length http_resp \<le> ptrdiff_max"
    by (simp_all add: len b ex_live(3) CheapPrepend_def extrabuf_size_def ptrdiff_max_def)
  from echo_answers_every_read [OF list_ctl_spec ex_live(2,4) _ _ xs this, of "\<lambda>_. SysOk 3" "[]"]
  show ?thesis by (simp add: fatal_reply_def len del: handleRead.simps)
qed

text \<open>The accept loop with the server's callback is a run of the server.\<close>

lemma hand_over_run: "hand_over newConnection cs = server_run (map (\<lambda>(fd, peer). Accept fd peer) cs)"
proof (induction cs)
  case (Cons x cs)
  then show ?case by (cases x) (auto intro!: ext)
qed (simp add: fun_eq_iff)

lemma legal_accepts: "run_legal s acc (map (\<lambda>(fd, peer). Accept fd peer) cs)"
proof (induction cs arbitrary: acc)
  case (Cons x cs)
  then show ?case by (cases x) simp
qed simp

lemma accepted_accepts:
  "accepted_from s k (map (\<lambda>(fd, peer). Accept fd peer) cs) = map (\<lambda>i. nth_conn s (k + i) (fst (cs ! i))) [0..<length cs]"
proof (induction cs arbitrary: k)
  case (Cons x cs)
  have "[0..<length (x # cs)] = 0 # map Suc [0..<length cs]" by (simp add: upt_conv_Cons map_Suc_upt del: upt_Suc)
  then show ?case using Cons by (cases x) (simp del: upt_Suc)
qed simp

text \<open>C14: No accepted connection is lost: when the listening socket is readable, the accept loop of a started
  server ends, every connection the kernel reports before its first error gets a name and a loop, is
  in the table, and is handed to that loop exactly once, in order of acceptance, the loops taking
  turns.\<close>

theorem server_accepts_burst:
  assumes s: "started_server startLoop base n addr nm = Inr s" and len: "int (length cs) < 2 ^ 31 - 1"
  shows "\<exists>a' s'. Acceptor_handleRead (Some newConnection) (map Inr cs @ Inl e # rs) (a, s) = Some (Inr (a', s')) \<and>
    filter is_established (post s') =
      map (\<lambda>i. (if n \<le> 0 then base else startLoop (i mod nat n), PostEstablished (nth_conn s i (fst (cs ! i))))) [0..<length cs] \<and>
    (\<forall>k c. connections s' k = Some c \<longleftrightarrow> (\<exists>i<length cs. c = nth_conn s i (fst (cs ! i)) \<and> conn_name c = k))"
proof -
  note f = started_server_ok [OF s]
  let ?xs = "map (\<lambda>(fd, peer). Accept fd peer) cs"
  note legal = legal_accepts [of s "[]" cs]
  have acc: "accepted_from s 0 ?xs = map (\<lambda>i. nth_conn s i (fst (cs ! i))) [0..<length cs]"
    using accepted_accepts [of s 0 cs] by simp
  from server_run_ok [OF f(1) fresh_server_ok [OF f(1)] legal] len obtain s' where
    r: "server_run ?xs s = Inr s'" "server_ok s s' (accepted_from s 0 ?xs) (removed_in ?xs)" by auto
  have rem: "removed_in ?xs = {}" by (auto simp: removed_in_def)
  from accept_loop [of newConnection cs e rs a s] hand_over_run [of cs] r(1) obtain a' where
    a': "Acceptor_handleRead (Some newConnection) (map Inr cs @ Inl e # rs) (a, s) = Some (Inr (a', s'))" by auto
  have loop: "conn_loop (nth_conn s i fd) = (if n \<le> 0 then base else startLoop (i mod nat n))" for i fd
    using nth_conn_fields(2) [OF f(1), of i fd] f(2) by simp
  have "filter is_established (post s') =
      map (\<lambda>i. (if n \<le> 0 then base else startLoop (i mod nat n), PostEstablished (nth_conn s i (fst (cs ! i))))) [0..<length cs]"
    using r(2) unfolding server_ok_def acc by (simp add: loop)
  moreover have "connections s' k = Some c \<longleftrightarrow> (\<exists>i<length cs. c = nth_conn s i (fst (cs ! i)) \<and> conn_name c = k)" for k c
    using r(2) unfolding server_ok_def acc rem by auto
  ultimately show ?thesis using a' by blast
qed

theorem server_accepts_burst_witness:
  "\<exists>a' s'. Acceptor_handleRead (Some newConnection) (map Inr [(7, ex_addr), (8, ex_addr), (9, ex_addr)] @ [Inl EAGAIN])
      (Acceptor_new 5 False 0 (EPollPoller_new (Map.empty :: int \<Rightarrow> (mask \<times> chan_id) option)) ex_addr True, ex_server) = Some (Inr (a', s')) \<and>
    filter is_established (post s') =
      [(1, PostEstablished (nth_conn ex_server 0 7)), (2, PostEstablished (nth_conn ex_server 1 8)),
       (1, PostEstablished (nth_conn ex_server 2 9))]"
proof -
  let ?cs = "[(7 :: int, ex_addr), (8, ex_addr), (9, ex_addr)]"
  let ?a = "Acceptor_new 5 False 0 (EPollPoller_new (Map.empty :: int \<Rightarrow> (mask \<times> chan_id) option)) ex_addr True"
  have len: "int (length ?cs) < 2 ^ 31 - 1" by simp
  obtain a' s' where r: "Acceptor_handleRead (Some newConnection) (map Inr ?cs @ Inl EAGAIN # []) (?a, ex_server) = Some (Inr (a', s'))"
    "filter is_established (post s') =
      map (\<lambda>i. (if (2::int) \<le> 0 then 0 else i mod nat 2 + 1, PostEstablished (nth_conn ex_server i (fst (?cs ! i))))) [0..<length ?cs]"
    using server_accepts_burst [OF ex_server len, of EAGAIN "[]" ?a] by (elim exE conjE) (rule that)
  have "[0..<length ?cs] = [0, 1, 2]" by (simp add: numeral_2_eq_2)
  then have "filter is_established (post s') =
      [(1, PostEstablished (nth_conn ex_server 0 7)), (2, PostEstablished (nth_conn ex_server 1 8)),
       (1, PostEstablished (nth_conn ex_server 2 9))]"
    using r(2) by (simp add: numeral_2_eq_2)
  then show ?thesis using r(1) by blast
qed

end
